(* ===== verification/Prelude.thy ===== *)
theory Prelude
  imports Main "HOL-Library.Word"
begin

text \<open>
  The shared part of the development: the machine types of \<open>types.h\<close>, the result type
  and the combinators in which the kernel's functions are written, weakest
  preconditions for total correctness, and little-endian fields of byte arrays.
\<close>

unbundle bit_operations_syntax

named_theorems wp_rules \<open>introduction rules for weakest preconditions\<close>
named_theorems flag_simps \<open>bit arithmetic of flag words\<close>

section \<open>Machine types\<close>

type_synonym uchar = "8 word"
type_synonym ushort = "16 word"
type_synonym uint = "32 word"
type_synonym addr_t = "64 word"

lemma unat_lt: "unat (w :: 'w::len word) < 2 ^ LENGTH('w)"
  by (rule unsigned_less)

lemma unat_lt_u32: "unat (w :: uint) < 4294967296"
  using unat_lt [of w] by simp

lemma unat_lt_u64: "unat (w :: addr_t) < 18446744073709551616"
  using unat_lt [of w] by simp

lemma unat_ucast_up:
  "LENGTH('v::len) \<le> LENGTH('w::len) \<Longrightarrow> unat (ucast (x :: 'v word) :: 'w word) = unat x"
  by (simp add: unsigned_ucast_eq take_bit_nat_eq_self_iff)
    (meson le_less_trans less_or_eq_imp_le order_less_le_trans power_increasing one_le_numeral unat_lt)

lemma unat_ucast_u32_u64 [simp]: "unat (ucast (x :: uint) :: addr_t) = unat x"
  by (simp add: unat_ucast_up)

lemma unat_ucast_u16_u32 [simp]: "unat (ucast (x :: ushort) :: uint) = unat x"
  by (simp add: unat_ucast_up)

lemma unat_ucast_u8_u32 [simp]: "unat (ucast (x :: uchar) :: uint) = unat x"
  by (simp add: unat_ucast_up)

lemma unat_drop_bit: "unat (drop_bit k (w :: 'w::len word)) = unat w div 2 ^ k"
  unfolding unsigned_drop_bit_eq by (simp only: drop_bit_eq_div take_bit_nat_eq_self unat_lt)

lemma unat_and_mask: "unat (w AND mask k :: 'w::len word) = unat w mod 2 ^ k"
proof -
  have "w AND mask k = take_bit k w" by (simp add: take_bit_eq_mask)
  then show ?thesis unfolding \<open>w AND mask k = take_bit k w\<close> unsigned_take_bit_eq
    by (simp only: take_bit_eq_mod)
qed

lemma unat_eq_iff_word: "unat (a :: 'w::len word) = unat b \<longleftrightarrow> a = b"
  by (simp add: word_unat_eq_iff)

section \<open>Searching lists\<close>

lemma find_SomeD: "find P xs = Some x \<Longrightarrow> x \<in> set xs \<and> P x"
  by (auto simp: find_Some_iff)

section \<open>Results and the kernel monad\<close>

text \<open>
  A process sleeps on a channel, which in the source is the address of the object it
  waits for: a buffer, a buffer's or an inode's sleep lock, the log, the read or the write
  counter of the pipe in a page, the tick counter, the console input, a process slot.
\<close>

datatype sleeplock_id = SL_buf nat | SL_inode nat

datatype chan = ChBuf nat | ChSleepLock sleeplock_id | ChLog
  | ChPipeRead addr_t | ChPipeWrite addr_t | ChTicks | ChInput | ChProc nat

text \<open>
  A kernel function started in a state either returns a value and a new state, panics
  with a message, goes to sleep on a channel (the state is the one in which the
  scheduler is entered), enters the scheduler for the last time because the process has
  exited, or loops forever.
\<close>

datatype ('a, 's) res = Ok 'a 's | Panic string | Sleep chan 's | Exited 's | Diverge

type_synonym ('s, 'a) op = "'s \<Rightarrow> ('a, 's) res"

abbreviation return :: "'a \<Rightarrow> ('s, 'a) op" where
  "return x \<equiv> Ok x"

definition bind :: "('s, 'a) op \<Rightarrow> ('a \<Rightarrow> ('s, 'b) op) \<Rightarrow> ('s, 'b) op" where
  "bind m f = (\<lambda>s. case m s of Ok x t \<Rightarrow> f x t | Panic e \<Rightarrow> Panic e
                   | Sleep c t \<Rightarrow> Sleep c t | Exited t \<Rightarrow> Exited t | Diverge \<Rightarrow> Diverge)"

definition panic :: "string \<Rightarrow> ('s, 'a) op" where
  "panic msg = (\<lambda>s. Panic msg)"

definition gets :: "('s \<Rightarrow> 'a) \<Rightarrow> ('s, 'a) op" where
  "gets f = (\<lambda>s. Ok (f s) s)"

definition modify :: "('s \<Rightarrow> 's) \<Rightarrow> ('s, unit) op" where
  "modify f = (\<lambda>s. Ok () (f s))"

definition panic_if :: "bool \<Rightarrow> string \<Rightarrow> ('s, unit) op" where
  "panic_if c msg = (if c then panic msg else return ())"

text \<open>
  Using a null pointer in the kernel faults, and the trap handler answers a fault inside
  the kernel with the panic \<open>trap\<close>.
\<close>

definition deref :: "'p option \<Rightarrow> ('p \<Rightarrow> ('s, 'a) op) \<Rightarrow> ('s, 'a) op" where
  "deref p f = (case p of None \<Rightarrow> panic ''trap'' | Some x \<Rightarrow> f x)"

lemma deref_simps [simp]: "deref (Some x) f = f x" "deref None f = panic ''trap''"
  by (simp_all add: deref_def)

primrec for_each :: "'i list \<Rightarrow> ('i \<Rightarrow> ('s, unit) op) \<Rightarrow> ('s, unit) op" where
  "for_each [] body = return ()"
| "for_each (i # is) body = bind (body i) (\<lambda>_. for_each is body)"

subsection \<open>Weakest preconditions\<close>

text \<open>
  \<open>wp m Q s\<close>: started in \<open>s\<close>, the function \<open>m\<close> returns (it neither panics nor
  sleeps nor exits nor loops), and its result and final state satisfy \<open>Q\<close>.
\<close>

definition wp :: "('s, 'a) op \<Rightarrow> ('a \<Rightarrow> 's \<Rightarrow> bool) \<Rightarrow> 's \<Rightarrow> bool" where
  "wp m Q s = (case m s of Ok x t \<Rightarrow> Q x t | _ \<Rightarrow> False)"

lemma wp_return [simp]: "wp (return x) Q s = Q x s"
  by (simp add: wp_def)

lemma wp_bind [simp]: "wp (bind m f) Q s = wp m (\<lambda>x. wp (f x) Q) s"
  by (simp add: wp_def bind_def split: res.split)

lemma wp_panic [simp]: "\<not> wp (panic msg) Q s"
  by (simp add: wp_def panic_def)

lemma wp_gets [simp]: "wp (gets f) Q s = Q (f s) s"
  by (simp add: wp_def gets_def)

lemma wp_modify [simp]: "wp (modify f) Q s = Q () (f s)"
  by (simp add: wp_def modify_def)

lemma wp_panic_if [simp]: "wp (panic_if c msg) Q s = (\<not> c \<and> Q () s)"
  by (simp add: panic_if_def)

lemma wp_if: "wp (if c then m else n) Q s = (if c then wp m Q s else wp n Q s)"
  by simp

lemma wp_mono: "wp m Q s \<Longrightarrow> (\<And>x t. Q x t \<Longrightarrow> R x t) \<Longrightarrow> wp m R s"
  by (auto simp: wp_def split: res.splits)

lemma wp_conj: "wp m Q s \<Longrightarrow> wp m R s \<Longrightarrow> wp m (\<lambda>x t. Q x t \<and> R x t) s"
  by (auto simp: wp_def split: res.splits)

lemma wp_Ok: "wp m Q s \<longleftrightarrow> (\<exists>x t. m s = Ok x t \<and> Q x t)"
  by (auto simp: wp_def split: res.splits)

lemma wpI: "m s = Ok x t \<Longrightarrow> Q x t \<Longrightarrow> wp m Q s"
  by (simp add: wp_def)

lemma wpE:
  assumes "wp m Q s"
  obtains x t where "m s = Ok x t" "Q x t"
  using assms by (auto simp: wp_Ok)

lemma bind_Ok [simp]: "m s = Ok x t \<Longrightarrow> bind m f s = f x t"
  by (simp add: bind_def)

lemma bind_Panic [simp]: "m s = Panic e \<Longrightarrow> bind m f s = Panic e"
  by (simp add: bind_def)

lemma bind_Sleep [simp]: "m s = Sleep c t \<Longrightarrow> bind m f s = Sleep c t"
  by (simp add: bind_def)

lemma bind_eq_Ok:
  "bind m f s = Ok y u \<longleftrightarrow> (\<exists>x t. m s = Ok x t \<and> f x t = Ok y u)"
  by (simp add: bind_def split: res.split)

lemma bind_return_left [simp]: "bind (return x) f = f x"
  by (rule ext) (simp add: bind_def)

lemma gets_run [simp]: "gets f s = Ok (f s) s"
  by (simp add: gets_def)

lemma modify_run [simp]: "modify f s = Ok () (f s)"
  by (simp add: modify_def)

lemma panic_run [simp]: "panic msg s = Panic msg"
  by (simp add: panic_def)

lemma panic_if_run [simp]: "panic_if c msg s = (if c then Panic msg else Ok () s)"
  by (simp add: panic_if_def)

lemma bind_assoc: "bind (bind m f) g = bind m (\<lambda>x. bind (f x) g)"
  by (rule ext) (simp add: bind_def split: res.split)

lemma for_each_append: "for_each (xs @ ys) b = bind (for_each xs b) (\<lambda>_. for_each ys b)"
  by (induction xs) (simp_all add: bind_assoc)

text \<open>A loop over a list of indices: an invariant indexed by what is left to do.\<close>

lemma wp_for_each:
  assumes "I is s"
    and "\<And>i js t. I (i # js) t \<Longrightarrow> wp (body i) (\<lambda>_ u. I js u) t"
  shows "wp (for_each is body) (\<lambda>_ t. I [] t) s"
  using assms(1)
proof (induction "is" arbitrary: s)
  case Nil
  then show ?case by simp
next
  case (Cons i js)
  from assms(2) [OF Cons.prems] show ?case
    by (auto intro: wp_mono Cons.IH)
qed

section \<open>Byte arrays\<close>

text \<open>
  A C object inside a buffer is a range of its bytes. \<open>slice k n d\<close> reads \<open>n\<close> bytes at
  offset \<open>k\<close>; \<open>splice k bs d\<close> overwrites the bytes from offset \<open>k\<close> on. The machine is
  little endian.
\<close>

definition slice :: "nat \<Rightarrow> nat \<Rightarrow> 'a list \<Rightarrow> 'a list" where
  "slice k n d = take n (drop k d)"

definition splice :: "nat \<Rightarrow> 'a list \<Rightarrow> 'a list \<Rightarrow> 'a list" where
  "splice k bs d = take k d @ bs @ drop (k + length bs) d"

primrec to_le :: "nat \<Rightarrow> 'w::len word \<Rightarrow> uchar list" where
  "to_le 0 v = []"
| "to_le (Suc n) v = ucast v # to_le n (drop_bit 8 v)"

primrec from_le :: "uchar list \<Rightarrow> 'w::len word" where
  "from_le [] = 0"
| "from_le (b # bs) = ucast b OR push_bit 8 (from_le bs)"

lemma length_slice [simp]: "length (slice k n d) = min n (length d - k)"
  by (simp add: slice_def)

lemma length_splice [simp]: "k + length bs \<le> length d \<Longrightarrow> length (splice k bs d) = length d"
  by (simp add: splice_def)

lemma length_to_le [simp]: "length (to_le n v) = n"
  by (induction n arbitrary: v) auto

lemma nth_splice:
  assumes "k + length bs \<le> length d" and "i < length d"
  shows "splice k bs d ! i = (if k \<le> i \<and> i < k + length bs then bs ! (i - k) else d ! i)"
  using assms by (auto simp: splice_def nth_append min_def)

lemma nth_slice [simp]: "i < n \<Longrightarrow> k + i < length d \<Longrightarrow> slice k n d ! i = d ! (k + i)"
  by (simp add: slice_def)

lemma slice_splice_same [simp]:
  assumes "k + length bs \<le> length d" and "n = length bs"
  shows "slice k n (splice k bs d) = bs"
  using assms by (simp add: slice_def splice_def)

lemma slice_splice_other:
  assumes "k + length bs \<le> length d" and "j + n \<le> length d"
    and "j + n \<le> k \<or> k + length bs \<le> j"
  shows "slice j n (splice k bs d) = slice j n d"
  using assms by (intro nth_equalityI) (auto simp: nth_splice)

lemma splice_slice_id: "k + n \<le> length d \<Longrightarrow> splice k (slice k n d) d = d"
  by (rule nth_equalityI) (auto simp: nth_splice)

lemma slice_slice: "j + m \<le> n \<Longrightarrow> slice j m (slice k n d) = slice (k + j) m d"
  by (simp add: slice_def drop_take min_def add.commute [of k j])

lemma slice_append1 [simp]: "length xs = n \<Longrightarrow> slice 0 n (xs @ ys) = xs"
  by (simp add: slice_def)

lemma slice_append2: "length xs \<le> k \<Longrightarrow> slice k n (xs @ ys) = slice (k - length xs) n ys"
  by (simp add: slice_def)

lemma from_le_to_le: "from_le (to_le n v) = take_bit (8 * n) v"
proof (induction n arbitrary: v)
  case 0
  then show ?case by simp
next
  case (Suc n)
  have "from_le (to_le (Suc n) v)
      = ucast (ucast v :: uchar) OR push_bit 8 (take_bit (8 * n) (drop_bit 8 v))"
    by (simp add: Suc.IH)
  also have "\<dots> = take_bit (8 * Suc n) v"
  proof (rule bit_word_eqI)
    fix m
    assume "m < LENGTH('a)"
    then show "bit (ucast (ucast v :: uchar) OR push_bit 8 (take_bit (8 * n) (drop_bit 8 v))) m
      = bit (take_bit (8 * Suc n) v) m"
      by (cases "m < 8") (auto simp: bit_simps less_diff_conv2)
  qed
  finally show ?case .
qed

lemma from_le_to_le_u16 [simp]: "from_le (to_le 2 v) = (v :: ushort)"
  by (simp add: from_le_to_le take_bit_word_eq_self)

lemma from_le_to_le_u32 [simp]: "from_le (to_le 4 v) = (v :: uint)"
  by (simp add: from_le_to_le take_bit_word_eq_self)

lemma from_le_to_le_u64 [simp]: "from_le (to_le 8 v) = (v :: addr_t)"
  by (simp add: from_le_to_le take_bit_word_eq_self)

definition get_u16 :: "nat \<Rightarrow> uchar list \<Rightarrow> ushort" where
  "get_u16 k d = from_le (slice k 2 d)"

definition get_u32 :: "nat \<Rightarrow> uchar list \<Rightarrow> uint" where
  "get_u32 k d = from_le (slice k 4 d)"

definition get_u64 :: "nat \<Rightarrow> uchar list \<Rightarrow> addr_t" where
  "get_u64 k d = from_le (slice k 8 d)"

definition put_u32 :: "nat \<Rightarrow> uint \<Rightarrow> uchar list \<Rightarrow> uchar list" where
  "put_u32 k v d = splice k (to_le 4 v) d"

lemma length_put_u32 [simp]: "k + 4 \<le> length d \<Longrightarrow> length (put_u32 k v d) = length d"
  by (simp add: put_u32_def)

lemma get_put_u32_same [simp]: "k + 4 \<le> length d \<Longrightarrow> get_u32 k (put_u32 k v d) = v"
  by (simp add: get_u32_def put_u32_def)

lemma get_put_u32_other:
  "k + 4 \<le> length d \<Longrightarrow> j + 4 \<le> length d \<Longrightarrow> j + 4 \<le> k \<or> k + 4 \<le> j \<Longrightarrow>
   get_u32 j (put_u32 k v d) = get_u32 j d"
  by (simp add: get_u32_def put_u32_def slice_splice_other)

end
