(* ===== verification/Interfaces.thy ===== *)
theory Interfaces
  imports Prelude
begin

text \<open>
  The contracts that several components of the kernel implement: an allocator of
  identical resources (pages, disk blocks, table slots, descriptors), a bounded
  first-in-first-out queue (the pipe, the console line buffer), and a state machine with
  an invariant. Each is a locale whose consequences are proved once here; the component
  theories interpret it on their own definitions.
\<close>

section \<open>Views of kernel functions\<close>

text \<open>
  \<open>attempt\<close> reads a function that panics when it fails as a partial function;
  \<open>attempt_ptr\<close> does so for one that returns a null pointer or \<open>-1\<close>.
\<close>

definition attempt :: "('s, 'a) op \<Rightarrow> 's \<Rightarrow> ('a \<times> 's) option" where
  "attempt m s = (case m s of Ok x t \<Rightarrow> Some (x, t) | _ \<Rightarrow> None)"

definition attempt_ptr :: "('s, 'a option) op \<Rightarrow> 's \<Rightarrow> ('a \<times> 's) option" where
  "attempt_ptr m s = (case m s of Ok (Some x) t \<Rightarrow> Some (x, t) | _ \<Rightarrow> None)"

lemma attempt_Ok [simp]: "m s = Ok x t \<Longrightarrow> attempt m s = Some (x, t)"
  by (simp add: attempt_def)

lemma attempt_Panic [simp]: "m s = Panic e \<Longrightarrow> attempt m s = None"
  by (simp add: attempt_def)

lemma attempt_ptr_Ok [simp]: "m s = Ok r t \<Longrightarrow> attempt_ptr m s = map_option (\<lambda>x. (x, t)) r"
  by (cases r) (simp_all add: attempt_ptr_def)

section \<open>Allocators\<close>

fun alloc_many :: "('s \<Rightarrow> ('r \<times> 's) option) \<Rightarrow> nat \<Rightarrow> 's \<Rightarrow> ('r list \<times> 's) option" where
  "alloc_many alloc 0 s = Some ([], s)"
| "alloc_many alloc (Suc n) s =
     (case alloc s of None \<Rightarrow> None
      | Some (r, t) \<Rightarrow> map_option (\<lambda>(rs, u). (r # rs, u)) (alloc_many alloc n t))"

locale allocator =
  fixes inv :: "'s \<Rightarrow> bool"
    and avail :: "'s \<Rightarrow> 'r set"
    and alloc :: "'s \<Rightarrow> ('r \<times> 's) option"
    and release :: "'r \<Rightarrow> 's \<Rightarrow> 's option"
    and valid :: "'s \<Rightarrow> 'r \<Rightarrow> bool"
  assumes alloc_fails: "inv s \<Longrightarrow> alloc s = None \<Longrightarrow> avail s = {}"
    and alloc_member: "inv s \<Longrightarrow> alloc s = Some (r, t) \<Longrightarrow> r \<in> avail s"
    and alloc_avail: "inv s \<Longrightarrow> alloc s = Some (r, t) \<Longrightarrow> avail t = avail s - {r}"
    and alloc_inv: "inv s \<Longrightarrow> alloc s = Some (r, t) \<Longrightarrow> inv t"
    and alloc_valid: "inv s \<Longrightarrow> alloc s = Some (r, t) \<Longrightarrow> valid t = valid s"
    and avail_valid: "inv s \<Longrightarrow> r \<in> avail s \<Longrightarrow> valid s r"
    and release_ok: "inv s \<Longrightarrow> valid s r \<Longrightarrow> r \<notin> avail s \<Longrightarrow>
      \<exists>t. release r s = Some t \<and> inv t \<and> avail t = insert r (avail s)"
begin

lemma alloc_succeeds: "inv s \<Longrightarrow> avail s \<noteq> {} \<Longrightarrow> \<exists>r t. alloc s = Some (r, t)"
  using alloc_fails by fastforce

lemma alloc_release:
  assumes "inv s" and "alloc s = Some (r, t)"
  shows "\<exists>u. release r t = Some u \<and> inv u \<and> avail u = avail s"
proof -
  have r: "r \<in> avail s" "avail t = avail s - {r}" "inv t" "valid t r"
    using assms alloc_member alloc_avail alloc_inv alloc_valid avail_valid by metis+
  then obtain u where "release r t = Some u" "inv u" "avail u = insert r (avail t)"
    using release_ok by blast
  with r show ?thesis by auto
qed

lemma alloc_many_props:
  "inv s \<Longrightarrow> alloc_many alloc n s = Some (rs, t) \<Longrightarrow>
   inv t \<and> length rs = n \<and> distinct rs \<and> set rs \<subseteq> avail s \<and> avail t = avail s - set rs"
proof (induction n arbitrary: s rs)
  case 0
  then show ?case by simp
next
  case (Suc n)
  then obtain r u rs' where a: "alloc s = Some (r, u)"
    and rs: "alloc_many alloc n u = Some (rs', t)" "rs = r # rs'"
    by (auto split: option.splits)
  have u: "r \<in> avail s" "avail u = avail s - {r}" "inv u"
    using Suc.prems(1) a alloc_member alloc_avail alloc_inv by metis+
  from Suc.IH [OF u(3) rs(1)] u(1,2) rs(2) show ?case by auto
qed

lemma alloc_many_succeeds:
  "inv s \<Longrightarrow> finite (avail s) \<Longrightarrow> n \<le> card (avail s) \<Longrightarrow> \<exists>rs t. alloc_many alloc n s = Some (rs, t)"
proof (induction n arbitrary: s)
  case 0
  then show ?case by simp
next
  case (Suc n)
  then have "avail s \<noteq> {}" by auto
  then obtain r u where a: "alloc s = Some (r, u)"
    using alloc_succeeds Suc.prems(1) by blast
  have u: "r \<in> avail s" "avail u = avail s - {r}" "inv u"
    using Suc.prems(1) a alloc_member alloc_avail alloc_inv by metis+
  then have "finite (avail u)" "n \<le> card (avail u)"
    using Suc.prems by auto
  then obtain rs t where "alloc_many alloc n u = Some (rs, t)"
    using Suc.IH u(3) by blast
  with a show ?case by simp
qed

lemma alloc_many_fails:
  assumes "inv s" and "finite (avail s)" and "card (avail s) < n"
  shows "alloc_many alloc n s = None"
proof (rule ccontr)
  assume "alloc_many alloc n s \<noteq> None"
  then obtain rs t where "alloc_many alloc n s = Some (rs, t)" by auto
  then have "length rs = n" "distinct rs" "set rs \<subseteq> avail s"
    using alloc_many_props assms(1) by blast+
  then have "n \<le> card (avail s)"
    using assms(2) by (metis card_mono distinct_card)
  with assms(3) show False by simp
qed

end

section \<open>Bounded queues\<close>

datatype 'a qop = Enq 'a | Deq

text \<open>
  A run of enqueue and dequeue operations in any order, with what went in and what came
  out; an operation the queue refuses (full or empty) leaves it as it is.
\<close>

fun queue_run :: "('a \<Rightarrow> 's \<Rightarrow> 's option) \<Rightarrow> ('s \<Rightarrow> ('a \<times> 's) option) \<Rightarrow>
    'a qop list \<Rightarrow> 's \<Rightarrow> 'a list \<times> 'a list \<times> 's" where
  "queue_run enq deq [] s = ([], [], s)"
| "queue_run enq deq (Enq x # ops) s =
     (case enq x s of None \<Rightarrow> queue_run enq deq ops s
      | Some t \<Rightarrow> (case queue_run enq deq ops t of (i, out, u) \<Rightarrow> (x # i, out, u)))"
| "queue_run enq deq (Deq # ops) s =
     (case deq s of None \<Rightarrow> queue_run enq deq ops s
      | Some (x, t) \<Rightarrow> (case queue_run enq deq ops t of (i, out, u) \<Rightarrow> (i, x # out, u)))"

locale bounded_queue =
  fixes inv :: "'s \<Rightarrow> bool"
    and contents :: "'s \<Rightarrow> 'a list"
    and capacity :: nat
    and enq :: "'a \<Rightarrow> 's \<Rightarrow> 's option"
    and deq :: "'s \<Rightarrow> ('a \<times> 's) option"
  assumes bounded: "inv s \<Longrightarrow> length (contents s) \<le> capacity"
    and enq_full: "inv s \<Longrightarrow> enq x s = None \<longleftrightarrow> length (contents s) = capacity"
    and enq_contents: "inv s \<Longrightarrow> enq x s = Some t \<Longrightarrow> contents t = contents s @ [x]"
    and enq_inv: "inv s \<Longrightarrow> enq x s = Some t \<Longrightarrow> inv t"
    and deq_empty: "inv s \<Longrightarrow> deq s = None \<longleftrightarrow> contents s = []"
    and deq_contents: "inv s \<Longrightarrow> deq s = Some (x, t) \<Longrightarrow> contents s = x # contents t"
    and deq_inv: "inv s \<Longrightarrow> deq s = Some (x, t) \<Longrightarrow> inv t"
begin

lemma run_fifo:
  "inv s \<Longrightarrow> queue_run enq deq ops s = (i, out, t) \<Longrightarrow>
   inv t \<and> contents s @ i = out @ contents t"
proof (induction ops arbitrary: s i out)
  case Nil
  then show ?case by simp
next
  case (Cons op ops)
  show ?case
  proof (cases op)
    case (Enq x)
    show ?thesis
    proof (cases "enq x s")
      case None
      with Enq Cons show ?thesis by simp
    next
      case (Some u)
      with Enq Cons.prems obtain i' where i': "queue_run enq deq ops u = (i', out, t)" "i = x # i'"
        by (auto split: prod.splits)
      from Cons.IH [OF enq_inv [OF Cons.prems(1) Some] i'(1)] i'(2)
        enq_contents [OF Cons.prems(1) Some]
      show ?thesis by simp
    qed
  next
    case Deq
    show ?thesis
    proof (cases "deq s")
      case None
      with Deq Cons show ?thesis by simp
    next
      case (Some p)
      then obtain x u where p: "deq s = Some (x, u)" by (cases p) simp
      with Deq Cons.prems obtain out' where out': "queue_run enq deq ops u = (i, out', t)" "out = x # out'"
        by (auto split: prod.splits)
      from Cons.IH [OF deq_inv [OF Cons.prems(1) p] out'(1)] out'(2)
        deq_contents [OF Cons.prems(1) p]
      show ?thesis by simp
    qed
  qed
qed

end

section \<open>State machines with an invariant\<close>

inductive reach :: "('s \<Rightarrow> bool) \<Rightarrow> ('s \<Rightarrow> 's \<Rightarrow> bool) \<Rightarrow> 's \<Rightarrow> bool"
  for init :: "'s \<Rightarrow> bool" and step :: "'s \<Rightarrow> 's \<Rightarrow> bool" where
  reach_init: "init s \<Longrightarrow> reach init step s"
| reach_step: "reach init step s \<Longrightarrow> step s t \<Longrightarrow> reach init step t"

locale invariant_system =
  fixes init :: "'s \<Rightarrow> bool"
    and step :: "'s \<Rightarrow> 's \<Rightarrow> bool"
    and inv :: "'s \<Rightarrow> bool"
  assumes init_inv: "init s \<Longrightarrow> inv s"
    and step_inv: "inv s \<Longrightarrow> step s t \<Longrightarrow> inv t"
begin

lemma reachable_inv: "reach init step s \<Longrightarrow> inv s"
  by (induction rule: reach.induct) (auto intro: init_inv step_inv)

lemma steps_inv: "step\<^sup>*\<^sup>* s t \<Longrightarrow> inv s \<Longrightarrow> inv t"
  by (induction rule: rtranclp_induct) (auto intro: step_inv)

end

end
