(* ===== verification/Memory.thy ===== *)
theory Memory
  imports Prelude
begin

text \<open>
  Kernel memory as a map from addresses to bytes, and the memory and string routines of
  \<open>string.c\<close> and \<open>ulib.c\<close> on it.
\<close>

type_synonym memory = "addr_t \<Rightarrow> uchar"

section \<open>Layout constants of memlayout.h and mmu.h\<close>

definition PGSIZE :: addr_t where "PGSIZE = 4096"
definition KERNBASE :: addr_t where "KERNBASE = 0xFFFF800000000000"
definition PHYSTOP :: addr_t where "PHYSTOP = 0xE000000"

definition V2P :: "addr_t \<Rightarrow> addr_t" where "V2P a = a - KERNBASE"
definition P2V :: "addr_t \<Rightarrow> addr_t" where "P2V a = a + KERNBASE"

definition PGROUNDUP :: "addr_t \<Rightarrow> addr_t" where
  "PGROUNDUP sz = (sz + (PGSIZE - 1)) AND NOT (PGSIZE - 1)"

definition PGROUNDDOWN :: "addr_t \<Rightarrow> addr_t" where
  "PGROUNDDOWN a = a AND NOT (PGSIZE - 1)"

section \<open>Memory routines\<close>

text \<open>\<open>rep stosb\<close> and \<open>rep stosl\<close> of \<open>x86.h\<close>: fill upwards, a byte or four bytes at a time.\<close>

fun stosb :: "addr_t \<Rightarrow> uchar \<Rightarrow> nat \<Rightarrow> memory \<Rightarrow> memory" where
  "stosb a c 0 m = m"
| "stosb a c (Suc n) m = stosb (a + 1) c n (m(a := c))"

fun stosl :: "addr_t \<Rightarrow> uint \<Rightarrow> nat \<Rightarrow> memory \<Rightarrow> memory" where
  "stosl a c 0 m = m"
| "stosl a c (Suc n) m =
     stosl (a + 4) c n
       (m(a := ucast c, a + 1 := ucast (drop_bit 8 c),
          a + 2 := ucast (drop_bit 16 c), a + 3 := ucast (drop_bit 24 c)))"

text \<open>The count is an \<open>int\<close> parameter of \<open>stosl\<close> and \<open>stosb\<close>: only its low 32 bits count.\<close>

definition memset :: "addr_t \<Rightarrow> uint \<Rightarrow> addr_t \<Rightarrow> memory \<Rightarrow> memory" where
  "memset dst c n m =
     (if dst mod 4 = 0 \<and> n mod 4 = 0
      then (let c = c AND 0xFF
            in stosl dst (push_bit 24 c OR push_bit 16 c OR push_bit 8 c OR c)
                 (unat (ucast (n div 4) :: uint)) m)
      else stosb dst (ucast c) (unat (ucast n :: uint)) m)"

fun memcmp :: "addr_t \<Rightarrow> addr_t \<Rightarrow> nat \<Rightarrow> memory \<Rightarrow> int" where
  "memcmp s1 s2 0 m = 0"
| "memcmp s1 s2 (Suc n) m =
     (if m s1 \<noteq> m s2 then uint (m s1) - uint (m s2) else memcmp (s1 + 1) (s2 + 1) n m)"

fun copy_up :: "addr_t \<Rightarrow> addr_t \<Rightarrow> nat \<Rightarrow> memory \<Rightarrow> memory" where
  "copy_up d s 0 m = m"
| "copy_up d s (Suc n) m = copy_up (d + 1) (s + 1) n (m(d := m s))"

fun copy_down :: "addr_t \<Rightarrow> addr_t \<Rightarrow> nat \<Rightarrow> memory \<Rightarrow> memory" where
  "copy_down d s 0 m = m"
| "copy_down d s (Suc n) m = copy_down (d - 1) (s - 1) n (m(d - 1 := m (s - 1)))"

definition memmove :: "addr_t \<Rightarrow> addr_t \<Rightarrow> uint \<Rightarrow> memory \<Rightarrow> memory" where
  "memmove dst src n m =
     (if src < dst \<and> src + ucast n > dst
      then copy_down (dst + ucast n) (src + ucast n) (unat n) m
      else copy_up dst src (unat n) m)"

text \<open>\<open>ulib.c\<close> has its own \<open>memmove\<close> for user programs, which always copies upwards.\<close>

definition ulib_memmove :: "addr_t \<Rightarrow> addr_t \<Rightarrow> nat \<Rightarrow> memory \<Rightarrow> memory" where
  "ulib_memmove vdst vsrc n m = copy_up vdst vsrc n m"

subsection \<open>What they compute\<close>

text \<open>\<open>bytes_at m a n\<close>: the \<open>n\<close> bytes of memory from address \<open>a\<close> on.\<close>

definition bytes_at :: "memory \<Rightarrow> addr_t \<Rightarrow> nat \<Rightarrow> uchar list" where
  "bytes_at m a n = map (\<lambda>i. m (a + of_nat i)) [0..<n]"

text \<open>\<open>in_range x a n\<close>: the address \<open>x\<close> is one of the \<open>n\<close> addresses from \<open>a\<close> on.\<close>

definition in_range :: "addr_t \<Rightarrow> addr_t \<Rightarrow> nat \<Rightarrow> bool" where
  "in_range x a n \<longleftrightarrow> unat (x - a) < n"

lemma in_range_0 [simp]: "\<not> in_range x a 0"
  by (simp add: in_range_def)

lemma in_range_Suc:
  assumes "n < 2 ^ 64"
  shows "in_range x a (Suc n) \<longleftrightarrow> x = a \<or> in_range x (a + 1) n"
proof -
  have eq: "x - (a + 1) = (x - a) - 1" by simp
  show ?thesis
  proof (cases "x - a = 0")
    case True
    then show ?thesis by (simp add: in_range_def)
  next
    case False
    then have u: "unat (x - (a + 1)) = unat (x - a) - 1"
      using eq unat_minus_one by metis
    from False have "unat (x - a) > 0"
      using unat_gt_0 by blast
    with False u show ?thesis by (auto simp: in_range_def)
  qed
qed

lemma in_range_offset: "i < n \<Longrightarrow> n \<le> 2 ^ 64 \<Longrightarrow> in_range (a + of_nat i) a n"
  by (simp add: in_range_def unat_of_nat)

lemma in_range_sub:
  assumes "in_range x (d + a) n" and "unat d + n \<le> k"
  shows "in_range x a k"
proof -
  have "unat ((x - (d + a)) + d) \<le> unat (x - (d + a)) + unat d"
    by (simp only: unat_word_ariths mod_less_eq_dividend)
  with assms show ?thesis by (simp add: in_range_def)
qed

lemma stosb_apply:
  "n < 2 ^ 64 \<Longrightarrow> stosb a c n m x = (if in_range x a n then c else m x)"
  by (induction n arbitrary: a m) (auto simp: in_range_Suc)

lemma copy_up_apply:
  assumes "n < 2 ^ 64" and "unat (d - s) = 0 \<or> n \<le> unat (d - s)"
  shows "copy_up d s n m x = (if in_range x d n then m (s + (x - d)) else m x)"
  using assms
proof (induction n arbitrary: d s m)
  case 0
  then show ?case by simp
next
  case (Suc n)
  have IH: "copy_up (d + 1) (s + 1) n (m(d := m s)) x =
      (if in_range x (d + 1) n then (m(d := m s)) (s + 1 + (x - (d + 1))) else (m(d := m s)) x)"
    using Suc.prems by (intro Suc.IH) auto
  have ne: "s + (x - d) \<noteq> d" if r: "in_range x (d + 1) n" and d: "d \<noteq> s"
  proof
    assume "s + (x - d) = d"
    then have e: "x - d = d - s" by (simp add: algebra_simps)
    have "in_range x d (Suc n)"
      using r Suc.prems(1) by (simp add: in_range_Suc)
    then have "unat (d - s) < Suc n" using e by (simp add: in_range_def)
    with Suc.prems(2) have "unat (d - s) = 0" by simp
    then have "d - s = 0" by (simp only: unat_eq_0)
    with d show False by simp
  qed
  show ?case
    using IH ne Suc.prems(1) by (cases "d = s") (auto simp: in_range_Suc fun_upd_def)
qed

lemma copy_down_apply:
  assumes "n < 2 ^ 64" and "unat (s - d) = 0 \<or> n \<le> unat (s - d)"
  shows "copy_down (d + of_nat n) (s + of_nat n) n m x =
    (if in_range x d n then m (s + (x - d)) else m x)"
  using assms
proof (induction n arbitrary: m)
  case 0
  then show ?case by simp
next
  case (Suc n)
  let ?m = "m(d + of_nat n := m (s + of_nat n))"
  have step: "copy_down (d + of_nat (Suc n)) (s + of_nat (Suc n)) (Suc n) m x =
      copy_down (d + of_nat n) (s + of_nat n) n ?m x"
    by (simp add: algebra_simps)
  have IH: "copy_down (d + of_nat n) (s + of_nat n) n ?m x =
      (if in_range x d n then ?m (s + (x - d)) else ?m x)"
    using Suc.prems by (intro Suc.IH) auto
  have un: "unat (of_nat n :: addr_t) = n"
    using Suc.prems(1) by (simp add: unat_of_nat)
  have last: "in_range x d (Suc n) \<longleftrightarrow> x = d + of_nat n \<or> in_range x d n"
  proof -
    have "x = d + of_nat n \<longleftrightarrow> x - d = of_nat n"
      by (auto simp: algebra_simps)
    also have "\<dots> \<longleftrightarrow> unat (x - d) = n"
      by (simp add: word_unat_eq_iff un)
    finally have "x = d + of_nat n \<longleftrightarrow> unat (x - d) = n" .
    then show ?thesis by (auto simp: in_range_def)
  qed
  have ne: "s + (x - d) \<noteq> d + of_nat n" if r: "in_range x d n" and d: "d \<noteq> s"
  proof
    assume "s + (x - d) = d + of_nat n"
    then have e: "s - d = of_nat n - (x - d)" by (simp add: algebra_simps)
    have xn: "unat (x - d) < n" using r by (simp add: in_range_def)
    then have "x - d \<le> of_nat n" by (simp add: word_le_nat_alt un)
    then have "unat (s - d) = n - unat (x - d)"
      by (simp add: e unat_sub un)
    with Suc.prems(2) xn have "unat (s - d) = 0" by linarith
    then have "s - d = 0" by (simp only: unat_eq_0)
    with d show False by simp
  qed
  show ?case
    unfolding step IH last using ne
    by (cases "d = s") (auto simp: in_range_def un)
qed

lemma stosl_stosb:
  assumes "ucast c = b" "ucast (drop_bit 8 c) = b" "ucast (drop_bit 16 c) = b" "ucast (drop_bit 24 c) = b"
  shows "stosl a c n m = stosb a b (4 * n) m"
proof (induction n arbitrary: a m)
  case 0
  then show ?case by simp
next
  case (Suc n)
  have four: "4 * Suc n = Suc (Suc (Suc (Suc (4 * n))))" by simp
  have "stosl a c (Suc n) m = stosb (a + 4) b (4 * n) (m(a := b, a + 1 := b, a + 2 := b, a + 3 := b))"
    by (simp only: stosl.simps assms Suc.IH)
  also have "\<dots> = stosb a b (4 * Suc n) m"
    unfolding four stosb.simps by (simp add: add.assoc)
  finally show ?case .
qed

lemma byte_in_word:
  fixes c :: uint
  assumes "c' = c AND 0xFF" and "w = push_bit 24 c' OR push_bit 16 c' OR push_bit 8 c' OR c'"
  shows "ucast w = (ucast c :: uchar)" "ucast (drop_bit 8 w) = (ucast c :: uchar)"
    "ucast (drop_bit 16 w) = (ucast c :: uchar)" "ucast (drop_bit 24 w) = (ucast c :: uchar)"
proof -
  have c': "bit c' i \<longleftrightarrow> i < 8 \<and> bit c i" for i
  proof -
    have "c AND 0xFF = take_bit 8 c"
      unfolding take_bit_eq_mask by (simp add: mask_eq_exp_minus_1)
    then show ?thesis by (simp add: assms(1) bit_simps)
  qed
  show "ucast w = (ucast c :: uchar)" "ucast (drop_bit 8 w) = (ucast c :: uchar)"
    "ucast (drop_bit 16 w) = (ucast c :: uchar)" "ucast (drop_bit 24 w) = (ucast c :: uchar)"
    by (rule bit_word_eqI; auto simp: assms(2) bit_simps c')+
qed

lemma unat_ucast_down: "unat n < 2 ^ 32 \<Longrightarrow> unat (ucast (n :: addr_t) :: uint) = unat n"
  by (simp add: unsigned_ucast_eq take_bit_nat_eq_self_iff)

lemma memset_stosb: "unat n < 2 ^ 32 \<Longrightarrow> memset dst c n m = stosb dst (ucast c) (unat n) m"
proof (cases "dst mod 4 = 0 \<and> n mod 4 = 0")
  case True
  assume n: "unat n < 2 ^ 32"
  from True have "unat (n mod 4) = 0" by simp
  then have "4 * unat (n div 4) = unat n"
    by (simp add: unat_div unat_mod dvd_mult_div_cancel mod_eq_0_iff_dvd)
  moreover from this n have "unat (ucast (n div 4) :: uint) = unat (n div 4)"
    by (intro unat_ucast_down) linarith
  moreover note stosl_stosb [OF byte_in_word [OF refl refl], of dst c "unat (n div 4)" m]
  ultimately show ?thesis
    using True by (simp add: memset_def Let_def)
next
  case False
  assume "unat n < 2 ^ 32"
  with False show ?thesis by (auto simp: memset_def unat_ucast_down)
qed

lemma memset_apply:
  "unat n < 2 ^ 32 \<Longrightarrow> memset dst c n m x = (if in_range x dst (unat n) then ucast c else m x)"
  by (simp add: memset_stosb stosb_apply)

lemma memmove_apply:
  assumes src: "unat src + unat n < 2 ^ 64" and dst: "unat dst + unat n < 2 ^ 64"
  shows "memmove dst src n m x = (if in_range x dst (unat n) then m (src + (x - dst)) else m x)"
proof -
  have n: "(ucast n :: addr_t) = of_nat (unat n)" by simp
  have n64: "unat n < 2 ^ 64" using src by linarith
  show ?thesis
  proof (cases "src < dst \<and> src + of_nat (unat n) > dst")
    case True
    have "unat src < unat dst" using True by (simp add: word_less_nat_alt)
    then have "unat (src - dst) = unat src + 2 ^ 64 - unat dst"
      unfolding unat_sub_if' by simp
    then have "unat n \<le> unat (src - dst)" using dst by linarith
    then show ?thesis
      unfolding memmove_def n if_P [OF True] by (intro copy_down_apply n64) simp
  next
    case False
    have add: "unat (src + of_nat (unat n)) = unat src + unat n"
      using src by (simp add: unat_word_ariths unat_of_nat)
    have "unat (dst - src) = 0 \<or> unat n \<le> unat (dst - src)"
    proof (cases "unat src \<le> unat dst")
      case True
      then have "unat (dst - src) = unat dst - unat src"
        unfolding unat_sub_if' by simp
      moreover have "unat src = unat dst \<or> unat src + unat n \<le> unat dst"
        using False True add by (auto simp: word_less_nat_alt)
      ultimately show ?thesis by linarith
    next
      case False
      then have "unat (dst - src) = unat dst + 2 ^ 64 - unat src"
        unfolding unat_sub_if' by simp
      with src show ?thesis by linarith
    qed
    then show ?thesis
      unfolding memmove_def n if_not_P [OF False] by (intro copy_up_apply n64) simp
  qed
qed

subsection \<open>Disjoint ranges and 64-bit words\<close>

definition disjoint_range :: "addr_t \<Rightarrow> nat \<Rightarrow> addr_t \<Rightarrow> nat \<Rightarrow> bool" where
  "disjoint_range a n b k \<longleftrightarrow> n \<le> unat (b - a) \<and> k \<le> unat (a - b)"

lemma disjoint_range_sym: "disjoint_range a n b k = disjoint_range b k a n"
  by (auto simp: disjoint_range_def)

lemma disjoint_rangeD:
  assumes "disjoint_range a n b k" and "in_range x a n"
  shows "\<not> in_range x b k"
proof -
  let ?p = "x - a" and ?q = "b - a"
  have pq: "unat ?p < unat ?q"
    using assms by (simp add: disjoint_range_def in_range_def)
  have "unat (x - b) = unat (?p - ?q)" by simp
  also have "\<dots> = unat ?p + 2 ^ 64 - unat ?q"
    unfolding unat_sub_if' [of ?p ?q] using pq by simp
  finally have 1: "unat (x - b) = unat ?p + 2 ^ 64 - unat ?q" .
  have "unat (a - b) = unat (0 - ?q)" by simp
  also have "\<dots> = 2 ^ 64 - unat ?q"
    unfolding unat_sub_if' [of 0 ?q] using pq by simp
  finally have 2: "unat (a - b) = 2 ^ 64 - unat ?q" .
  have "unat ?q < 2 ^ 64" using unat_lt [of ?q] by simp
  with 1 2 assms(1) have "k \<le> unat (x - b)"
    unfolding disjoint_range_def by linarith
  then show ?thesis by (simp add: in_range_def)
qed

definition read64 :: "memory \<Rightarrow> addr_t \<Rightarrow> addr_t" where
  "read64 m a = from_le (bytes_at m a 8)"

definition write64 :: "addr_t \<Rightarrow> addr_t \<Rightarrow> memory \<Rightarrow> memory" where
  "write64 a v m = (\<lambda>x. if in_range x a 8 then to_le 8 v ! unat (x - a) else m x)"

lemma length_bytes_at [simp]: "length (bytes_at m a n) = n"
  by (simp add: bytes_at_def)

lemma bytes_at_cong:
  "n \<le> 2 ^ 64 \<Longrightarrow> (\<And>x. in_range x a n \<Longrightarrow> m x = m' x) \<Longrightarrow> bytes_at m a n = bytes_at m' a n"
  by (auto simp: bytes_at_def in_range_offset)

lemma read64_cong: "(\<And>x. in_range x a 8 \<Longrightarrow> m x = m' x) \<Longrightarrow> read64 m a = read64 m' a"
  using bytes_at_cong [of 8 a m m'] by (simp add: read64_def)

lemma read64_write64_same [simp]: "read64 (write64 a v m) a = v"
proof -
  have "bytes_at (write64 a v m) a 8 = to_le 8 v"
    by (rule nth_equalityI) (auto simp: bytes_at_def write64_def in_range_def unat_of_nat)
  then show ?thesis by (simp add: read64_def)
qed

lemma read64_write64_other: "disjoint_range a 8 b 8 \<Longrightarrow> read64 (write64 a v m) b = read64 m b"
  by (rule read64_cong) (use disjoint_rangeD disjoint_range_sym in \<open>auto simp: write64_def\<close>)

lemma write64_other: "\<not> in_range x a 8 \<Longrightarrow> write64 a v m x = m x"
  by (simp add: write64_def)

end
