(* ===== verification/Spinlock.thy ===== *)
theory Spinlock
  imports Interfaces Memory
begin

text \<open>
  Spin locks and interrupt nesting (\<open>spinlock.c\<close>): first the functions as one processor
  executes them, then a step relation in which several processors compete for a lock, one
  atomic instruction at a time.
\<close>

section \<open>State\<close>

text \<open>
  The spin locks of the kernel by name: one per subsystem, one in every pipe (named by
  its page), and the inner locks of the sleep locks of buffers and inodes.
\<close>

datatype lockid = L_kmem | L_ptable | L_bcache | L_icache | L_ftable | L_log | L_ide
  | L_cons | L_input | L_ticks | L_pipe addr_t | L_sleeplock sleeplock_id

text \<open>
  The fields for debugging (the name and the recorded call stack) are left out;
  \<open>lk_cpu\<close> is the processor that holds the lock. \<open>c_IF\<close> is the interrupt flag of
  the processor's flags register, read by \<open>readeflags\<close>, cleared by \<open>cli\<close> and set by
  \<open>sti\<close>.
\<close>

record spinlock =
  lk_locked :: uint
  lk_cpu :: "nat option"

record cpu =
  c_apicid :: uchar
  c_started :: uint
  c_ncli :: int
  c_intena :: bool
  c_IF :: bool

definition idle_cpu :: cpu where
  "idle_cpu = \<lparr>c_apicid = 0, c_started = 1, c_ncli = 0, c_intena = True, c_IF = True\<rparr>"

definition unlocked :: spinlock where
  "unlocked = \<lparr>lk_locked = 0, lk_cpu = None\<rparr>"

record lock_state =
  cpus :: "nat \<Rightarrow> cpu"
  mycpu :: nat
  locks :: "lockid \<Rightarrow> spinlock"

abbreviation this_cpu :: "'z lock_state_scheme \<Rightarrow> cpu" where
  "this_cpu s \<equiv> cpus s (mycpu s)"

definition with_cpu :: "(cpu \<Rightarrow> cpu) \<Rightarrow> 'z lock_state_scheme \<Rightarrow> 'z lock_state_scheme" where
  "with_cpu f s = s\<lparr>cpus := (cpus s)(mycpu s := f (this_cpu s))\<rparr>"

definition with_lock :: "lockid \<Rightarrow> (spinlock \<Rightarrow> spinlock) \<Rightarrow>
    'z lock_state_scheme \<Rightarrow> 'z lock_state_scheme" where
  "with_lock lk f s = s\<lparr>locks := (locks s)(lk := f (locks s lk))\<rparr>"

abbreviation set_cpu :: "(cpu \<Rightarrow> cpu) \<Rightarrow> ('z lock_state_scheme, unit) op" where
  "set_cpu f \<equiv> modify (with_cpu f)"

abbreviation set_lock :: "lockid \<Rightarrow> (spinlock \<Rightarrow> spinlock) \<Rightarrow> ('z lock_state_scheme, unit) op" where
  "set_lock lk f \<equiv> modify (with_lock lk f)"

definition holding :: "lockid \<Rightarrow> 'z lock_state_scheme \<Rightarrow> bool" where
  "holding lk s \<longleftrightarrow> lk_locked (locks s lk) \<noteq> 0 \<and> lk_cpu (locks s lk) = Some (mycpu s)"

lemma with_cpu_simps [simp]:
  "cpus (with_cpu f s) (mycpu s) = f (this_cpu s)" "mycpu (with_cpu f s) = mycpu s"
  "locks (with_cpu f s) = locks s" "with_cpu f (with_cpu g s) = with_cpu (\<lambda>c. f (g c)) s"
  "holding lk (with_cpu f s) = holding lk s"
  by (simp_all add: with_cpu_def holding_def)

lemma with_lock_simps [simp]:
  "locks (with_lock lk f s) lk = f (locks s lk)" "mycpu (with_lock lk f s) = mycpu s"
  "cpus (with_lock lk f s) = cpus s"
  "with_lock lk f (with_lock lk g s) = with_lock lk (\<lambda>l. f (g l)) s"
  "with_cpu h (with_lock lk f s) = with_lock lk f (with_cpu h s)"
  by (simp_all add: with_cpu_def with_lock_def)

section \<open>Operations of one processor\<close>

definition initlock :: "lockid \<Rightarrow> ('z lock_state_scheme, unit) op" where
  "initlock lk = set_lock lk (\<lambda>l. l\<lparr>lk_locked := 0, lk_cpu := None\<rparr>)"

definition pushcli :: "('z lock_state_scheme, unit) op" where
  "pushcli =
     bind (gets (\<lambda>s. c_IF (this_cpu s))) (\<lambda>eflags.
     bind (set_cpu (\<lambda>c. c\<lparr>c_IF := False\<rparr>)) (\<lambda>_.
     bind (gets (\<lambda>s. c_ncli (this_cpu s))) (\<lambda>n.
     bind (if n = 0 then set_cpu (\<lambda>c. c\<lparr>c_intena := eflags\<rparr>) else return ()) (\<lambda>_.
     set_cpu (\<lambda>c. c\<lparr>c_ncli := c_ncli c + 1\<rparr>)))))"

definition popcli :: "('z lock_state_scheme, unit) op" where
  "popcli =
     bind (gets (\<lambda>s. c_IF (this_cpu s))) (\<lambda>eflags.
     bind (panic_if eflags ''popcli - interruptible'') (\<lambda>_.
     bind (set_cpu (\<lambda>c. c\<lparr>c_ncli := c_ncli c - 1\<rparr>)) (\<lambda>_.
     bind (gets (\<lambda>s. this_cpu s)) (\<lambda>c.
     bind (panic_if (c_ncli c < 0) ''popcli'') (\<lambda>_.
     if c_ncli c = 0 \<and> c_intena c then set_cpu (\<lambda>c. c\<lparr>c_IF := True\<rparr>) else return ())))))"

text \<open>
  \<open>xchg\<close> stores 1 and returns the old value. When the lock is taken by another
  processor the loop spins; a processor on its own spins forever.
\<close>

definition acquire :: "lockid \<Rightarrow> ('z lock_state_scheme, unit) op" where
  "acquire lk =
     bind pushcli (\<lambda>_.
     bind (gets (holding lk)) (\<lambda>h.
     bind (panic_if h ''acquire'') (\<lambda>_.
     bind (gets (\<lambda>s. lk_locked (locks s lk))) (\<lambda>old.
     bind (set_lock lk (\<lambda>l. l\<lparr>lk_locked := 1\<rparr>)) (\<lambda>_.
     if old \<noteq> 0 then (\<lambda>s. Diverge)
     else bind (gets mycpu) (\<lambda>c. set_lock lk (\<lambda>l. l\<lparr>lk_cpu := Some c\<rparr>)))))))"

definition release :: "lockid \<Rightarrow> ('z lock_state_scheme, unit) op" where
  "release lk =
     bind (gets (holding lk)) (\<lambda>h.
     bind (panic_if (\<not> h) ''release'') (\<lambda>_.
     bind (set_lock lk (\<lambda>l. l\<lparr>lk_cpu := None\<rparr>)) (\<lambda>_.
     bind (set_lock lk (\<lambda>l. l\<lparr>lk_locked := 0\<rparr>)) (\<lambda>_.
     popcli))))"

subsection \<open>Interrupt nesting\<close>

fun repeat_op :: "nat \<Rightarrow> ('s, unit) op \<Rightarrow> ('s, unit) op" where
  "repeat_op 0 m = return ()"
| "repeat_op (Suc n) m = bind m (\<lambda>_. repeat_op n m)"

definition pushed :: "cpu \<Rightarrow> cpu" where
  "pushed c = c\<lparr>c_ncli := c_ncli c + 1, c_intena := (if c_ncli c = 0 then c_IF c else c_intena c),
     c_IF := False\<rparr>"

definition popped :: "cpu \<Rightarrow> cpu" where
  "popped c = c\<lparr>c_ncli := c_ncli c - 1, c_IF := (c_ncli c = 1 \<and> c_intena c)\<rparr>"

lemma pushcli_run: "pushcli s = Ok () (with_cpu pushed s)"
  by (cases "this_cpu s") (simp add: pushcli_def bind_def with_cpu_def pushed_def)

lemma popcli_run:
  "\<not> c_IF (this_cpu s) \<Longrightarrow> 0 < c_ncli (this_cpu s) \<Longrightarrow> popcli s = Ok () (with_cpu popped s)"
  by (cases "this_cpu s") (auto simp: popcli_def bind_def with_cpu_def popped_def)

lemma pushcli_n: "repeat_op n pushcli s = Ok () (with_cpu (pushed ^^ n) s)"
  by (induction n arbitrary: s) (simp_all add: pushcli_run funpow_swap1 with_cpu_def)

lemma pushed_n:
  "0 < n \<Longrightarrow> 0 \<le> c_ncli c \<Longrightarrow>
   (pushed ^^ n) c = c\<lparr>c_ncli := c_ncli c + int n,
     c_intena := (if c_ncli c = 0 then c_IF c else c_intena c), c_IF := False\<rparr>"
proof (induction n)
  case 0
  then show ?case by simp
next
  case (Suc n)
  show ?case
  proof (cases "n = 0")
    case True
    then show ?thesis by (cases c) (simp add: pushed_def)
  next
    case False
    then have "(pushed ^^ Suc n) c = pushed (c\<lparr>c_ncli := c_ncli c + int n,
        c_intena := (if c_ncli c = 0 then c_IF c else c_intena c), c_IF := False\<rparr>)"
      using Suc by simp
    also have "\<dots> = c\<lparr>c_ncli := c_ncli c + int (Suc n),
        c_intena := (if c_ncli c = 0 then c_IF c else c_intena c), c_IF := False\<rparr>"
      using False \<open>0 \<le> c_ncli c\<close> by (cases c) (simp add: pushed_def)
    finally show ?thesis .
  qed
qed

lemma popcli_n:
  "int n \<le> c_ncli (this_cpu s) \<Longrightarrow> \<not> c_IF (this_cpu s) \<Longrightarrow>
   repeat_op n popcli s = Ok () (with_cpu (popped ^^ n) s)"
proof (induction n arbitrary: s)
  case 0
  then show ?case by (simp add: with_cpu_def)
next
  case (Suc n)
  have "repeat_op n popcli (with_cpu popped s) = Ok () (with_cpu (popped ^^ n) (with_cpu popped s))"
  proof (cases "n = 0")
    case True
    then show ?thesis by (simp add: with_cpu_def)
  next
    case False
    then show ?thesis using Suc.prems by (intro Suc.IH) (auto simp: popped_def)
  qed
  with Suc.prems show ?case by (simp add: popcli_run funpow_swap1)
qed

lemma popped_n:
  "0 < n \<Longrightarrow> (popped ^^ n) c = c\<lparr>c_ncli := c_ncli c - int n, c_IF := (c_ncli c = int n \<and> c_intena c)\<rparr>"
proof (induction n)
  case 0
  then show ?case by simp
next
  case (Suc n)
  show ?case
  proof (cases "n = 0")
    case True
    then show ?thesis by (simp add: popped_def)
  next
    case False
    then have "(popped ^^ Suc n) c =
        popped (c\<lparr>c_ncli := c_ncli c - int n, c_IF := (c_ncli c = int n \<and> c_intena c)\<rparr>)"
      using Suc by simp
    also have "\<dots> = c\<lparr>c_ncli := c_ncli c - int (Suc n), c_IF := (c_ncli c = int (Suc n) \<and> c_intena c)\<rparr>"
      by (cases c) (auto simp: popped_def)
    finally show ?thesis .
  qed
qed

subsection \<open>Recording the call stack\<close>

text \<open>
  \<open>getstackpcs_loop i rbp m\<close> is the first loop of \<open>getstackpcs\<close> from index \<open>10 - i\<close> on;
  a frame pointer that does not point into the kernel ends the chain and the rest of the
  array is cleared.
\<close>

fun getstackpcs_loop :: "nat \<Rightarrow> addr_t \<Rightarrow> memory \<Rightarrow> addr_t list" where
  "getstackpcs_loop 0 rbp m = []"
| "getstackpcs_loop (Suc i) rbp m =
     (if rbp = 0 \<or> rbp < KERNBASE \<or> rbp = 0xffffffff then replicate (Suc i) 0
      else read64 m (rbp + 8) # getstackpcs_loop i (read64 m rbp) m)"

definition getstackpcs :: "addr_t \<Rightarrow> memory \<Rightarrow> addr_t list" where
  "getstackpcs rbp m = getstackpcs_loop 10 rbp m"

lemma getstackpcs_length: "length (getstackpcs rbp m) = 10"
proof -
  have "length (getstackpcs_loop n rbp m) = n" for n
    by (induction n arbitrary: rbp) auto
  then show ?thesis by (simp add: getstackpcs_def)
qed

subsection \<open>Acquiring and releasing\<close>

lemma acquire_run:
  "lk_locked (locks s lk) = 0 \<Longrightarrow>
   acquire lk s = Ok () (with_lock lk (\<lambda>l. l\<lparr>lk_locked := 1, lk_cpu := Some (mycpu s)\<rparr>) (with_cpu pushed s))"
  by (simp add: acquire_def bind_def pushcli_run holding_def)

lemma acquire_held_panics: "holding lk s \<Longrightarrow> acquire lk s = Panic ''acquire''"
  by (simp add: acquire_def bind_def pushcli_run)

lemma release_not_held_panics: "\<not> holding lk s \<Longrightarrow> release lk s = Panic ''release''"
  by (simp add: release_def bind_def)

lemma release_run:
  assumes "holding lk s" and "\<not> c_IF (this_cpu s)" and "0 < c_ncli (this_cpu s)"
  shows "release lk s = Ok () (with_lock lk (\<lambda>l. l\<lparr>lk_cpu := None, lk_locked := 0\<rparr>) (with_cpu popped s))"
  using assms by (simp add: release_def bind_def popcli_run)

subsection \<open>Critical sections\<close>

text \<open>
  The state inside a critical section is the state before it with the lock taken and
  the interrupts pushed, written \<open>acquired lk s\<close>. A settled processor has a consistent
  interrupt state (the flag is off inside a nest, and outside of one the remembered flag
  is the flag); in a quiet state all locks are free as well. From a settled state
  \<open>release\<close> undoes \<open>acquire\<close>, so a critical section has the effect of its body, and the
  update rules of the state fields given with each component move the body's updates
  under \<open>acquired\<close>.
\<close>

definition acquired :: "lockid \<Rightarrow> 'z lock_state_scheme \<Rightarrow> 'z lock_state_scheme" where
  "acquired lk s = s\<lparr>cpus := (cpus s)(mycpu s := pushed (this_cpu s)),
     locks := (locks s)(lk := \<lparr>lk_locked = 1, lk_cpu = Some (mycpu s)\<rparr>)\<rparr>"

definition settled :: "'z lock_state_scheme \<Rightarrow> bool" where
  "settled s \<longleftrightarrow> (let c = this_cpu s in 0 \<le> c_ncli c \<and> (0 < c_ncli c \<longrightarrow> \<not> c_IF c)
     \<and> (c_ncli c = 0 \<longrightarrow> c_intena c = c_IF c))"

definition lock_free :: "lockid \<Rightarrow> 'z lock_state_scheme \<Rightarrow> bool" where
  "lock_free lk s \<longleftrightarrow> locks s lk = \<lparr>lk_locked = 0, lk_cpu = None\<rparr>"

definition quiet :: "'z lock_state_scheme \<Rightarrow> bool" where
  "quiet s \<longleftrightarrow> settled s \<and> (\<forall>lk. lock_free lk s)"

lemma quietD [simp]: "quiet s \<Longrightarrow> settled s" "quiet s \<Longrightarrow> lock_free lk s"
  by (simp_all add: quiet_def)

lemma acquired_simps [simp]:
  "mycpu (acquired lk s) = mycpu s"
  "settled s \<Longrightarrow> settled (acquired lk s)"
  "lk' \<noteq> lk \<Longrightarrow> lock_free lk' (acquired lk s) = lock_free lk' s"
  "holding lk (acquired lk s)"
  by (auto simp: acquired_def settled_def lock_free_def holding_def pushed_def Let_def)

lemma acquire_free [simp]: "lock_free lk s \<Longrightarrow> acquire lk s = Ok () (acquired lk s)"
  by (simp add: acquire_run lock_free_def acquired_def with_lock_def with_cpu_def)

lemma popped_pushed:
  "0 \<le> c_ncli c \<Longrightarrow> (0 < c_ncli c \<Longrightarrow> \<not> c_IF c) \<Longrightarrow> (c_ncli c = 0 \<Longrightarrow> c_intena c = c_IF c) \<Longrightarrow>
   popped (pushed c) = c"
  by (cases c) (auto simp: popped_def pushed_def)

lemma release_acquired [simp]:
  assumes "settled s" and "lock_free lk s"
  shows "release lk (acquired lk s) = Ok () s"
proof -
  let ?a = "acquired lk s"
  have c: "cpus ?a (mycpu s) = pushed (this_cpu s)" by (simp add: acquired_def)
  have "release lk ?a = Ok () (with_lock lk (\<lambda>l. l\<lparr>lk_cpu := None, lk_locked := 0\<rparr>) (with_cpu popped ?a))"
    using assms(1) by (intro release_run) (auto simp: c pushed_def settled_def Let_def)
  also have "with_cpu popped ?a = ?a\<lparr>cpus := cpus s\<rparr>"
    using assms(1) popped_pushed [of "this_cpu s"]
    by (auto simp: with_cpu_def acquired_def settled_def Let_def)
  also have "with_lock lk (\<lambda>l. l\<lparr>lk_cpu := None, lk_locked := 0\<rparr>) (?a\<lparr>cpus := cpus s\<rparr>) = s"
    using assms(2) by (simp add: with_lock_def acquired_def lock_free_def fun_upd_idem)
  finally show ?thesis .
qed

lemma wp_acquire [simp]: "lock_free lk s \<Longrightarrow> wp (acquire lk) Q s = Q () (acquired lk s)"
  by (simp add: wp_def)

lemma wp_release [simp]:
  "settled s \<Longrightarrow> lock_free lk s \<Longrightarrow> wp (release lk) Q (acquired lk s) = Q () s"
  by (simp add: wp_def)



section \<open>Several processors\<close>

text \<open>
  Every processor runs the code of \<open>acquire\<close> and \<open>release\<close> on one lock over and over;
  \<open>lpc\<close> is its program counter. \<open>At_out\<close> is before \<open>pushcli\<close>, \<open>At_check\<close> the test for
  a lock already held, \<open>At_spin\<close> the exchange, \<open>At_got\<close> the store of the owner,
  \<open>At_held\<close> the critical section up to the test in \<open>release\<close>, \<open>At_rel\<close> the clearing of
  the owner, \<open>At_unlock\<close> the store that frees the lock, \<open>At_pop\<close> the final \<open>popcli\<close>.
  One step is one atomic access to the lock, so the steps of different processors
  interleave freely.
\<close>

datatype lock_pc = At_out | At_check | At_spin | At_got | At_held | At_rel | At_unlock | At_pop
  | At_panic

record smp_state = lock_state +
  lpc :: "nat \<Rightarrow> lock_pc"

definition goto :: "nat \<Rightarrow> lock_pc \<Rightarrow> smp_state \<Rightarrow> smp_state" where
  "goto c p s = s\<lparr>lpc := (lpc s)(c := p)\<rparr>"

definition run_to :: "nat \<Rightarrow> (smp_state, unit) op \<Rightarrow> lock_pc \<Rightarrow> smp_state \<Rightarrow> smp_state" where
  "run_to c m p s = (case m s of Ok _ t \<Rightarrow> goto c p t | _ \<Rightarrow> goto c At_panic s)"

definition lock_step :: "lockid \<Rightarrow> nat \<Rightarrow> smp_state \<Rightarrow> smp_state" where
  "lock_step lk c s0 = (let s = s0\<lparr>mycpu := c\<rparr> in
     case lpc s c of
       At_out \<Rightarrow> run_to c pushcli At_check s
     | At_check \<Rightarrow> goto c (if holding lk s then At_panic else At_spin) s
     | At_spin \<Rightarrow> goto c (if lk_locked (locks s lk) \<noteq> 0 then At_spin else At_got)
                     (with_lock lk (\<lambda>l. l\<lparr>lk_locked := 1\<rparr>) s)
     | At_got \<Rightarrow> goto c At_held (with_lock lk (\<lambda>l. l\<lparr>lk_cpu := Some c\<rparr>) s)
     | At_held \<Rightarrow> goto c (if holding lk s then At_rel else At_panic) s
     | At_rel \<Rightarrow> goto c At_unlock (with_lock lk (\<lambda>l. l\<lparr>lk_cpu := None\<rparr>) s)
     | At_unlock \<Rightarrow> goto c At_pop (with_lock lk (\<lambda>l. l\<lparr>lk_locked := 0\<rparr>) s)
     | At_pop \<Rightarrow> run_to c popcli At_out s
     | At_panic \<Rightarrow> s)"

inductive smp_step :: "lockid \<Rightarrow> smp_state \<Rightarrow> smp_state \<Rightarrow> bool" for lk where
  smp_step: "smp_step lk s (lock_step lk c s)"

definition smp_init :: "lockid \<Rightarrow> smp_state \<Rightarrow> bool" where
  "smp_init lk s \<longleftrightarrow> locks s lk = \<lparr>lk_locked = 0, lk_cpu = None\<rparr> \<and> (\<forall>c. lpc s c = At_out)
     \<and> (\<forall>c. c_ncli (cpus s c) = 0)"

fun owns :: "lock_pc \<Rightarrow> bool" where
  "owns At_got = True"
| "owns At_held = True"
| "owns At_rel = True"
| "owns At_unlock = True"
| "owns _ = False"

definition cpu_ok :: "lock_pc \<Rightarrow> cpu \<Rightarrow> bool" where
  "cpu_ok p c \<longleftrightarrow> p \<noteq> At_panic \<and> 0 \<le> c_ncli c \<and> (p \<noteq> At_out \<longrightarrow> 0 < c_ncli c \<and> \<not> c_IF c)"

definition owned :: "lockid \<Rightarrow> nat option \<Rightarrow> smp_state \<Rightarrow> bool" where
  "owned lk ow s \<longleftrightarrow> (\<forall>c. cpu_ok (lpc s c) (cpus s c))
     \<and> (\<forall>c. owns (lpc s c) \<longleftrightarrow> ow = Some c)
     \<and> (lk_locked (locks s lk) = 0 \<longleftrightarrow> ow = None)
     \<and> (\<forall>c. lk_cpu (locks s lk) = Some c \<longleftrightarrow> lpc s c = At_held \<or> lpc s c = At_rel)"

definition smp_inv :: "lockid \<Rightarrow> smp_state \<Rightarrow> bool" where
  "smp_inv lk s \<longleftrightarrow> (\<exists>ow. owned lk ow s)"

definition next_owner :: "nat \<Rightarrow> lock_pc \<Rightarrow> nat option \<Rightarrow> nat option" where
  "next_owner c p ow = (case p of At_spin \<Rightarrow> if ow = None then Some c else ow
     | At_unlock \<Rightarrow> None | _ \<Rightarrow> ow)"

lemma smp_simps [simp]:
  "lpc (with_cpu f s) = lpc s" "lpc (with_lock lk g s) = lpc s"
  "lpc (goto c p s) = (lpc s)(c := p)" "cpus (goto c p s) = cpus s" "locks (goto c p s) = locks s"
  "cpus (with_cpu f s) = (cpus s)(mycpu s := f (this_cpu s))"
  by (simp_all add: with_cpu_def with_lock_def goto_def)

lemma smp_init_inv: "smp_init lk s \<Longrightarrow> smp_inv lk s"
  by (auto simp: smp_init_def smp_inv_def owned_def cpu_ok_def intro!: exI [of _ None])

lemma lock_step_owned:
  assumes inv: "owned lk ow s"
  shows "owned lk (next_owner c (lpc s c) ow) (lock_step lk c s)"
proof -
  have ok: "cpu_ok (lpc s c) (cpus s c)" using inv by (simp add: owned_def)
  have own: "owns (lpc s c) \<longleftrightarrow> ow = Some c" using inv by (simp add: owned_def)
  note defs = lock_step_def next_owner_def owned_def cpu_ok_def holding_def run_to_def
  show ?thesis
  proof (cases "lpc s c")
    case At_out
    with inv ok own show ?thesis by (auto simp: defs pushcli_run pushed_def)
  next
    case At_pop
    with ok have "\<not> c_IF (cpus s c)" "0 < c_ncli (cpus s c)" by (simp_all add: cpu_ok_def)
    with inv own At_pop show ?thesis by (auto simp: defs popcli_run popped_def)
  next
    case At_panic
    with ok show ?thesis by (simp add: cpu_ok_def)
  qed (use inv own in \<open>auto simp: defs\<close>)
qed

interpretation smp: invariant_system "smp_init lk" "smp_step lk" "smp_inv lk" for lk
proof
  show "smp_inv lk t" if "smp_inv lk s" "smp_step lk s t" for s t
    using that by (auto simp: smp_inv_def intro: lock_step_owned elim!: smp_step.cases)
qed (rule smp_init_inv)

subsection \<open>Progress\<close>

lemma lock_step_pc:
  assumes "owned lk ow s"
  shows "lpc (lock_step lk c s) c = (case lpc s c of At_out \<Rightarrow> At_check | At_check \<Rightarrow> At_spin
    | At_spin \<Rightarrow> if ow = None then At_got else At_spin | At_got \<Rightarrow> At_held | At_held \<Rightarrow> At_rel
    | At_rel \<Rightarrow> At_unlock | At_unlock \<Rightarrow> At_pop | At_pop \<Rightarrow> At_out | At_panic \<Rightarrow> At_panic)"
proof (cases "lpc s c")
  case At_pop
  with assms have "\<not> c_IF (cpus s c)" "0 < c_ncli (cpus s c)"
    by (auto simp: owned_def cpu_ok_def)
  with At_pop show ?thesis by (simp add: lock_step_def run_to_def popcli_run)
next
  case At_held
  have "owns (lpc s c) \<longleftrightarrow> ow = Some c" using assms by (simp add: owned_def)
  with At_held have "ow = Some c" by simp
  with assms At_held have "lk_locked (locks s lk) \<noteq> 0" "lk_cpu (locks s lk) = Some c"
    by (auto simp: owned_def)
  with At_held show ?thesis by (simp add: lock_step_def holding_def)
qed (use assms in \<open>auto simp: lock_step_def run_to_def pushcli_run holding_def owned_def\<close>)

text \<open>The number of steps a processor that is not held up needs to enter the critical section.\<close>

fun dist_held :: "lock_pc \<Rightarrow> nat" where
  "dist_held At_held = 0"
| "dist_held At_got = 1"
| "dist_held At_spin = 2"
| "dist_held At_check = 3"
| "dist_held At_out = 4"
| "dist_held At_pop = 5"
| "dist_held At_unlock = 6"
| "dist_held At_rel = 7"
| "dist_held At_panic = 8"

lemma smp_enter:
  "owned lk ow s \<Longrightarrow> ow = None \<or> ow = Some c \<Longrightarrow> \<exists>t. (smp_step lk)\<^sup>*\<^sup>* s t \<and> lpc t c = At_held"
proof (induction "dist_held (lpc s c)" arbitrary: ow s rule: less_induct)
  case less
  show ?case
  proof (cases "lpc s c = At_held")
    case False
    let ?t = "lock_step lk c s"
    have own: "owns (lpc s c) \<longleftrightarrow> ow = Some c" and np: "lpc s c \<noteq> At_panic"
      using less.prems by (auto simp: owned_def cpu_ok_def)
    have "owned lk (next_owner c (lpc s c) ow) ?t"
      using less.prems(1) by (rule lock_step_owned)
    moreover have "next_owner c (lpc s c) ow = None \<or> next_owner c (lpc s c) ow = Some c"
      using less.prems(2) by (auto simp: next_owner_def split: lock_pc.split)
    moreover have "dist_held (lpc ?t c) < dist_held (lpc s c)"
      using False own np less.prems(2) by (cases "lpc s c") (auto simp: lock_step_pc [OF less.prems(1)])
    ultimately obtain t where "(smp_step lk)\<^sup>*\<^sup>* ?t t" "lpc t c = At_held"
      using less.hyps by blast
    moreover have "smp_step lk s ?t" by (rule smp_step)
    ultimately show ?thesis by (meson converse_rtranclp_into_rtranclp)
  qed auto
qed

fun dist_free :: "lock_pc \<Rightarrow> nat" where
  "dist_free At_unlock = 1"
| "dist_free At_rel = 2"
| "dist_free At_held = 3"
| "dist_free At_got = 4"
| "dist_free _ = 0"

lemma smp_free: "owned lk (Some d) s \<Longrightarrow> \<exists>t. (smp_step lk)\<^sup>*\<^sup>* s t \<and> owned lk None t"
proof (induction "dist_free (lpc s d)" arbitrary: s rule: less_induct)
  case less
  let ?t = "lock_step lk d s"
  have own: "owns (lpc s d)" using less.prems by (auto simp: owned_def)
  have o: "owned lk (next_owner d (lpc s d) (Some d)) ?t"
    using less.prems by (rule lock_step_owned)
  have st: "smp_step lk s ?t" by (rule smp_step)
  show ?case
  proof (cases "lpc s d = At_unlock")
    case True
    with o st show ?thesis by (auto simp: next_owner_def)
  next
    case False
    with own o have "owned lk (Some d) ?t"
      by (cases "lpc s d") (simp_all add: next_owner_def)
    moreover have "dist_free (lpc ?t d) < dist_free (lpc s d)"
      using False own by (cases "lpc s d") (simp_all add: lock_step_pc [OF less.prems])
    ultimately obtain t where "(smp_step lk)\<^sup>*\<^sup>* ?t t" "owned lk None t"
      using less.hyps by blast
    with st show ?thesis by (meson converse_rtranclp_into_rtranclp)
  qed
qed

text \<open>
  C3: Mutual exclusion of spin locks. However the steps of any number of processors
  interleave, at most one of them is between the winning exchange in \<open>acquire\<close> and the
  store in \<open>release\<close> that frees the lock, it runs with interrupts off, and neither
  function ever panics.
\<close>

theorem spinlock_mutual_exclusion:
  "reach (smp_init lk) (smp_step lk) s \<Longrightarrow>
     (\<forall>a b. owns (lpc s a) \<and> owns (lpc s b) \<longrightarrow> a = b)
   \<and> (\<forall>a. owns (lpc s a) \<longrightarrow> \<not> c_IF (cpus s a))
   \<and> (\<forall>a. lpc s a \<noteq> At_panic)"
proof -
  assume "reach (smp_init lk) (smp_step lk) s"
  then obtain ow where ow: "owned lk ow s"
    using smp.reachable_inv smp_inv_def by blast
  then have cpu: "\<forall>a. cpu_ok (lpc s a) (cpus s a)" by (simp add: owned_def)
  then have "\<not> c_IF (cpus s a)" if "owns (lpc s a)" for a
    using that by (cases "lpc s a") (auto simp: cpu_ok_def)
  moreover have "lpc s a \<noteq> At_panic" for a
    using cpu by (simp add: cpu_ok_def)
  moreover have "a = b" if "owns (lpc s a)" "owns (lpc s b)" for a b
    using ow that by (simp add: owned_def)
  ultimately show ?thesis by blast
qed

definition smp_idle :: smp_state where
  "smp_idle = \<lparr>cpus = (\<lambda>_. idle_cpu),
    mycpu = 0, locks = (\<lambda>_. unlocked), lpc = (\<lambda>_. At_out)\<rparr>"

lemma smp_idle_reach: "reach (smp_init lk) (smp_step lk) smp_idle"
  by (rule reach_init) (simp add: smp_init_def smp_idle_def idle_cpu_def unlocked_def)

text \<open>Processor 0 takes the lock, processor 1 finds it taken and spins.\<close>

definition smp_contended :: smp_state where
  "smp_contended = fold (lock_step L_kmem) [0, 0, 0, 0, 1, 1, 1] smp_idle"

lemma smp_contended_reach: "reach (smp_init L_kmem) (smp_step L_kmem) smp_contended"
proof -
  have "reach (smp_init L_kmem) (smp_step L_kmem) (fold (lock_step L_kmem) cs s)"
    if "reach (smp_init L_kmem) (smp_step L_kmem) s" for cs s
    using that by (induction cs arbitrary: s) (auto intro: reach_step smp_step)
  then show ?thesis unfolding smp_contended_def using smp_idle_reach by blast
qed

lemma smp_contended_pcs: "lpc smp_contended 0 = At_held" "lpc smp_contended 1 = At_spin"
  by code_simp+

theorem spinlock_mutual_exclusion_witness:
  "lpc smp_contended 0 = At_held \<and> lpc smp_contended 1 = At_spin \<and> \<not> c_IF (cpus smp_contended 0)
   \<and> lpc smp_contended 2 \<noteq> At_panic \<and> {a. owns (lpc smp_contended a)} = {0}"
proof -
  have "owns (lpc smp_contended 0)" by (simp add: smp_contended_pcs)
  then show ?thesis
    using spinlock_mutual_exclusion [OF smp_contended_reach] smp_contended_pcs by blast
qed

text \<open>
  C10: No deadlock on a spin lock. In every reachable state each processor can still
  reach the critical section: the holder, if there is one, can always get to the store
  that frees the lock.
\<close>

theorem spinlock_progress:
  "reach (smp_init lk) (smp_step lk) s \<Longrightarrow> \<exists>t. (smp_step lk)\<^sup>*\<^sup>* s t \<and> lpc t c = At_held"
proof -
  assume "reach (smp_init lk) (smp_step lk) s"
  then obtain ow where ow: "owned lk ow s"
    using smp.reachable_inv smp_inv_def by blast
  obtain t where t: "(smp_step lk)\<^sup>*\<^sup>* s t" "owned lk None t"
    using ow smp_free by (cases ow) blast+
  then obtain u where "(smp_step lk)\<^sup>*\<^sup>* t u" "lpc u c = At_held"
    using smp_enter by blast
  with t(1) show ?thesis by (meson rtranclp_trans)
qed

theorem spinlock_progress_witness:
  "\<exists>t. (smp_step L_ptable)\<^sup>*\<^sup>* smp_idle t \<and> lpc t 1 = At_held"
  using spinlock_progress [OF smp_idle_reach] .

end
