(* ===== verification/Kalloc.thy ===== *)
theory Kalloc
  imports Spinlock
begin

text \<open>
  The physical page allocator of \<open>kalloc.c\<close>: a free list threaded through the free
  pages themselves.
\<close>

section \<open>State and operations\<close>

text \<open>
  \<open>kend\<close> is the linker's symbol \<open>end\<close>, the first address after the kernel image;
  \<open>use_lock\<close> says whether the lock of \<open>kmem\<close> is taken, which it is once more than one
  processor runs.
\<close>

record kmem_state = lock_state +
  mem :: memory
  kend :: addr_t
  use_lock :: bool
  freelist :: addr_t

definition kmem_acquire :: "('z kmem_state_scheme, unit) op" where
  "kmem_acquire = bind (gets use_lock) (\<lambda>u. if u then acquire L_kmem else return ())"

definition kmem_release :: "('z kmem_state_scheme, unit) op" where
  "kmem_release = bind (gets use_lock) (\<lambda>u. if u then release L_kmem else return ())"

definition kfree :: "addr_t \<Rightarrow> ('z kmem_state_scheme, unit) op" where
  "kfree v =
     bind (gets kend) (\<lambda>e.
     bind (panic_if (v mod PGSIZE \<noteq> 0 \<or> v < e \<or> V2P v \<ge> PHYSTOP) ''kfree'') (\<lambda>_.
     bind (modify (\<lambda>s. s\<lparr>mem := memset v 1 PGSIZE (mem s)\<rparr>)) (\<lambda>_.
     bind kmem_acquire (\<lambda>_.
     bind (modify (\<lambda>s. s\<lparr>mem := write64 v (freelist s) (mem s)\<rparr>)) (\<lambda>_.
     bind (modify (\<lambda>s. s\<lparr>freelist := v\<rparr>)) (\<lambda>_.
     kmem_release))))))"

definition kalloc :: "('z kmem_state_scheme, addr_t) op" where
  "kalloc =
     bind kmem_acquire (\<lambda>_.
     bind (gets freelist) (\<lambda>r.
     bind (if r \<noteq> 0 then modify (\<lambda>s. s\<lparr>freelist := read64 (mem s) r\<rparr>)
           else panic ''Out of memory!'') (\<lambda>_.
     bind kmem_release (\<lambda>_.
     return r))))"

text \<open>
  The loop of \<open>freerange\<close> moves \<open>p\<close> up by a page as long as a whole page fits below
  \<open>vend\<close>; the number of pages between them bounds its iterations.
\<close>

fun freerange_loop :: "nat \<Rightarrow> addr_t \<Rightarrow> addr_t \<Rightarrow> ('z kmem_state_scheme, unit) op" where
  "freerange_loop 0 p vend = (\<lambda>s. Diverge)"
| "freerange_loop (Suc fuel) p vend =
     (if p + PGSIZE \<le> vend
      then bind (kfree p) (\<lambda>_. freerange_loop fuel (p + PGSIZE) vend)
      else return ())"

definition freerange :: "addr_t \<Rightarrow> addr_t \<Rightarrow> ('z kmem_state_scheme, unit) op" where
  "freerange vstart vend =
     (let p = PGROUNDUP vstart
      in freerange_loop (Suc (unat (vend - p) div 4096)) p vend)"

definition kinit1 :: "addr_t \<Rightarrow> addr_t \<Rightarrow> ('z kmem_state_scheme, unit) op" where
  "kinit1 vstart vend =
     bind (initlock L_kmem) (\<lambda>_.
     bind (modify (\<lambda>s. s\<lparr>use_lock := False, freelist := 0\<rparr>)) (\<lambda>_. freerange vstart vend))"

definition kinit2 :: "('z kmem_state_scheme, unit) op" where
  "kinit2 = modify (\<lambda>s. s\<lparr>use_lock := True\<rparr>)"

lemma kmem_frame [simp]:
  "(acquired lk s)\<lparr>mem := m\<rparr> = acquired lk (s\<lparr>mem := m\<rparr>)"
  "(acquired lk s)\<lparr>freelist := p\<rparr> = acquired lk (s\<lparr>freelist := p\<rparr>)"
  "mem (acquired lk s) = mem s" "freelist (acquired lk s) = freelist s"
  "use_lock (acquired lk s) = use_lock s" "kend (acquired lk s) = kend s"
  "settled (s\<lparr>mem := m\<rparr>) = settled s" "lock_free lk (s\<lparr>mem := m\<rparr>) = lock_free lk s"
  "settled (s\<lparr>freelist := p\<rparr>) = settled s" "lock_free lk (s\<lparr>freelist := p\<rparr>) = lock_free lk s"
  "settled (s\<lparr>use_lock := u\<rparr>) = settled s" "lock_free lk (s\<lparr>use_lock := u\<rparr>) = lock_free lk s"
  by (simp_all add: acquired_def settled_def lock_free_def)

section \<open>Pages\<close>

definition page_aligned :: "addr_t \<Rightarrow> bool" where
  "page_aligned a \<longleftrightarrow> a mod PGSIZE = 0"

definition valid_page :: "'z kmem_state_scheme \<Rightarrow> addr_t \<Rightarrow> bool" where
  "valid_page s v \<longleftrightarrow> page_aligned v \<and> kend s \<le> v \<and> V2P v < PHYSTOP"

lemma unat_mod_page: "unat (a mod PGSIZE) = unat a mod 4096"
  by (simp add: PGSIZE_def unat_mod)

lemma page_aligned_dvd: "page_aligned a \<longleftrightarrow> 4096 dvd unat a"
  unfolding page_aligned_def by (metis unat_mod_page dvd_eq_mod_eq_0 unat_eq_zero)

lemma pages_apart:
  assumes "page_aligned a" and "page_aligned b" and "a \<noteq> b"
  shows "4096 \<le> unat (b - a)"
proof -
  have dvd: "4096 dvd unat a" "4096 dvd unat b"
    using assms(1,2) by (simp_all add: page_aligned_dvd)
  have "4096 dvd unat (b - a)"
  proof (cases "unat a \<le> unat b")
    case True
    then show ?thesis unfolding unat_sub_if' using dvd by (simp add: dvd_diff_nat)
  next
    case False
    have "4096 dvd (unat b + 2 ^ 64)" using dvd(2) by (simp add: dvd_add)
    with False dvd(1) show ?thesis
      unfolding unat_sub_if' by (simp add: dvd_diff_nat)
  qed
  moreover have "unat (b - a) \<noteq> 0" using assms(3) by (simp add: unat_eq_zero)
  ultimately show ?thesis by (simp add: dvd_imp_le)
qed

lemma and_not_page: "a AND NOT (PGSIZE - 1) = push_bit 12 (drop_bit 12 a)"
proof -
  have m: "PGSIZE - 1 = mask 12" by (simp add: PGSIZE_def mask_eq_exp_minus_1)
  show ?thesis unfolding m by (rule bit_word_eqI) (auto simp: bit_simps)
qed

lemma unat_and_not_page: "unat (a AND NOT (PGSIZE - 1)) = unat a div 4096 * 4096"
proof -
  have "unat a div 4096 * 4096 < 2 ^ 64"
    using unat_lt [of a] div_times_less_eq_dividend [of "unat a" 4096] by simp
  then show ?thesis
    unfolding and_not_page
    by (simp add: push_bit_eq_mult drop_bit_eq_div unat_word_ariths unat_div)
qed

lemma unat_PGROUNDDOWN: "unat (PGROUNDDOWN a) = unat a div 4096 * 4096"
  by (simp add: PGROUNDDOWN_def unat_and_not_page)

lemma unat_PGROUNDUP:
  assumes "unat a + 4095 < 2 ^ 64"
  shows "unat (PGROUNDUP a) = (unat a + 4095) div 4096 * 4096"
proof -
  have "unat (a + (PGSIZE - 1)) = unat a + 4095"
    using assms by (simp add: PGSIZE_def unat_word_ariths)
  then show ?thesis by (simp add: PGROUNDUP_def unat_and_not_page)
qed

lemma pages_disjoint:
  "page_aligned a \<Longrightarrow> page_aligned b \<Longrightarrow> a \<noteq> b \<Longrightarrow> disjoint_range a 4096 b 4096"
  using pages_apart by (auto simp: disjoint_range_def)

lemma in_range_mono: "in_range x a n \<Longrightarrow> n \<le> k \<Longrightarrow> in_range x a k"
  by (simp add: in_range_def)

section \<open>The free list\<close>

fun flist :: "memory \<Rightarrow> addr_t \<Rightarrow> addr_t list \<Rightarrow> bool" where
  "flist m p [] \<longleftrightarrow> p = 0"
| "flist m p (x # xs) \<longleftrightarrow> p = x \<and> x \<noteq> 0 \<and> flist m (read64 m x) xs"

text \<open>When the lock is in use it is free between calls.\<close>

definition kmem_quiet :: "'z kmem_state_scheme \<Rightarrow> bool" where
  "kmem_quiet s \<longleftrightarrow> (use_lock s \<longrightarrow> settled s \<and> lock_free L_kmem s)"

lemma kmem_quiet_frame [simp]:
  "kmem_quiet (s\<lparr>mem := m\<rparr>) = kmem_quiet s" "kmem_quiet (s\<lparr>freelist := p\<rparr>) = kmem_quiet s"
  "kmem_quiet (s\<lparr>use_lock := False\<rparr>)"
  by (simp_all add: kmem_quiet_def)

definition kmem_list :: "'z kmem_state_scheme \<Rightarrow> addr_t list \<Rightarrow> bool" where
  "kmem_list s xs \<longleftrightarrow> flist (mem s) (freelist s) xs \<and> distinct xs \<and> (\<forall>x\<in>set xs. valid_page s x)
     \<and> kmem_quiet s"

definition kmem_inv :: "'z kmem_state_scheme \<Rightarrow> bool" where
  "kmem_inv s \<longleftrightarrow> (\<exists>xs. kmem_list s xs)"

definition free_pages :: "'z kmem_state_scheme \<Rightarrow> addr_t set" where
  "free_pages s = {x. \<exists>xs. kmem_list s xs \<and> x \<in> set xs}"

lemma flist_unique: "flist m p xs \<Longrightarrow> flist m p ys \<Longrightarrow> xs = ys"
proof (induction xs arbitrary: p ys)
  case Nil
  then show ?case by (cases ys) auto
next
  case (Cons x xs)
  then show ?case by (cases ys) auto
qed

lemma flist_frame:
  "(\<And>x y. x \<in> set xs \<Longrightarrow> in_range y x 8 \<Longrightarrow> m y = m' y) \<Longrightarrow> flist m p xs \<longleftrightarrow> flist m' p xs"
proof (induction xs arbitrary: p)
  case Nil
  then show ?case by simp
next
  case (Cons x xs)
  have "read64 m x = read64 m' x"
    using Cons.prems by (intro read64_cong) auto
  moreover have "flist m q xs = flist m' q xs" for q
    using Cons.prems by (intro Cons.IH) auto
  ultimately show ?case by simp
qed

lemma kmem_list_quiet: "kmem_list s xs \<Longrightarrow> kmem_quiet s"
  by (simp add: kmem_list_def)

lemma kmem_list_unique: "kmem_list s xs \<Longrightarrow> kmem_list s ys \<Longrightarrow> ys = xs"
  unfolding kmem_list_def by (blast intro: flist_unique)

lemma free_pages_list [simp]: "kmem_list s xs \<Longrightarrow> free_pages s = set xs"
  unfolding free_pages_def using kmem_list_unique by blast

lemma kmem_list_inv [simp]: "kmem_list s xs \<Longrightarrow> kmem_inv s"
  by (auto simp: kmem_inv_def)

lemma valid_page_nonzero: "valid_page s v \<Longrightarrow> v \<noteq> 0"
  by (auto simp: valid_page_def V2P_def KERNBASE_def PHYSTOP_def)

lemma kmem_list_update_page:
  assumes "kmem_list s xs" and "valid_page s k" and "k \<notin> set xs"
    and "\<And>x. \<not> in_range x k 4096 \<Longrightarrow> m x = mem s x"
  shows "kmem_list (s\<lparr>mem := m\<rparr>) xs"
proof -
  have "mem s y = m y" if "x \<in> set xs" "in_range y x 8" for x y
  proof -
    have "disjoint_range x 4096 k 4096"
      using assms that(1) by (intro pages_disjoint) (auto simp: kmem_list_def valid_page_def)
    then have "\<not> in_range y k 4096"
      using disjoint_rangeD in_range_mono [OF that(2)] by simp
    then show ?thesis using assms(4) by simp
  qed
  then have "flist m (freelist s) xs"
    using assms(1) flist_frame [of xs "mem s" m] by (simp add: kmem_list_def)
  with assms(1) show ?thesis by (simp add: kmem_list_def valid_page_def)
qed

text \<open>The state after \<open>kfree v\<close> and after \<open>kalloc\<close>.\<close>

definition kfreed :: "addr_t \<Rightarrow> 'z kmem_state_scheme \<Rightarrow> 'z kmem_state_scheme" where
  "kfreed v s = s\<lparr>mem := write64 v (freelist s) (memset v 1 PGSIZE (mem s)), freelist := v\<rparr>"

definition kalloced :: "'z kmem_state_scheme \<Rightarrow> 'z kmem_state_scheme" where
  "kalloced s = s\<lparr>freelist := read64 (mem s) (freelist s)\<rparr>"

lemma kfree_run: "valid_page s v \<Longrightarrow> kmem_quiet s \<Longrightarrow> kfree v s = Ok () (kfreed v s)"
  by (auto simp: kfree_def kmem_acquire_def kmem_release_def kmem_quiet_def valid_page_def
      page_aligned_def kfreed_def bind_def not_less not_le)

lemma kfree_panics: "\<not> valid_page s v \<Longrightarrow> kfree v s = Panic ''kfree''"
  by (auto simp: kfree_def valid_page_def page_aligned_def bind_def not_less not_le)

lemma kfreed_simps [simp]:
  "kend (kfreed v s) = kend s" "use_lock (kfreed v s) = use_lock s" "freelist (kfreed v s) = v"
  "settled (kfreed v s) = settled s" "lock_free lk (kfreed v s) = lock_free lk s"
  by (simp_all add: kfreed_def)

lemma kfreed_frame: "\<not> in_range x v 4096 \<Longrightarrow> mem (kfreed v s) x = mem s x"
  using in_range_mono [of x v 8 4096]
  by (auto simp: kfreed_def write64_def memset_apply PGSIZE_def)

lemma kfreed_list:
  assumes "kmem_list s xs" and "valid_page s v" and "v \<notin> set xs"
  shows "kmem_list (kfreed v s) (v # xs)"
proof -
  have "kmem_list (s\<lparr>mem := mem (kfreed v s)\<rparr>) xs"
    using assms kfreed_frame by (rule kmem_list_update_page)
  then have "flist (mem (kfreed v s)) (freelist s) xs" by (simp add: kmem_list_def)
  moreover have "read64 (mem (kfreed v s)) v = freelist s" "freelist (kfreed v s) = v"
    "kend (kfreed v s) = kend s" "kmem_quiet (kfreed v s) = kmem_quiet s"
    by (simp_all add: kfreed_def)
  ultimately show ?thesis
    using assms by (simp add: kmem_list_def valid_page_def valid_page_nonzero [OF assms(2)])
qed

lemma valid_page_kalloced [simp]: "valid_page (kalloced s) = valid_page s"
  by (rule ext) (simp add: valid_page_def kalloced_def)

lemma valid_page_kfreed [simp]: "valid_page (kfreed v s) = valid_page s"
  by (rule ext) (simp add: valid_page_def kfreed_def)

lemma kalloc_run: "kmem_list s (x # xs) \<Longrightarrow> kalloc s = Ok x (kalloced s)"
  by (auto simp: kmem_list_def kalloc_def kmem_acquire_def kmem_release_def kmem_quiet_def
      kalloced_def bind_def)

lemma kalloc_panics: "kmem_list s [] \<Longrightarrow> kalloc s = Panic ''Out of memory!''"
  by (auto simp: kmem_list_def kalloc_def kmem_acquire_def kmem_quiet_def bind_def)

lemma kalloced_list: "kmem_list s (x # xs) \<Longrightarrow> kmem_list (kalloced s) xs"
  by (auto simp: kmem_list_def kalloced_def valid_page_def)

lemma attempt_kalloc:
  "kmem_list s xs \<Longrightarrow> attempt kalloc s = (case xs of [] \<Rightarrow> None | x # _ \<Rightarrow> Some (x, kalloced s))"
  by (auto simp: kalloc_run kalloc_panics split: list.split)

interpretation pages: allocator
  kmem_inv free_pages "attempt kalloc"
  "\<lambda>v s. map_option snd (attempt (kfree v) s)" valid_page
proof (unfold_locales, goal_cases)
  case (1 s)
  then show ?case by (auto simp: kmem_inv_def attempt_kalloc split: list.splits)
next
  case (2 s r t)
  then show ?case by (auto simp: kmem_inv_def attempt_kalloc split: list.splits)
next
  case (3 s r t)
  then obtain xs where xs: "kmem_list s (r # xs)" "t = kalloced s"
    by (auto simp: kmem_inv_def attempt_kalloc split: list.splits)
  then have "distinct (r # xs)" by (simp add: kmem_list_def)
  with xs kalloced_list [OF xs(1)] show ?case by auto
next
  case (4 s r t)
  then obtain xs where xs: "kmem_list s (r # xs)" "t = kalloced s"
    by (auto simp: kmem_inv_def attempt_kalloc split: list.splits)
  with kalloced_list [OF xs(1)] show ?case by simp
next
  case (5 s r t)
  then show ?case
    by (auto simp: kmem_inv_def attempt_kalloc split: list.splits)
next
  case (6 s r)
  then show ?case unfolding free_pages_def kmem_list_def by blast
next
  case (7 s r)
  then obtain xs where "kmem_list s xs" by (auto simp: kmem_inv_def)
  with 7 kfreed_list [OF this, of r] kfree_run [of s r] kmem_list_quiet [OF this] show ?case
    by (auto simp: attempt_def)
qed

section \<open>Initialisation\<close>

lemma unat_kernel_page:
  assumes "KERNBASE \<le> p" and "unat p \<le> unat (P2V PHYSTOP)"
  shows "unat p + 4096 < 2 ^ 64"
  using assms by (simp add: P2V_def PHYSTOP_def KERNBASE_def word_le_nat_alt)

lemma freerange_loop_run:
  assumes "kmem_list s xs" and "page_aligned p" and "kend s \<le> p" and "KERNBASE \<le> kend s"
    and "unat vend \<le> unat (P2V PHYSTOP)" and "unat p \<le> unat vend"
    and "\<forall>x\<in>set xs. unat x < unat p"
    and "(unat vend - unat p) div 4096 < fuel"
  shows "\<exists>t ys. freerange_loop fuel p vend s = Ok () t \<and> kmem_list t ys \<and>
    set ys = set xs \<union> {q. page_aligned q \<and> unat p \<le> unat q \<and> unat q + 4096 \<le> unat vend}"
  using assms
proof (induction fuel arbitrary: p s xs)
  case 0
  then show ?case by simp
next
  case (Suc fuel)
  have lt: "unat p + 4096 < 2 ^ 64"
    using Suc.prems by (intro unat_kernel_page) (auto simp: word_le_nat_alt)
  have up: "unat (p + PGSIZE) = unat p + 4096"
    using lt by (simp add: PGSIZE_def unat_word_ariths)
  have al: "4096 dvd unat p" using Suc.prems(2) by (simp add: page_aligned_dvd)
  show ?case
  proof (cases "p + PGSIZE \<le> vend")
    case True
    have le: "unat p + 4096 \<le> unat vend" using True up by (simp add: word_le_nat_alt)
    have "V2P p < PHYSTOP"
    proof -
      have "KERNBASE \<le> p" using Suc.prems(3,4) by simp
      then have "unat (V2P p) = unat p - unat KERNBASE"
        by (simp add: V2P_def unat_sub)
      with le Suc.prems(5) show ?thesis
        by (simp add: word_less_nat_alt P2V_def PHYSTOP_def KERNBASE_def)
    qed
    then have v: "valid_page s p" using Suc.prems by (simp add: valid_page_def)
    have "p \<notin> set xs" using Suc.prems(7) by auto
    note l = kfreed_list [OF Suc.prems(1) v this]
    have ex: "\<exists>t ys. freerange_loop fuel (p + PGSIZE) vend (kfreed p s) = Ok () t \<and> kmem_list t ys \<and>
        set ys = set (p # xs) \<union>
          {q. page_aligned q \<and> unat (p + PGSIZE) \<le> unat q \<and> unat q + 4096 \<le> unat vend}"
    proof (rule Suc.IH [OF l])
      show "page_aligned (p + PGSIZE)"
        using al up by (simp add: page_aligned_dvd)
      show "kend (kfreed p s) \<le> p + PGSIZE" "KERNBASE \<le> kend (kfreed p s)"
        using Suc.prems(3,4) up by (simp_all add: kfreed_def word_le_nat_alt)
      show "(unat vend - unat (p + PGSIZE)) div 4096 < fuel"
        using Suc.prems(8) le up by (simp add: div_nat_eqI)
    qed (use Suc.prems le up in auto)
    have split: "{q. page_aligned q \<and> unat p \<le> unat q \<and> unat q + 4096 \<le> unat vend} =
        insert p {q. page_aligned q \<and> unat (p + PGSIZE) \<le> unat q \<and> unat q + 4096 \<le> unat vend}"
    proof -
      have "unat p + 4096 \<le> unat q" if "page_aligned q" "unat p \<le> unat q" "q \<noteq> p" for q
      proof -
        have "unat (q - p) = unat q - unat p" using that(2) unfolding unat_sub_if' by simp
        moreover have "4096 \<le> unat (q - p)" using pages_apart [OF Suc.prems(2) that(1)] that(3) by simp
        ultimately show ?thesis by linarith
      qed
      then show ?thesis using Suc.prems(2) le up by auto
    qed
    from ex show ?thesis
      using True kfree_run [OF v kmem_list_quiet [OF Suc.prems(1)]] by (auto simp: split bind_def)
  next
    case False
    then have "unat vend < unat p + 4096" using up by (simp add: word_le_nat_alt)
    then have "{q. page_aligned q \<and> unat p \<le> unat q \<and> unat q + 4096 \<le> unat vend} = {}" by auto
    then show ?thesis using False Suc.prems(1) by auto
  qed
qed

lemma kinit1_run:
  assumes "KERNBASE \<le> kend s" and "kend s \<le> vstart" and "unat vstart + 4095 \<le> unat vend"
    and "unat vend \<le> unat (P2V PHYSTOP)"
  shows "\<exists>t ys. kinit1 vstart vend s = Ok () t \<and> kmem_list t ys \<and>
    set ys = {q. page_aligned q \<and> unat vstart \<le> unat q \<and> unat q + 4096 \<le> unat vend}"
proof -
  let ?s = "(with_lock L_kmem (\<lambda>l. l\<lparr>lk_locked := 0, lk_cpu := None\<rparr>) s)\<lparr>use_lock := False, freelist := 0\<rparr>" and ?p = "PGROUNDUP vstart"
  have p: "unat ?p = (unat vstart + 4095) div 4096 * 4096"
    using assms unat_lt [of vend] by (intro unat_PGROUNDUP) simp
  then have al: "page_aligned ?p" by (simp add: page_aligned_dvd)
  have ge: "unat vstart \<le> unat ?p" "unat ?p \<le> unat vend" "unat ?p < unat vstart + 4096"
    unfolding p using assms(3) by auto
  have "unat (vend - ?p) = unat vend - unat ?p"
    unfolding unat_sub_if' using ge by simp
  then have "(unat vend - unat ?p) div 4096 < Suc (unat (vend - ?p) div 4096)" by simp
  moreover have "kmem_list ?s []" "kend ?s = kend s"
    by (simp_all add: kmem_list_def with_lock_def)
  ultimately have "\<exists>t ys. freerange vstart vend ?s = Ok () t \<and> kmem_list t ys \<and>
      set ys = set [] \<union> {q. page_aligned q \<and> unat ?p \<le> unat q \<and> unat q + 4096 \<le> unat vend}"
    unfolding freerange_def Let_def using assms al ge
    by (intro freerange_loop_run) (auto simp: word_le_nat_alt)
  moreover have "unat ?p \<le> unat q \<longleftrightarrow> unat vstart \<le> unat q" if "page_aligned q" for q
  proof -
    from that obtain k where "unat q = 4096 * k" by (auto simp: page_aligned_dvd elim: dvdE)
    then show ?thesis unfolding p by auto
  qed
  ultimately show ?thesis by (auto simp: kinit1_def initlock_def bind_def cong: conj_cong)
qed

section \<open>Properties\<close>

text \<open>
  C9: \<open>kinit1(vstart, vend)\<close> builds a free list of exactly the whole pages between
  \<open>vstart\<close> and \<open>vend\<close>, each once and each one that \<open>kfree\<close> accepts: it neither panics nor
  runs forever, for any range above the kernel image and below the top of memory.
\<close>

theorem kinit1_pages:
  assumes "KERNBASE \<le> kend s" and "kend s \<le> vstart" and "unat vstart + 4095 \<le> unat vend"
    and "unat vend \<le> unat (P2V PHYSTOP)"
  shows "\<exists>t. kinit1 vstart vend s = Ok () t \<and> kmem_inv t \<and>
    free_pages t = {q. page_aligned q \<and> unat vstart \<le> unat q \<and> unat q + 4096 \<le> unat vend}"
  using kinit1_run [OF assms] by (metis free_pages_list kmem_list_inv)

definition boot_state :: kmem_state where
  "boot_state = \<lparr>cpus = (\<lambda>_. idle_cpu), mycpu = 0, locks = (\<lambda>_. unlocked),
     mem = (\<lambda>_. 0), kend = KERNBASE + 0x100000, use_lock = True, freelist = 0\<rparr>"

lemma boot_quiet: "kmem_quiet boot_state"
  by (simp add: kmem_quiet_def settled_def lock_free_def boot_state_def idle_cpu_def unlocked_def)

lemma boot_list: "kmem_list boot_state []"
  by (simp add: kmem_list_def boot_quiet) (simp add: boot_state_def)

theorem kinit1_pages_witness:
  "\<exists>t. kinit1 (KERNBASE + 0x100010) (KERNBASE + 0x103000) boot_state = Ok () t \<and> kmem_inv t \<and>
    free_pages t = {q. page_aligned q \<and> unat (KERNBASE + 0x100010) \<le> unat q \<and>
      unat q + 4096 \<le> unat (KERNBASE + 0x103000)}"
  by (rule kinit1_pages)
    (simp_all add: boot_state_def KERNBASE_def P2V_def PHYSTOP_def)


lemma boot_page_list:
  "kmem_list (kfreed (KERNBASE + 0x101000) boot_state) [KERNBASE + 0x101000]"
  by (rule kfreed_list [OF boot_list])
    (simp_all add: valid_page_def page_aligned_def boot_state_def KERNBASE_def V2P_def PHYSTOP_def PGSIZE_def)


text \<open>
  C12: a page that was in use can be freed and is then the next one allocated, and
  freeing it changes no byte outside that page.
\<close>

theorem kfree_kalloc:
  assumes "kmem_inv s" and "valid_page s v" and "v \<notin> free_pages s"
  shows "\<exists>t u. kfree v s = Ok () t \<and> kmem_inv t \<and> free_pages t = insert v (free_pages s) \<and>
    (\<forall>x. \<not> in_range x v 4096 \<longrightarrow> mem t x = mem s x) \<and>
    kalloc t = Ok v u \<and> kmem_inv u \<and> free_pages u = free_pages s"
proof -
  from assms(1) obtain xs where xs: "kmem_list s xs" by (auto simp: kmem_inv_def)
  with assms have l: "kmem_list (kfreed v s) (v # xs)" by (intro kfreed_list) auto
  show ?thesis
    using kfree_run [OF assms(2) kmem_list_quiet [OF xs]] l kalloc_run [OF l] kalloced_list [OF l] xs kfreed_frame
    by (intro exI [of _ "kfreed v s"] exI [of _ "kalloced (kfreed v s)"]) auto
qed

theorem kfree_kalloc_witness:
  "\<exists>t u. kfree (KERNBASE + 0x101000) boot_state = Ok () t \<and> kmem_inv t \<and>
    free_pages t = insert (KERNBASE + 0x101000) (free_pages boot_state) \<and>
    (\<forall>x. \<not> in_range x (KERNBASE + 0x101000) 4096 \<longrightarrow> mem t x = mem boot_state x) \<and>
    kalloc t = Ok (KERNBASE + 0x101000) u \<and> kmem_inv u \<and> free_pages u = free_pages boot_state"
proof (rule kfree_kalloc)
  show "kmem_inv boot_state" "KERNBASE + 0x101000 \<notin> free_pages boot_state"
    using boot_list by auto
  show "valid_page boot_state (KERNBASE + 0x101000)"
    by (simp add: valid_page_def page_aligned_def boot_state_def KERNBASE_def V2P_def PHYSTOP_def PGSIZE_def)
qed

end
