(* ===== verification/Layout.thy ===== *)
theory Layout
  imports Prelude
begin

text \<open>
  The on-disk format of \<open>fs.h\<close>: constants, the super block, disk inodes and directory
  entries as records, and their byte representation inside a disk block.
\<close>

section \<open>Constants of param.h and fs.h\<close>

definition NPROC :: nat where "NPROC = 64"
definition NCPU :: nat where "NCPU = 8"
definition NOFILE :: nat where "NOFILE = 16"
definition NFILE :: nat where "NFILE = 100"
definition NINODE :: nat where "NINODE = 50"
definition NDEV :: nat where "NDEV = 10"
definition ROOTDEV :: uint where [simp]: "ROOTDEV = 1"
definition MAXARG :: nat where "MAXARG = 32"
definition MAXOPBLOCKS :: nat where [simp]: "MAXOPBLOCKS = 10"
definition LOGSIZE :: nat where "LOGSIZE = 30"
definition NBUF :: nat where "NBUF = 30"
definition FSSIZE :: nat where [simp]: "FSSIZE = 1000"

lemmas table_sizes = NPROC_def NOFILE_def NFILE_def NINODE_def NBUF_def

lemma table_sizes_pos [simp]: "0 < NPROC" "0 < NOFILE" "0 < NFILE" "0 < NINODE" "0 < NBUF"
  by (simp_all add: table_sizes)

definition ROOTINO :: uint where [simp]: "ROOTINO = 1"
definition BSIZE :: nat where [simp]: "BSIZE = 512"
definition NDIRECT :: nat where [simp]: "NDIRECT = 12"
definition NINDIRECT :: nat where [simp]: "NINDIRECT = 128"
definition MAXFILE :: nat where [simp]: "MAXFILE = 140"
definition IPB :: nat where [simp]: "IPB = 8"
definition BPB :: nat where [simp]: "BPB = 4096"
definition DIRSIZ :: nat where [simp]: "DIRSIZ = 14"

definition T_DIR :: ushort where [simp]: "T_DIR = 1"
definition T_FILE :: ushort where [simp]: "T_FILE = 2"
definition T_DEV :: ushort where [simp]: "T_DEV = 3"

type_synonym block = "uchar list"

definition zero_block :: block where "zero_block = replicate 512 0"

lemma length_zero_block [simp]: "length zero_block = 512"
  by (simp add: zero_block_def)

section \<open>Super block\<close>

record superblock =
  sb_size :: uint
  sb_nblocks :: uint
  sb_ninodes :: uint
  sb_nlog :: uint
  sb_logstart :: uint
  sb_inodestart :: uint
  sb_bmapstart :: uint

definition superblock_of :: "block \<Rightarrow> superblock" where
  "superblock_of d = \<lparr>sb_size = get_u32 0 d, sb_nblocks = get_u32 4 d, sb_ninodes = get_u32 8 d,
     sb_nlog = get_u32 12 d, sb_logstart = get_u32 16 d, sb_inodestart = get_u32 20 d,
     sb_bmapstart = get_u32 24 d\<rparr>"

definition superblock_bytes :: "superblock \<Rightarrow> uchar list" where
  "superblock_bytes sb = to_le 4 (sb_size sb) @ to_le 4 (sb_nblocks sb) @ to_le 4 (sb_ninodes sb) @
     to_le 4 (sb_nlog sb) @ to_le 4 (sb_logstart sb) @ to_le 4 (sb_inodestart sb) @
     to_le 4 (sb_bmapstart sb)"

definition IBLOCK :: "uint \<Rightarrow> superblock \<Rightarrow> uint" where
  "IBLOCK i sb = i div 8 + sb_inodestart sb"

definition BBLOCK :: "uint \<Rightarrow> superblock \<Rightarrow> uint" where
  "BBLOCK b sb = b div 4096 + sb_bmapstart sb"

section \<open>Disk inodes\<close>

record dinode =
  d_type :: ushort
  d_major :: ushort
  d_minor :: ushort
  d_nlink :: ushort
  d_size :: uint
  d_addrs :: "uint list"

definition dinode_of :: "uchar list \<Rightarrow> dinode" where
  "dinode_of d = \<lparr>d_type = get_u16 0 d, d_major = get_u16 2 d, d_minor = get_u16 4 d,
     d_nlink = get_u16 6 d, d_size = get_u32 8 d,
     d_addrs = map (\<lambda>i. get_u32 (12 + 4 * i) d) [0..<13]\<rparr>"

definition dinode_bytes :: "dinode \<Rightarrow> uchar list" where
  "dinode_bytes di = to_le 2 (d_type di) @ to_le 2 (d_major di) @ to_le 2 (d_minor di) @
     to_le 2 (d_nlink di) @ to_le 4 (d_size di) @ concat (map (to_le 4) (d_addrs di))"

section \<open>Directory entries\<close>

record dirent =
  de_inum :: ushort
  de_name :: "uchar list"

definition dirent_of :: "uchar list \<Rightarrow> dirent" where
  "dirent_of d = \<lparr>de_inum = get_u16 0 d, de_name = slice 2 14 d\<rparr>"

definition dirent_bytes :: "dirent \<Rightarrow> uchar list" where
  "dirent_bytes de = to_le 2 (de_inum de) @ de_name de"

section \<open>Round trips\<close>

lemma length_concat_to_le [simp]: "length (concat (map (to_le n) vs)) = n * length vs"
  by (induction vs) auto

lemma slice_concat_to_le:
  "i < length vs \<Longrightarrow> slice (n * i) n (concat (map (to_le n) vs)) = to_le n (vs ! i)"
proof (induction vs arbitrary: i)
  case Nil
  then show ?case by simp
next
  case (Cons v vs)
  then show ?case by (cases i) (simp_all add: slice_append2)
qed

lemma get_u32_append1 [simp]: "get_u32 0 (to_le 4 v @ ys) = v"
  by (simp add: get_u32_def)

lemma get_u16_append1 [simp]: "get_u16 0 (to_le 2 v @ ys) = v"
  by (simp add: get_u16_def)

lemma get_u32_append2: "length xs \<le> k \<Longrightarrow> get_u32 k (xs @ ys) = get_u32 (k - length xs) ys"
  by (simp add: get_u32_def slice_append2)

lemma get_u16_append2: "length xs \<le> k \<Longrightarrow> get_u16 k (xs @ ys) = get_u16 (k - length xs) ys"
  by (simp add: get_u16_def slice_append2)

lemma get_u32_slice: "j + 4 \<le> n \<Longrightarrow> get_u32 j (slice k n d) = get_u32 (k + j) d"
  by (simp add: get_u32_def slice_slice)

lemma length_dinode_bytes: "length (d_addrs di) = 13 \<Longrightarrow> length (dinode_bytes di) = 64"
  by (simp add: dinode_bytes_def)

lemma dinode_of_bytes:
  assumes "length (d_addrs di) = 13"
  shows "dinode_of (dinode_bytes di) = di"
proof -
  have "get_u32 (12 + 4 * i) (dinode_bytes di) = d_addrs di ! i" if "i < 13" for i
  proof -
    have "get_u32 (12 + 4 * i) (dinode_bytes di) = get_u32 (4 * i) (concat (map (to_le 4) (d_addrs di)))"
      by (simp add: dinode_bytes_def get_u32_append2)
    then show ?thesis
      using assms that by (simp add: get_u32_def slice_concat_to_le)
  qed
  then have "map (\<lambda>i. get_u32 (12 + 4 * i) (dinode_bytes di)) [0..<13] = d_addrs di"
    using assms by (intro nth_equalityI) auto
  then show ?thesis
    by (simp add: dinode_of_def)
      (simp add: dinode_bytes_def get_u32_append2 get_u16_append2)
qed

lemma superblock_of_bytes: "superblock_of (superblock_bytes sb @ rest) = sb"
  by (simp add: superblock_of_def superblock_bytes_def get_u32_append2)

lemma length_dirent_bytes: "length (de_name de) = 14 \<Longrightarrow> length (dirent_bytes de) = 16"
  by (simp add: dirent_bytes_def)

lemma dirent_of_bytes: "length (de_name de) = 14 \<Longrightarrow> dirent_of (dirent_bytes de) = de"
  by (simp add: dirent_of_def dirent_bytes_def slice_append2 slice_def)

end
