(* ===== verification/Proc.thy ===== *)
theory Proc
  imports Kalloc Layout
begin

text \<open>
  Processes (\<open>proc.c\<close>, \<open>proc.h\<close>): the process table, allocation of a slot, the entry
  into the scheduler, sleep and wakeup, and \<open>kill\<close>. The functions that also manage memory
  and files (\<open>fork\<close>, \<open>exit\<close>, \<open>wait\<close>) come after the components they call.
\<close>

section \<open>Processes\<close>

datatype procstate = UNUSED | EMBRYO | SLEEPING | RUNNABLE | RUNNING | ZOMBIE

text \<open>
  A pointer to a process is an index into the process table, \<open>None\<close> the null pointer; an
  open file is an index into the file table and the current directory one into the inode
  cache. The trap frame and the saved context are addresses on the kernel stack, where
  their fields are read and written.
\<close>

record proc =
  p_sz :: addr_t
  p_pgdir :: addr_t
  p_kstack :: addr_t
  p_state :: procstate
  p_pid :: uint
  p_parent :: "nat option"
  p_tf :: addr_t
  p_context :: addr_t
  p_chan :: "chan option"
  p_killed :: uint
  p_ofile :: "nat \<Rightarrow> nat option"
  p_cwd :: "nat option"
  p_name :: "uchar list"

text \<open>
  \<open>curproc\<close> is the variable \<open>proc\<close> of each processor; \<open>sym_trapret\<close> and \<open>sym_forkret\<close> are
  the addresses of the code a new process starts in.
\<close>

record proc_state = kmem_state +
  ptable :: "nat \<Rightarrow> proc"
  nextpid :: uint
  initproc :: "nat option"
  curproc :: "nat \<Rightarrow> nat option"
  sym_trapret :: addr_t
  sym_forkret :: addr_t

abbreviation this_proc :: "'z proc_state_scheme \<Rightarrow> nat option" where
  "this_proc s \<equiv> curproc s (mycpu s)"

definition with_proc :: "nat \<Rightarrow> (proc \<Rightarrow> proc) \<Rightarrow> 'z proc_state_scheme \<Rightarrow> 'z proc_state_scheme" where
  "with_proc p f s = s\<lparr>ptable := (ptable s)(p := f (ptable s p))\<rparr>"

abbreviation set_proc :: "nat \<Rightarrow> (proc \<Rightarrow> proc) \<Rightarrow> ('z proc_state_scheme, unit) op" where
  "set_proc p f \<equiv> modify (with_proc p f)"

text \<open>Sizes and field offsets of \<open>struct trapframe\<close> and \<open>struct context\<close>.\<close>

definition KSTACKSIZE :: addr_t where "KSTACKSIZE = 4096"
definition sizeof_trapframe :: addr_t where "sizeof_trapframe = 176"
definition sizeof_context :: addr_t where "sizeof_context = 56"
definition context_rip :: addr_t where "context_rip = 48"

section \<open>Operations\<close>

definition pinit :: "('z proc_state_scheme, unit) op" where
  "pinit = initlock L_ptable"

definition find_proc :: "(proc \<Rightarrow> bool) \<Rightarrow> 'z proc_state_scheme \<Rightarrow> nat option" where
  "find_proc P s = find (\<lambda>i. P (ptable s i)) [0..<NPROC]"

definition allocproc :: "('z proc_state_scheme, nat option) op" where
  "allocproc =
     bind (acquire L_ptable) (\<lambda>_.
     bind (gets (find_proc (\<lambda>p. p_state p = UNUSED))) (\<lambda>found.
     case found of
       None \<Rightarrow> bind (release L_ptable) (\<lambda>_. return None)
     | Some p \<Rightarrow>
       bind (gets nextpid) (\<lambda>pid.
       bind (set_proc p (\<lambda>r. r\<lparr>p_state := EMBRYO, p_pid := pid\<rparr>)) (\<lambda>_.
       bind (modify (\<lambda>s. s\<lparr>nextpid := pid + 1\<rparr>)) (\<lambda>_.
       bind (release L_ptable) (\<lambda>_.
       bind kalloc (\<lambda>kstack.
       bind (set_proc p (\<lambda>r. r\<lparr>p_kstack := kstack\<rparr>)) (\<lambda>_.
       if kstack = 0 then bind (set_proc p (\<lambda>r. r\<lparr>p_state := UNUSED\<rparr>)) (\<lambda>_. return None)
       else
         let tf = kstack + KSTACKSIZE - sizeof_trapframe;
             ret = tf - 8;
             context = ret - sizeof_context
         in bind (set_proc p (\<lambda>r. r\<lparr>p_tf := tf\<rparr>)) (\<lambda>_.
            bind (modify (\<lambda>s. s\<lparr>mem := write64 ret (sym_trapret s) (mem s)\<rparr>)) (\<lambda>_.
            bind (set_proc p (\<lambda>r. r\<lparr>p_context := context\<rparr>)) (\<lambda>_.
            bind (modify (\<lambda>s. s\<lparr>mem := memset context 0 sizeof_context (mem s)\<rparr>)) (\<lambda>_.
            bind (modify (\<lambda>s. s\<lparr>mem := write64 (context + context_rip) (sym_forkret s) (mem s)\<rparr>)) (\<lambda>_.
            return (Some p))))))))))))))"

definition wake1 :: "chan \<Rightarrow> proc \<Rightarrow> proc" where
  "wake1 ch p = (if p_state p = SLEEPING \<and> p_chan p = Some ch then p\<lparr>p_state := RUNNABLE\<rparr> else p)"

definition wakeup1 :: "chan \<Rightarrow> ('z proc_state_scheme, unit) op" where
  "wakeup1 ch = for_each [0..<NPROC] (\<lambda>i. set_proc i (wake1 ch))"

definition wakeup :: "chan \<Rightarrow> ('z proc_state_scheme, unit) op" where
  "wakeup ch = bind (acquire L_ptable) (\<lambda>_. bind (wakeup1 ch) (\<lambda>_. release L_ptable))"

definition kill :: "uint \<Rightarrow> ('z proc_state_scheme, int) op" where
  "kill pid =
     bind (acquire L_ptable) (\<lambda>_.
     bind (gets (find_proc (\<lambda>p. p_pid p = pid))) (\<lambda>found.
     case found of
       Some p \<Rightarrow>
         bind (set_proc p (\<lambda>r. r\<lparr>p_killed := 1\<rparr>)) (\<lambda>_.
         bind (set_proc p (\<lambda>r. if p_state r = SLEEPING then r\<lparr>p_state := RUNNABLE\<rparr> else r)) (\<lambda>_.
         bind (release L_ptable) (\<lambda>_. return 0)))
     | None \<Rightarrow> bind (release L_ptable) (\<lambda>_. return (-1))))"

text \<open>
  \<open>sched\<close> up to the switch to the scheduler's stack; \<open>intena\<close>, which it saves and
  restores around the switch, is its result.
\<close>

definition sched :: "('z proc_state_scheme, bool) op" where
  "sched =
     bind (gets (holding L_ptable)) (\<lambda>h.
     bind (panic_if (\<not> h) ''sched ptable.lock'') (\<lambda>_.
     bind (gets (\<lambda>s. this_cpu s)) (\<lambda>c.
     bind (panic_if (c_ncli c \<noteq> 1) ''sched locks'') (\<lambda>_.
     bind (gets (\<lambda>s. this_proc s)) (\<lambda>cp. deref cp (\<lambda>p.
     bind (gets (\<lambda>s. p_state (ptable s p))) (\<lambda>st.
     bind (panic_if (st = RUNNING) ''sched running'') (\<lambda>_.
     bind (panic_if (c_IF c) ''sched interruptible'') (\<lambda>_.
     return (c_intena c))))))))))"

text \<open>The first half of \<open>yield\<close> (to the switch) and its second half.\<close>

definition yield_down :: "('z proc_state_scheme, bool) op" where
  "yield_down =
     bind (acquire L_ptable) (\<lambda>_.
     bind (gets (\<lambda>s. this_proc s)) (\<lambda>cp. deref cp (\<lambda>p.
     bind (set_proc p (\<lambda>r. r\<lparr>p_state := RUNNABLE\<rparr>)) (\<lambda>_.
     sched))))"

definition yield_up :: "bool \<Rightarrow> ('z proc_state_scheme, unit) op" where
  "yield_up intena =
     bind (set_cpu (\<lambda>c. c\<lparr>c_intena := intena\<rparr>)) (\<lambda>_. release L_ptable)"

text \<open>
  \<open>sleep\<close> up to the switch, where the process is off the processor, and what it does
  when it runs again. The test for a null lock has no counterpart: \<open>lk\<close> names a lock.
\<close>

definition sleep :: "chan \<Rightarrow> lockid \<Rightarrow> ('z proc_state_scheme, 'a) op" where
  "sleep ch lk =
     bind (gets (\<lambda>s. this_proc s)) (\<lambda>cp.
     case cp of
       None \<Rightarrow> panic ''sleep''
     | Some p \<Rightarrow>
       bind (if lk \<noteq> L_ptable then bind (acquire L_ptable) (\<lambda>_. release lk) else return ()) (\<lambda>_.
       bind (set_proc p (\<lambda>r. r\<lparr>p_chan := Some ch\<rparr>)) (\<lambda>_.
       bind (set_proc p (\<lambda>r. r\<lparr>p_state := SLEEPING\<rparr>)) (\<lambda>_.
       bind sched (\<lambda>_.
       (\<lambda>s. Sleep ch s))))))"

definition sleep_resume :: "bool \<Rightarrow> lockid \<Rightarrow> ('z proc_state_scheme, unit) op" where
  "sleep_resume intena lk =
     bind (set_cpu (\<lambda>c. c\<lparr>c_intena := intena\<rparr>)) (\<lambda>_.
     bind (gets (\<lambda>s. this_proc s)) (\<lambda>cp. deref cp (\<lambda>p.
     bind (set_proc p (\<lambda>r. r\<lparr>p_chan := None\<rparr>)) (\<lambda>_.
     if lk \<noteq> L_ptable then bind (release L_ptable) (\<lambda>_. acquire lk) else return ()))))"

section \<open>Frame rules\<close>

lemma proc_frame [simp]:
  "(acquired lk s)\<lparr>ptable := x\<rparr> = acquired lk (s\<lparr>ptable := x\<rparr>)"
  "(acquired lk s)\<lparr>nextpid := n\<rparr> = acquired lk (s\<lparr>nextpid := n\<rparr>)"
  "ptable (acquired lk s) = ptable s" "nextpid (acquired lk s) = nextpid s"
  "initproc (acquired lk s) = initproc s" "curproc (acquired lk s) = curproc s"
  "settled (s\<lparr>ptable := x\<rparr>) = settled s" "lock_free lk (s\<lparr>ptable := x\<rparr>) = lock_free lk s"
  "settled (s\<lparr>nextpid := n\<rparr>) = settled s" "lock_free lk (s\<lparr>nextpid := n\<rparr>) = lock_free lk s"
  by (simp_all add: acquired_def settled_def lock_free_def)

lemma with_proc_simps [simp]:
  "ptable (with_proc p f s) = (ptable s)(p := f (ptable s p))"
  "curproc (with_proc p f s) = curproc s" "mycpu (with_proc p f s) = mycpu s"
  "mem (with_proc p f s) = mem s" "nextpid (with_proc p f s) = nextpid s"
  "with_proc p f (acquired lk s) = acquired lk (with_proc p f s)"
  "with_proc p f (with_proc p g s) = with_proc p (\<lambda>r. f (g r)) s"
  "settled (with_proc p f s) = settled s" "lock_free lk (with_proc p f s) = lock_free lk s"
  by (simp_all add: with_proc_def)

lemma acquired_commute: "acquired lk (acquired lk' s) = acquired lk' (acquired lk s)" if "lk \<noteq> lk'"
  using that by (auto simp: acquired_def fun_upd_twist)

section \<open>Sleep and wakeup\<close>

definition woken :: "chan \<Rightarrow> 'z proc_state_scheme \<Rightarrow> 'z proc_state_scheme" where
  "woken ch s = s\<lparr>ptable := (\<lambda>i. if i < NPROC then wake1 ch (ptable s i) else ptable s i)\<rparr>"

lemma for_each_procs:
  "for_each [0..<n] (\<lambda>i. set_proc i f) s = Ok () (s\<lparr>ptable := (\<lambda>i. if i < n then f (ptable s i) else ptable s i)\<rparr>)"
proof (induction n)
  case 0
  then show ?case by simp
next
  case (Suc n)
  show ?case using Suc
    by (simp add: for_each_append bind_def with_proc_def)
      (rule arg_cong [where f = "\<lambda>x. s\<lparr>ptable := x\<rparr>"], auto simp: fun_eq_iff less_Suc_eq)
qed

lemma wakeup1_run: "wakeup1 ch s = Ok () (woken ch s)"
  by (simp only: wakeup1_def for_each_procs woken_def)

lemma woken_frame [simp]:
  "woken ch (acquired lk s) = acquired lk (woken ch s)"
  "settled (woken ch s) = settled s" "lock_free lk (woken ch s) = lock_free lk s"
  "mycpu (woken ch s) = mycpu s" "curproc (woken ch s) = curproc s" "mem (woken ch s) = mem s"
  by (simp_all add: woken_def cong: if_cong)

lemma wakeup_run [simp]:
  "settled s \<Longrightarrow> lock_free L_ptable s \<Longrightarrow> wakeup ch s = Ok () (woken ch s)"
  by (simp add: wakeup_def bind_def wakeup1_run)

lemma wp_wakeup [simp]:
  "settled s \<Longrightarrow> lock_free L_ptable s \<Longrightarrow> wp (wakeup ch) Q s = Q () (woken ch s)"
  by (simp add: wp_def)

definition asleep :: "chan \<Rightarrow> nat \<Rightarrow> 'z proc_state_scheme \<Rightarrow> 'z proc_state_scheme" where
  "asleep ch p s = with_proc p (\<lambda>r. r\<lparr>p_chan := Some ch, p_state := SLEEPING\<rparr>) s"

lemma sleep_run:
  assumes "settled s" and "lock_free L_ptable s" and "lock_free lk s" and "c_ncli (this_cpu s) = 0"
    and "this_proc s = Some p" and "lk \<noteq> L_ptable"
  shows "sleep ch lk (acquired lk s) = Sleep ch (acquired L_ptable (asleep ch p s))"
proof -
  have "sched (acquired L_ptable (asleep ch p s)) = Ok (c_IF (this_cpu s)) (acquired L_ptable (asleep ch p s))"
    using assms by (simp add: sched_def bind_def asleep_def)
      (simp add: acquired_def with_proc_def pushed_def)
  then show ?thesis
    using assms by (simp add: sleep_def bind_def acquired_commute [of L_ptable lk] asleep_def)
qed

section \<open>Allocating a process\<close>

definition new_context :: "addr_t \<Rightarrow> 'z proc_state_scheme \<Rightarrow> memory" where
  "new_context k s =
     write64 (3904 + k) (sym_forkret s)
       (memset (3856 + k) 0 56 (write64 (3912 + k) (sym_trapret s) (mem s)))"

definition proc_allocated :: "nat \<Rightarrow> addr_t \<Rightarrow> 'z proc_state_scheme \<Rightarrow> 'z proc_state_scheme" where
  "proc_allocated p k s = (with_proc p (\<lambda>r. r\<lparr>p_kstack := k, p_state := EMBRYO, p_pid := nextpid s,
       p_tf := 3920 + k, p_context := 3856 + k\<rparr>) (kalloced s))
     \<lparr>nextpid := nextpid s + 1, mem := new_context k s\<rparr>"

lemma find_proc_Some:
  "find_proc P s = Some p \<longleftrightarrow> p < NPROC \<and> P (ptable s p) \<and> (\<forall>i<p. \<not> P (ptable s i))"
  by (auto simp: find_proc_def find_Some_iff)

lemma find_proc_None: "find_proc P s = None \<longleftrightarrow> (\<forall>i<NPROC. \<not> P (ptable s i))"
  by (auto simp: find_proc_def find_None_iff)

lemma find_proc_acquired [simp]: "find_proc P (acquired lk s) = find_proc P s"
  by (simp add: find_proc_def)

lemma kmem_list_proc [simp]:
  "kmem_list (with_proc p f s) xs = kmem_list s xs" "kmem_list (s\<lparr>nextpid := n\<rparr>) xs = kmem_list s xs"
  by (simp_all add: kmem_list_def with_proc_def valid_page_def kmem_quiet_def)

lemma allocproc_run:
  assumes "settled s" and "lock_free L_ptable s" and "kmem_list s (k # ks)"
    and "find_proc (\<lambda>p. p_state p = UNUSED) s = Some p"
  shows "allocproc s = Ok (Some p) (proc_allocated p k s)"
proof -
  let ?t = "(with_proc p (\<lambda>r. r\<lparr>p_state := EMBRYO, p_pid := nextpid s\<rparr>) s)\<lparr>nextpid := nextpid s + 1\<rparr>"
  have k: "kalloc ?t = Ok k (kalloced ?t)"
    using assms(3) by (intro kalloc_run [of _ k ks]) simp
  have "k \<noteq> 0" using assms(3) by (auto simp: kmem_list_def)
  then show ?thesis
    using assms(1,2,4) k
    by (simp add: allocproc_def bind_def Let_def KSTACKSIZE_def sizeof_trapframe_def sizeof_context_def
        context_rip_def proc_allocated_def)
      (rule proc_state.equality, simp_all add: with_proc_def kalloced_def new_context_def fun_eq_iff)
qed

lemma allocproc_none:
  assumes "settled s" and "lock_free L_ptable s" and "find_proc (\<lambda>p. p_state p = UNUSED) s = None"
  shows "allocproc s = Ok None s"
  using assms by (simp add: allocproc_def bind_def)

lemma new_context_reads:
  "read64 (new_context k s) (3912 + k) = sym_trapret s"
  "read64 (new_context k s) (3904 + k) = sym_forkret s"
  "\<not> in_range x k 4096 \<Longrightarrow> new_context k s x = mem s x"
proof -
  have "disjoint_range (3904 + k) 8 (3912 + k) 8" "disjoint_range (3912 + k) 8 (3856 + k) 56"
    by (simp_all add: disjoint_range_def)
  then have "read64 (new_context k s) (3912 + k) =
      read64 (memset (3856 + k) 0 56 (write64 (3912 + k) (sym_trapret s) (mem s))) (3912 + k)"
    by (simp add: new_context_def read64_write64_other)
  also have "\<dots> = read64 (write64 (3912 + k) (sym_trapret s) (mem s)) (3912 + k)"
    using disjoint_rangeD [OF \<open>disjoint_range (3912 + k) 8 (3856 + k) 56\<close>]
    by (intro read64_cong) (simp add: memset_apply)
  finally show "read64 (new_context k s) (3912 + k) = sym_trapret s" by simp
  show "read64 (new_context k s) (3904 + k) = sym_forkret s" by (simp add: new_context_def)
  assume x: "\<not> in_range x k 4096"
  then have "\<not> in_range x (3904 + k) 8" "\<not> in_range x (3856 + k) 56" "\<not> in_range x (3912 + k) 8"
    using in_range_sub [of x 3904 k 8 4096] in_range_sub [of x 3856 k 56 4096]
      in_range_sub [of x 3912 k 8 4096] by auto
  then
  show "new_context k s x = mem s x"
    by (simp add: new_context_def write64_other memset_apply)
qed

text \<open>Process identifiers of used slots are different and were all handed out before.\<close>

definition pids_ok :: "'z proc_state_scheme \<Rightarrow> bool" where
  "pids_ok s \<longleftrightarrow>
     (\<forall>i<NPROC. p_state (ptable s i) \<noteq> UNUSED \<longrightarrow> p_pid (ptable s i) < nextpid s) \<and>
     (\<forall>i<NPROC. \<forall>j<NPROC. p_state (ptable s i) \<noteq> UNUSED \<longrightarrow> p_state (ptable s j) \<noteq> UNUSED \<longrightarrow>
        p_pid (ptable s i) = p_pid (ptable s j) \<longrightarrow> i = j)"

lemma allocated_pids:
  assumes "pids_ok s" and "nextpid s < nextpid s + 1"
  shows "pids_ok (proc_allocated p k s)"
proof -
  let ?t = "proc_allocated p k s"
  have t: "nextpid ?t = nextpid s + 1" "p_pid (ptable ?t p) = nextpid s"
    "i \<noteq> p \<Longrightarrow> ptable ?t i = ptable s i" for i
    by (simp_all add: proc_allocated_def kalloced_def)
  have old: "p_pid (ptable s i) < nextpid s" if "i < NPROC" "p_state (ptable s i) \<noteq> UNUSED" for i
    using assms(1) that by (simp add: pids_ok_def)
  have inj: "i = j" if "i < NPROC" "j < NPROC" "p_state (ptable s i) \<noteq> UNUSED"
    "p_state (ptable s j) \<noteq> UNUSED" "p_pid (ptable s i) = p_pid (ptable s j)" for i j
    using assms(1) that unfolding pids_ok_def by blast
  have "p_pid (ptable ?t i) < nextpid s + 1" if "i < NPROC" "p_state (ptable ?t i) \<noteq> UNUSED" for i
    using old [of i] that t(2,3) assms(2) by (cases "i = p") (auto intro: less_trans)
  moreover have "i = j" if "i < NPROC" "j < NPROC" "p_state (ptable ?t i) \<noteq> UNUSED"
    "p_state (ptable ?t j) \<noteq> UNUSED" "p_pid (ptable ?t i) = p_pid (ptable ?t j)" for i j
    using inj [of i j] old [of i] old [of j] that t(2,3)
    by (cases "i = p"; cases "j = p") simp_all
  ultimately show ?thesis by (simp add: pids_ok_def t(1))
qed

lemma allocated_list:
  assumes "kmem_list s (k # ks)"
  shows "kmem_list (proc_allocated p k s) ks"
proof -
  have "kmem_list (kalloced s) ks" using assms by (rule kalloced_list)
  moreover have "valid_page (kalloced s) k" "k \<notin> set ks"
    using assms by (auto simp: kmem_list_def)
  moreover have "new_context k s x = mem (kalloced s) x" if "\<not> in_range x k 4096" for x
    using new_context_reads(3) [OF that] by (simp add: kalloced_def)
  ultimately have "kmem_list ((kalloced s)\<lparr>mem := new_context k s\<rparr>) ks"
    by (rule kmem_list_update_page)
  then show ?thesis
    by (simp add: kmem_list_def proc_allocated_def with_proc_def valid_page_def kmem_quiet_def)
qed

text \<open>
  C11: \<open>allocproc\<close> with a free slot and a free page succeeds: the slot was unused and
  becomes an embryo with a process identifier no other process has, its kernel stack is a
  page taken off the free list, on top of which the saved context makes it start in
  \<open>forkret\<close> and return to \<open>syscall_trapret\<close>, and no other process changes.
\<close>

theorem allocproc_spec:
  assumes "settled s" and "lock_free L_ptable s" and "kmem_inv s" and "free_pages s \<noteq> {}"
    and "i < NPROC" and "p_state (ptable s i) = UNUSED"
    and "pids_ok s" and "nextpid s < nextpid s + 1"
  shows "\<exists>p t. allocproc s = Ok (Some p) t \<and> p < NPROC \<and> p_state (ptable s p) = UNUSED
    \<and> p_state (ptable t p) = EMBRYO \<and> pids_ok t \<and> (\<forall>j. j \<noteq> p \<longrightarrow> ptable t j = ptable s j)
    \<and> p_kstack (ptable t p) \<in> free_pages s
    \<and> kmem_inv t \<and> free_pages t = free_pages s - {p_kstack (ptable t p)}
    \<and> read64 (mem t) (p_context (ptable t p) + context_rip) = sym_forkret s
    \<and> read64 (mem t) (p_context (ptable t p) + sizeof_context) = sym_trapret s"
proof -
  obtain p where p: "find_proc (\<lambda>p. p_state p = UNUSED) s = Some p"
    using assms(5,6) find_proc_None [of "\<lambda>p. p_state p = UNUSED" s] by blast
  obtain xs where xs: "kmem_list s xs" using assms(3) by (auto simp: kmem_inv_def)
  with assms(4) obtain k ks where "xs = k # ks" by (cases xs) simp_all
  with xs have l: "kmem_list s (k # ks)" by simp
  let ?t = "proc_allocated p k s"
  have t: "ptable ?t = (ptable s)(p := (ptable s p)\<lparr>p_kstack := k, p_state := EMBRYO,
      p_pid := nextpid s, p_tf := 3920 + k, p_context := 3856 + k\<rparr>)" "mem ?t = new_context k s"
    by (simp_all add: proc_allocated_def kalloced_def)
  have d: "distinct (k # ks)" using l by (simp add: kmem_list_def)
  have "allocproc s = Ok (Some p) ?t"
    using assms(1,2) l p by (rule allocproc_run)
  moreover have "p < NPROC \<and> p_state (ptable s p) = UNUSED"
    using p by (simp add: find_proc_Some)
  moreover have "pids_ok ?t" using assms(7,8) by (rule allocated_pids)
  moreover have "kmem_inv ?t" "k \<in> free_pages s" "free_pages ?t = free_pages s - {k}"
    using allocated_list [OF l, of p] l d by auto
  moreover have "read64 (mem ?t) (p_context (ptable ?t p) + context_rip) = sym_forkret s"
    "read64 (mem ?t) (p_context (ptable ?t p) + sizeof_context) = sym_trapret s"
    using new_context_reads(1,2) [of k s] by (simp_all add: t context_rip_def sizeof_context_def ac_simps)
  ultimately show ?thesis
    by (intro exI [of _ p] exI [of _ ?t] conjI) (simp_all add: t)
qed

definition idle_proc :: proc where
  "idle_proc = \<lparr>p_sz = 0, p_pgdir = 0, p_kstack = 0, p_state = UNUSED, p_pid = 0, p_parent = None,
     p_tf = 0, p_context = 0, p_chan = None, p_killed = 0, p_ofile = (\<lambda>_. None), p_cwd = None,
     p_name = replicate 16 0\<rparr>"

text \<open>A machine with one free page and an empty process table.\<close>

definition proc_boot :: proc_state where
  "proc_boot = kmem_state.extend (kfreed (KERNBASE + 0x101000) boot_state)
     (proc_state.fields (\<lambda>_. idle_proc) 1 None (\<lambda>_. None) 0x1000 0x2000)"

lemma proc_boot_simps [simp]:
  "settled proc_boot" "lock_free lk proc_boot" "ptable proc_boot i = idle_proc" "nextpid proc_boot = 1"
  "sym_forkret proc_boot = 0x2000" "sym_trapret proc_boot = 0x1000"
  by (simp_all add: proc_boot_def proc_state.defs kmem_state.defs kfreed_def boot_state_def
      settled_def lock_free_def idle_cpu_def unlocked_def)

lemma proc_boot_list: "kmem_list proc_boot [KERNBASE + 0x101000]"
proof -
  have "kmem_list proc_boot xs = kmem_list (kfreed (KERNBASE + 0x101000) boot_state) xs" for xs
    by (simp add: kmem_list_def valid_page_def kmem_quiet_def settled_def lock_free_def
        proc_boot_def proc_state.defs kmem_state.defs)
  then show ?thesis using boot_page_list by simp
qed

theorem allocproc_spec_witness:
  "\<exists>p t. allocproc proc_boot = Ok (Some p) t \<and> p < NPROC \<and> p_state (ptable proc_boot p) = UNUSED
    \<and> p_state (ptable t p) = EMBRYO \<and> pids_ok t \<and> (\<forall>j. j \<noteq> p \<longrightarrow> ptable t j = ptable proc_boot j)
    \<and> p_kstack (ptable t p) \<in> free_pages proc_boot
    \<and> kmem_inv t \<and> free_pages t = free_pages proc_boot - {p_kstack (ptable t p)}
    \<and> read64 (mem t) (p_context (ptable t p) + context_rip) = sym_forkret proc_boot
    \<and> read64 (mem t) (p_context (ptable t p) + sizeof_context) = sym_trapret proc_boot"
proof (rule allocproc_spec [of _ 0])
  show "kmem_inv proc_boot" "free_pages proc_boot \<noteq> {}" using proc_boot_list by simp_all
qed (simp_all add: idle_proc_def pids_ok_def)

section \<open>Kill\<close>

definition killed_proc :: "proc \<Rightarrow> proc" where
  "killed_proc r = r\<lparr>p_killed := 1, p_state := (if p_state r = SLEEPING then RUNNABLE else p_state r)\<rparr>"

lemma kill_run:
  assumes "settled s" and "lock_free L_ptable s"
  shows "kill pid s = (case find_proc (\<lambda>p. p_pid p = pid) s of
    None \<Rightarrow> Ok (-1) s | Some p \<Rightarrow> Ok 0 (with_proc p killed_proc s))"
proof -
  have "(\<lambda>r. if p_state (r\<lparr>p_killed := 1\<rparr>) = SLEEPING then r\<lparr>p_killed := 1, p_state := RUNNABLE\<rparr>
      else r\<lparr>p_killed := 1\<rparr>) = killed_proc"
    by (auto simp: killed_proc_def fun_eq_iff)
  with assms show ?thesis by (auto simp: kill_def bind_def split: option.split)
qed

text \<open>
  C14: \<open>kill(pid)\<close> always returns, with 0 exactly when some slot of the process table has
  that identifier; then one such process is marked as killed and is no longer sleeping,
  and no other process changes. Otherwise nothing changes.
\<close>

theorem kill_spec:
  assumes "settled s" and "lock_free L_ptable s"
  shows "if \<exists>i<NPROC. p_pid (ptable s i) = pid
    then \<exists>p<NPROC. \<exists>t. kill pid s = Ok 0 t \<and> p_pid (ptable s p) = pid \<and> p_killed (ptable t p) = 1
      \<and> p_state (ptable t p) = (if p_state (ptable s p) = SLEEPING then RUNNABLE else p_state (ptable s p))
      \<and> (\<forall>j. j \<noteq> p \<longrightarrow> ptable t j = ptable s j)
    else kill pid s = Ok (-1) s"
proof (cases "find_proc (\<lambda>p. p_pid p = pid) s")
  case None
  then have "kill pid s = Ok (-1) s" using assms by (simp add: kill_run)
  moreover have "\<not> (\<exists>i<NPROC. p_pid (ptable s i) = pid)"
    using None by (simp add: find_proc_None)
  ultimately show ?thesis by (simp only: if_False)
next
  case (Some p)
  then have p: "p < NPROC" "p_pid (ptable s p) = pid" by (simp_all add: find_proc_Some)
  moreover have "kill pid s = Ok 0 (with_proc p killed_proc s)"
    using assms Some by (simp add: kill_run)
  ultimately show ?thesis by (auto simp: killed_proc_def)
qed

theorem kill_spec_witness:
  "if \<exists>i<NPROC. p_pid (ptable proc_boot i) = 5
    then \<exists>p<NPROC. \<exists>t. kill 5 proc_boot = Ok 0 t \<and> p_pid (ptable proc_boot p) = 5 \<and> p_killed (ptable t p) = 1
      \<and> p_state (ptable t p) =
          (if p_state (ptable proc_boot p) = SLEEPING then RUNNABLE else p_state (ptable proc_boot p))
      \<and> (\<forall>j. j \<noteq> p \<longrightarrow> ptable t j = ptable proc_boot j)
    else kill 5 proc_boot = Ok (-1) proc_boot"
  by (rule kill_spec) simp_all

text \<open>
  C15: an unused slot has process identifier 0, so \<open>kill(0)\<close> reports success and marks it,
  and the next process \<open>allocproc\<close> puts into that slot starts out killed: the mark is
  cleared when a process is reaped, not when one is created.
\<close>

theorem kill_zero_kills_newborn:
  assumes "settled s" and "lock_free L_ptable s" and "kmem_list s (k # ks)"
    and "p_state (ptable s 0) = UNUSED" and "p_pid (ptable s 0) = 0"
  shows "\<exists>t u. kill 0 s = Ok 0 t \<and> allocproc t = Ok (Some 0) u \<and> p_killed (ptable u 0) = 1"
proof -
  let ?t = "with_proc 0 killed_proc s"
  have "find_proc (\<lambda>p. p_pid p = 0) s = Some 0" using assms by (simp add: find_proc_Some)
  then have "kill 0 s = Ok 0 ?t" using assms by (simp add: kill_run)
  moreover have "find_proc (\<lambda>p. p_state p = UNUSED) ?t = Some 0"
    using assms by (simp add: find_proc_Some killed_proc_def)
  then have "allocproc ?t = Ok (Some 0) (proc_allocated 0 k ?t)"
    using assms by (intro allocproc_run) simp_all
  moreover have "p_killed (ptable (proc_allocated 0 k ?t) 0) = 1"
    by (simp add: proc_allocated_def kalloced_def killed_proc_def)
  ultimately show ?thesis by blast
qed

theorem kill_zero_kills_newborn_witness:
  "\<exists>t u. kill 0 proc_boot = Ok 0 t \<and> allocproc t = Ok (Some 0) u \<and> p_killed (ptable u 0) = 1"
  by (rule kill_zero_kills_newborn [OF _ _ proc_boot_list]) (simp_all add: idle_proc_def)

end
