(* ===== verification/Sleeplock.thy ===== *)
theory Sleeplock
  imports Proc
begin

text \<open>
  Sleep locks (\<open>sleeplock.c\<close>): the operations as a process executes them, and the protocol
  between several processes, in which a process that finds the lock taken gives up the
  processor through \<open>sleep\<close> and is made runnable by the \<open>wakeup\<close> of the releaser.
\<close>

section \<open>State and operations\<close>

record sleeplock =
  sl_locked :: uint
  sl_pid :: uint

record sleep_state = proc_state +
  sleeplocks :: "sleeplock_id \<Rightarrow> sleeplock"

definition set_sleeplock :: "sleeplock_id \<Rightarrow> (sleeplock \<Rightarrow> sleeplock) \<Rightarrow> ('z sleep_state_scheme, unit) op" where
  "set_sleeplock l f = modify (\<lambda>s. s\<lparr>sleeplocks := (sleeplocks s)(l := f (sleeplocks s l))\<rparr>)"

definition initsleeplock :: "sleeplock_id \<Rightarrow> ('z sleep_state_scheme, unit) op" where
  "initsleeplock l =
     bind (initlock (L_sleeplock l)) (\<lambda>_.
     bind (set_sleeplock l (\<lambda>k. k\<lparr>sl_locked := 0\<rparr>)) (\<lambda>_.
     set_sleeplock l (\<lambda>k. k\<lparr>sl_pid := 0\<rparr>)))"

definition acquiresleep :: "sleeplock_id \<Rightarrow> ('z sleep_state_scheme, unit) op" where
  "acquiresleep l =
     bind (acquire (L_sleeplock l)) (\<lambda>_.
     bind (gets (\<lambda>s. sl_locked (sleeplocks s l))) (\<lambda>locked.
     if locked \<noteq> 0 then sleep (ChSleepLock l) (L_sleeplock l)
     else
       bind (set_sleeplock l (\<lambda>k. k\<lparr>sl_locked := 1\<rparr>)) (\<lambda>_.
       bind (gets (\<lambda>s. this_proc s)) (\<lambda>cp. deref cp (\<lambda>p.
       bind (gets (\<lambda>s. p_pid (ptable s p))) (\<lambda>pid.
       bind (set_sleeplock l (\<lambda>k. k\<lparr>sl_pid := pid\<rparr>)) (\<lambda>_.
       release (L_sleeplock l))))))))"

definition releasesleep :: "sleeplock_id \<Rightarrow> ('z sleep_state_scheme, unit) op" where
  "releasesleep l =
     bind (acquire (L_sleeplock l)) (\<lambda>_.
     bind (set_sleeplock l (\<lambda>k. k\<lparr>sl_locked := 0\<rparr>)) (\<lambda>_.
     bind (set_sleeplock l (\<lambda>k. k\<lparr>sl_pid := 0\<rparr>)) (\<lambda>_.
     bind (wakeup (ChSleepLock l)) (\<lambda>_.
     release (L_sleeplock l)))))"

definition holdingsleep :: "sleeplock_id \<Rightarrow> ('z sleep_state_scheme, uint) op" where
  "holdingsleep l =
     bind (acquire (L_sleeplock l)) (\<lambda>_.
     bind (gets (\<lambda>s. sl_locked (sleeplocks s l))) (\<lambda>r.
     bind (release (L_sleeplock l)) (\<lambda>_.
     return r)))"

section \<open>What they compute\<close>

lemma sleep_frame [simp]:
  "(acquired lk s)\<lparr>sleeplocks := x\<rparr> = acquired lk (s\<lparr>sleeplocks := x\<rparr>)"
  "sleeplocks (acquired lk s) = sleeplocks s" "sleeplocks (woken ch s) = sleeplocks s"
  "settled (s\<lparr>sleeplocks := x\<rparr>) = settled s" "lock_free lk (s\<lparr>sleeplocks := x\<rparr>) = lock_free lk s"
  "woken ch (s\<lparr>sleeplocks := x\<rparr>) = (woken ch s)\<lparr>sleeplocks := x\<rparr>"
  by (simp_all add: acquired_def settled_def lock_free_def woken_def cong: if_cong)

definition free_sleeplock :: sleeplock where
  "free_sleeplock = \<lparr>sl_locked = 0, sl_pid = 0\<rparr>"

lemma sleeplock_update: "k\<lparr>sl_locked := a, sl_pid := b\<rparr> = \<lparr>sl_locked = a, sl_pid = b\<rparr>"
  by (cases k) simp

text \<open>
  A process in the kernel that holds no spin lock: all of them are free, and the processor
  runs a process.
\<close>

definition in_kernel :: "'z proc_state_scheme \<Rightarrow> bool" where
  "in_kernel s \<longleftrightarrow> quiet s \<and> this_proc s \<noteq> None"

definition mypid :: "'z proc_state_scheme \<Rightarrow> uint" where
  "mypid s = p_pid (ptable s (the (this_proc s)))"

lemma in_kernelD [simp]: "in_kernel s \<Longrightarrow> settled s" "in_kernel s \<Longrightarrow> lock_free lk s"
  by (simp_all add: in_kernel_def)

lemma in_kernel_frame [simp]:
  "in_kernel (s\<lparr>sleeplocks := x\<rparr>) = in_kernel s" "in_kernel (woken ch s) = in_kernel s"
  "mypid (s\<lparr>sleeplocks := x\<rparr>) = mypid s"
  by (simp_all add: in_kernel_def quiet_def mypid_def del: quietD in_kernelD)

lemma mypid_woken [simp]: "mypid (woken ch s) = mypid s"
  by (simp add: mypid_def woken_def wake1_def)

lemma acquiresleep_run:
  assumes "in_kernel s" and "sl_locked (sleeplocks s l) = 0"
  shows "acquiresleep l s =
    Ok () (s\<lparr>sleeplocks := (sleeplocks s)(l := \<lparr>sl_locked = 1, sl_pid = mypid s\<rparr>)\<rparr>)"
proof -
  obtain p where p: "this_proc s = Some p" using assms(1) by (auto simp: in_kernel_def)
  with assms show ?thesis
    by (simp add: acquiresleep_def bind_def set_sleeplock_def mypid_def sleeplock_update)
qed

lemma acquiresleep_sleeps:
  assumes "in_kernel s" and "sl_locked (sleeplocks s l) \<noteq> 0" and "c_ncli (this_cpu s) = 0"
  shows "\<exists>p. this_proc s = Some p \<and> acquiresleep l s =
    Sleep (ChSleepLock l) (acquired L_ptable (asleep (ChSleepLock l) p s))"
proof -
  obtain p where p: "this_proc s = Some p" using assms(1) by (auto simp: in_kernel_def)
  with assms show ?thesis
    by (simp add: acquiresleep_def bind_def sleep_run)
qed

lemma releasesleep_run:
  assumes "in_kernel s"
  shows "releasesleep l s =
    Ok () ((woken (ChSleepLock l) s)\<lparr>sleeplocks := (sleeplocks s)(l := free_sleeplock)\<rparr>)"
  using assms
  by (simp add: releasesleep_def bind_def set_sleeplock_def sleeplock_update free_sleeplock_def)

lemma holdingsleep_run [simp]:
  "in_kernel s \<Longrightarrow> holdingsleep l s = Ok (sl_locked (sleeplocks s l)) s"
  by (simp add: holdingsleep_def bind_def)

section \<open>The protocol between processes\<close>

text \<open>
  Any number of processes take and release one sleep lock over and over, and their steps
  interleave. A step is a critical section's worth of code: the acquisition of the inner
  spin lock or of \<open>ptable.lock\<close> (which blocks while another process holds it), or the
  statements up to the next release. The program counters:
  \<^item> \<open>S_out\<close>: before \<open>acquiresleep\<close>; \<open>S_acq\<close>: acquiring the inner lock; \<open>S_test\<close>: the loop
    test, and the assignments when the lock is free; \<open>S_rel\<close>: the final release;
  \<^item> \<open>S_pt\<close>, \<open>S_rlk\<close>, \<open>S_set\<close>, \<open>S_sched\<close>: \<open>sleep\<close> acquires \<open>ptable.lock\<close>, releases the
    inner lock, marks the process as sleeping, and switches to the scheduler, which
    releases \<open>ptable.lock\<close>; \<open>S_asleep\<close>: off the processor until the process is runnable
    and the scheduler, holding \<open>ptable.lock\<close>, switches to it; \<open>S_woken\<close>: the rest of
    \<open>sleep\<close>, which releases \<open>ptable.lock\<close> and acquires the inner lock again;
  \<^item> \<open>S_held\<close>: between \<open>acquiresleep\<close> and \<open>releasesleep\<close>; \<open>S_racq\<close>, \<open>S_clear\<close>: acquiring the
    inner lock and clearing the lock; \<open>S_wpt\<close>, \<open>S_wake\<close>: \<open>wakeup\<close> acquires \<open>ptable.lock\<close>,
    and makes the sleepers runnable and releases it; \<open>S_rrel\<close>: the final release.
\<close>

datatype slp_pc = S_out | S_acq | S_test | S_rel | S_pt | S_rlk | S_set | S_sched | S_asleep | S_woken
  | S_held | S_racq | S_clear | S_wpt | S_wake | S_rrel

record slp_state =
  q_locked :: bool
  q_inner :: "nat option"
  q_ptable :: "nat option"
  q_pc :: "nat \<Rightarrow> slp_pc"
  q_sleeping :: "nat \<Rightarrow> bool"

definition sgoto :: "nat \<Rightarrow> slp_pc \<Rightarrow> slp_state \<Rightarrow> slp_state" where
  "sgoto p pc s = s\<lparr>q_pc := (q_pc s)(p := pc)\<rparr>"

definition slp_step :: "nat \<Rightarrow> slp_state \<Rightarrow> slp_state" where
  "slp_step p s = (case q_pc s p of
     S_out \<Rightarrow> sgoto p S_acq s
   | S_acq \<Rightarrow> if q_inner s = None then sgoto p S_test (s\<lparr>q_inner := Some p\<rparr>) else s
   | S_test \<Rightarrow> if q_locked s then sgoto p S_pt s else sgoto p S_rel (s\<lparr>q_locked := True\<rparr>)
   | S_rel \<Rightarrow> sgoto p S_held (s\<lparr>q_inner := None\<rparr>)
   | S_pt \<Rightarrow> if q_ptable s = None then sgoto p S_rlk (s\<lparr>q_ptable := Some p\<rparr>) else s
   | S_rlk \<Rightarrow> sgoto p S_set (s\<lparr>q_inner := None\<rparr>)
   | S_set \<Rightarrow> sgoto p S_sched (s\<lparr>q_sleeping := (q_sleeping s)(p := True)\<rparr>)
   | S_sched \<Rightarrow> sgoto p S_asleep (s\<lparr>q_ptable := None\<rparr>)
   | S_asleep \<Rightarrow> if \<not> q_sleeping s p \<and> q_ptable s = None
       then sgoto p S_woken (s\<lparr>q_ptable := Some p\<rparr>) else s
   | S_woken \<Rightarrow> sgoto p S_acq (s\<lparr>q_ptable := None\<rparr>)
   | S_held \<Rightarrow> sgoto p S_racq s
   | S_racq \<Rightarrow> if q_inner s = None then sgoto p S_clear (s\<lparr>q_inner := Some p\<rparr>) else s
   | S_clear \<Rightarrow> sgoto p S_wpt (s\<lparr>q_locked := False\<rparr>)
   | S_wpt \<Rightarrow> if q_ptable s = None then sgoto p S_wake (s\<lparr>q_ptable := Some p\<rparr>) else s
   | S_wake \<Rightarrow> sgoto p S_rrel (s\<lparr>q_ptable := None, q_sleeping := (\<lambda>_. False)\<rparr>)
   | S_rrel \<Rightarrow> sgoto p S_out (s\<lparr>q_inner := None\<rparr>))"

inductive slp_rel :: "slp_state \<Rightarrow> slp_state \<Rightarrow> bool" where
  slp_rel: "slp_rel s (slp_step p s)"

definition slp_init :: "slp_state \<Rightarrow> bool" where
  "slp_init s \<longleftrightarrow> \<not> q_locked s \<and> q_inner s = None \<and> q_ptable s = None
     \<and> (\<forall>p. q_pc s p = S_out) \<and> (\<forall>p. \<not> q_sleeping s p)"

fun has_inner :: "slp_pc \<Rightarrow> bool" where
  "has_inner S_test = True"
| "has_inner S_rel = True"
| "has_inner S_pt = True"
| "has_inner S_rlk = True"
| "has_inner S_clear = True"
| "has_inner S_wpt = True"
| "has_inner S_wake = True"
| "has_inner S_rrel = True"
| "has_inner _ = False"

fun has_ptable :: "slp_pc \<Rightarrow> bool" where
  "has_ptable S_rlk = True"
| "has_ptable S_set = True"
| "has_ptable S_sched = True"
| "has_ptable S_woken = True"
| "has_ptable S_wake = True"
| "has_ptable _ = False"

fun has_lock :: "slp_pc \<Rightarrow> bool" where
  "has_lock S_rel = True"
| "has_lock S_held = True"
| "has_lock S_racq = True"
| "has_lock S_clear = True"
| "has_lock _ = False"

text \<open>A process on its way to sleep, or asleep and not yet woken, waits for a wakeup.\<close>

definition waits :: "slp_state \<Rightarrow> nat \<Rightarrow> bool" where
  "waits s p \<longleftrightarrow> q_pc s p \<in> {S_pt, S_rlk, S_set, S_sched} \<or> q_pc s p = S_asleep \<and> q_sleeping s p"

definition slp_owned :: "nat option \<Rightarrow> slp_state \<Rightarrow> bool" where
  "slp_owned ow s \<longleftrightarrow>
     (\<forall>p. has_inner (q_pc s p) \<longleftrightarrow> q_inner s = Some p)
     \<and> (\<forall>p. has_ptable (q_pc s p) \<longleftrightarrow> q_ptable s = Some p)
     \<and> (\<forall>p. has_lock (q_pc s p) \<longleftrightarrow> ow = Some p) \<and> (q_locked s \<longleftrightarrow> ow \<noteq> None)
     \<and> (\<forall>p. waits s p \<longrightarrow> q_locked s \<or> (\<exists>q. q_pc s q = S_wpt \<or> q_pc s q = S_wake))"

definition slp_inv :: "slp_state \<Rightarrow> bool" where
  "slp_inv s \<longleftrightarrow> (\<exists>ow. slp_owned ow s)"

definition slp_next :: "nat \<Rightarrow> slp_state \<Rightarrow> nat option \<Rightarrow> nat option" where
  "slp_next p s ow = (case q_pc s p of S_test \<Rightarrow> if q_locked s then ow else Some p
     | S_clear \<Rightarrow> None | _ \<Rightarrow> ow)"

lemma slp_step_locks:
  assumes "slp_owned ow s"
  shows "\<forall>q. has_inner (q_pc (slp_step p s) q) \<longleftrightarrow> q_inner (slp_step p s) = Some q"
    and "\<forall>q. has_ptable (q_pc (slp_step p s) q) \<longleftrightarrow> q_ptable (slp_step p s) = Some q"
    and "\<forall>q. has_lock (q_pc (slp_step p s) q) \<longleftrightarrow> slp_next p s ow = Some q"
    and "q_locked (slp_step p s) \<longleftrightarrow> slp_next p s ow \<noteq> None"
proof -
  have a: "has_inner (q_pc s q) \<longleftrightarrow> q_inner s = Some q" "has_ptable (q_pc s q) \<longleftrightarrow> q_ptable s = Some q"
    "has_lock (q_pc s q) \<longleftrightarrow> ow = Some q" "q_locked s \<longleftrightarrow> ow \<noteq> None" for q
    using assms by (auto simp: slp_owned_def)
  show "\<forall>q. has_inner (q_pc (slp_step p s) q) \<longleftrightarrow> q_inner (slp_step p s) = Some q"
    using a(1) [of p] a(1) by (cases "q_pc s p") (auto simp: slp_step_def sgoto_def)
  show "\<forall>q. has_ptable (q_pc (slp_step p s) q) \<longleftrightarrow> q_ptable (slp_step p s) = Some q"
    using a(2) [of p] a(2) by (cases "q_pc s p") (auto simp: slp_step_def sgoto_def)
  show "\<forall>q. has_lock (q_pc (slp_step p s) q) \<longleftrightarrow> slp_next p s ow = Some q"
    using a(3) [of p] a(3) a(4) by (cases "q_pc s p") (auto simp: slp_step_def sgoto_def slp_next_def)
  show "q_locked (slp_step p s) \<longleftrightarrow> slp_next p s ow \<noteq> None"
    using a(3) [of p] a(4) by (cases "q_pc s p") (auto simp: slp_step_def sgoto_def slp_next_def)
qed

lemma slp_step_waits:
  assumes inv: "slp_owned ow s" and w: "waits (slp_step p s) r"
  shows "q_locked (slp_step p s) \<or> (\<exists>q. q_pc (slp_step p s) q = S_wpt \<or> q_pc (slp_step p s) q = S_wake)"
proof -
  have inner: "has_inner (q_pc s q) \<longleftrightarrow> q_inner s = Some q"
    and pt: "has_ptable (q_pc s q) \<longleftrightarrow> q_ptable s = Some q" for q
    using inv by (simp_all add: slp_owned_def)
  have old: "waits s r \<Longrightarrow> q_locked s \<or> (\<exists>q. q_pc s q = S_wpt \<or> q_pc s q = S_wake)"
    using inv unfolding slp_owned_def by blast
  have other_pc: "q_pc (slp_step p s) q = q_pc s q" if "q \<noteq> p" for q
    using that by (cases "q_pc s p") (auto simp: slp_step_def sgoto_def)
  consider "q_pc s p = S_wake" | "q_pc s p = S_clear" | "q_pc s p = S_wpt"
    | (other) "q_pc s p \<notin> {S_wake, S_clear, S_wpt}" by blast
  then show ?thesis
  proof cases
    case 1
    then have "q_inner s = Some p" "q_ptable s = Some p" using inner [of p] pt [of p] by simp_all
    then have "\<not> has_inner (q_pc s r) \<and> \<not> has_ptable (q_pc s r)" if "r \<noteq> p"
      using that inner [of r] pt [of r] by simp
    with 1 w show ?thesis
      by (cases "r = p"; cases "q_pc s r") (simp_all add: waits_def slp_step_def sgoto_def)
  next
    case 2
    then have "q_pc (slp_step p s) p = S_wpt \<or> q_pc (slp_step p s) p = S_wake"
      by (simp add: slp_step_def sgoto_def)
    then show ?thesis by blast
  next
    case 3
    then have "q_pc (slp_step p s) p = S_wpt \<or> q_pc (slp_step p s) p = S_wake"
      by (simp add: slp_step_def sgoto_def)
    then show ?thesis by blast
  next
    case other
    then have "q_locked s \<Longrightarrow> q_locked (slp_step p s)"
      by (cases "q_pc s p") (simp_all add: slp_step_def sgoto_def)
    moreover have "waits s r \<or> q_locked (slp_step p s)"
    proof (cases "r = p")
      case True
      with w other show ?thesis
        by (cases "q_pc s p") (simp_all add: waits_def slp_step_def sgoto_def split: if_splits)
    next
      case False
      then have "q_sleeping (slp_step p s) r = q_sleeping s r"
        using other by (cases "q_pc s p") (simp_all add: slp_step_def sgoto_def)
      with w other_pc [OF False] show ?thesis by (simp add: waits_def)
    qed
    moreover have "q \<noteq> p" if "q_pc s q = S_wpt \<or> q_pc s q = S_wake" for q
      using other that by auto
    ultimately show ?thesis using old other_pc by metis
  qed
qed

interpretation slp: invariant_system slp_init slp_rel slp_inv
proof
  show "slp_inv s" if "slp_init s" for s
    using that by (auto simp: slp_init_def slp_inv_def slp_owned_def waits_def intro!: exI [of _ None])
  show "slp_inv t" if "slp_inv s" "slp_rel s t" for s t
  proof -
    from that obtain ow p where o: "slp_owned ow s" and t: "t = slp_step p s"
      by (auto simp: slp_inv_def elim: slp_rel.cases)
    then have "slp_owned (slp_next p s ow) t"
      unfolding slp_owned_def using slp_step_locks [OF o, of p] slp_step_waits [OF o] by blast
    then show ?thesis by (auto simp: slp_inv_def)
  qed
qed

text \<open>
  C4: Sleep locks exclude each other and lose no wakeup. However the steps of any number
  of processes interleave, at most one of them is between taking and clearing the lock;
  and a process that sleeps, or is on its way to sleep, does so only while the lock is
  held or while a releaser that has cleared it is still about to make the sleepers
  runnable.
\<close>

theorem sleeplock_exclusion_no_lost_wakeup:
  "reach slp_init slp_rel s \<Longrightarrow>
     (\<forall>a b. has_lock (q_pc s a) \<and> has_lock (q_pc s b) \<longrightarrow> a = b) \<and>
     (\<forall>a. waits s a \<longrightarrow> (\<exists>b. has_lock (q_pc s b) \<or> q_pc s b = S_wpt \<or> q_pc s b = S_wake))"
proof -
  assume "reach slp_init slp_rel s"
  then obtain ow where ow: "slp_owned ow s"
    using slp.reachable_inv slp_inv_def by blast
  have "a = b" if "has_lock (q_pc s a)" "has_lock (q_pc s b)" for a b
    using ow that by (simp add: slp_owned_def)
  moreover have "\<exists>b. has_lock (q_pc s b) \<or> q_pc s b = S_wpt \<or> q_pc s b = S_wake" if "waits s a" for a
  proof -
    have "q_locked s \<or> (\<exists>q. q_pc s q = S_wpt \<or> q_pc s q = S_wake)"
      using ow that unfolding slp_owned_def by blast
    moreover have "\<exists>b. has_lock (q_pc s b)" if "q_locked s"
      using ow that unfolding slp_owned_def by auto
    ultimately show ?thesis by blast
  qed
  ultimately show ?thesis by blast
qed

definition slp_start :: slp_state where
  "slp_start = \<lparr>q_locked = False, q_inner = None, q_ptable = None, q_pc = (\<lambda>_. S_out),
     q_sleeping = (\<lambda>_. False)\<rparr>"

text \<open>Process 0 takes the lock, process 1 finds it taken and goes to sleep.\<close>

definition slp_contended :: slp_state where
  "slp_contended = fold slp_step [0, 0, 0, 0, 1, 1, 1, 1, 1, 1, 1] slp_start"

lemma slp_contended_reach: "reach slp_init slp_rel slp_contended"
proof -
  have "reach slp_init slp_rel (fold slp_step ps s)" if "reach slp_init slp_rel s" for ps s
    using that by (induction ps arbitrary: s) (auto intro: reach_step slp_rel)
  moreover have "reach slp_init slp_rel slp_start"
    by (rule reach_init) (simp add: slp_init_def slp_start_def)
  ultimately show ?thesis unfolding slp_contended_def by blast
qed

lemma slp_contended_pcs:
  "q_pc slp_contended 0 = S_held" "q_pc slp_contended 1 = S_asleep \<and> q_sleeping slp_contended 1"
  by code_simp+

theorem sleeplock_exclusion_no_lost_wakeup_witness:
  "q_pc slp_contended 0 = S_held \<and> waits slp_contended 1 \<and> {a. has_lock (q_pc slp_contended a)} = {0}
   \<and> (\<exists>b. has_lock (q_pc slp_contended b) \<or> q_pc slp_contended b = S_wpt \<or> q_pc slp_contended b = S_wake)"
proof -
  have "waits slp_contended 1" unfolding waits_def using slp_contended_pcs(2) by blast
  moreover have "has_lock (q_pc slp_contended 0)" by (simp add: slp_contended_pcs(1))
  ultimately show ?thesis
    using sleeplock_exclusion_no_lost_wakeup [OF slp_contended_reach] slp_contended_pcs(1) by blast
qed

end
