(* ===== verification/Ide.thy ===== *)
theory Ide
  imports Sleeplock
begin

text \<open>
  The disk drivers: \<open>ide.c\<close>, which queues buffers, programs the disk through its ports and
  completes a request in the interrupt handler, and \<open>memide.c\<close>, which keeps the blocks in
  memory.
\<close>

section \<open>Buffers and the disk\<close>

text \<open>
  A pointer to a buffer is its index in \<open>bcache.buf\<close>; the index \<open>NBUF\<close> stands for the list
  head \<open>bcache.head\<close>. The sleep lock of buffer \<open>i\<close> is \<open>SL_buf i\<close>.
\<close>

record buf =
  b_flags :: uint
  b_dev :: uint
  b_blockno :: uint
  b_refcnt :: uint
  b_prev :: nat
  b_next :: nat
  b_qnext :: "nat option"
  b_data :: block

definition B_VALID :: uint where "B_VALID = 0x2"
definition B_DIRTY :: uint where "B_DIRTY = 0x4"

text \<open>
  The task file registers of the disk controller (ports \<open>0x1f2\<close> to \<open>0x1f7\<close>). A command names
  the drive and the sector through them; a write command stores the data that follows
  in that sector, a read command delivers the sector's content. \<open>dtrace\<close> records the
  sectors in the order in which they are written.
\<close>

record ata =
  a_control :: uchar
  a_count :: uchar
  a_lba0 :: uchar
  a_lba1 :: uchar
  a_lba2 :: uchar
  a_drive :: uchar
  a_cmd :: uchar

definition ata_sector :: "ata \<Rightarrow> nat" where
  "ata_sector a = unat (a_lba0 a) + 2 ^ 8 * unat (a_lba1 a) + 2 ^ 16 * unat (a_lba2 a)
     + 2 ^ 24 * unat (a_drive a AND 0x0f)"

definition ata_unit :: "ata \<Rightarrow> bool" where
  "ata_unit a \<longleftrightarrow> bit (a_drive a) 4"

record ide_state = sleep_state +
  bufs :: "nat \<Rightarrow> buf"
  idequeue :: "nat option"
  havedisk1 :: bool
  ata :: ata
  ata_status :: uchar
  disk :: "bool \<Rightarrow> nat \<Rightarrow> block"
  dtrace :: "(bool \<times> nat \<times> block) list"

definition with_buf :: "nat \<Rightarrow> (buf \<Rightarrow> buf) \<Rightarrow> 'z ide_state_scheme \<Rightarrow> 'z ide_state_scheme" where
  "with_buf i f s = s\<lparr>bufs := (bufs s)(i := f (bufs s i))\<rparr>"

abbreviation set_buf :: "nat \<Rightarrow> (buf \<Rightarrow> buf) \<Rightarrow> ('z ide_state_scheme, unit) op" where
  "set_buf i f \<equiv> modify (with_buf i f)"

abbreviation get_buf :: "nat \<Rightarrow> ('z ide_state_scheme, buf) op" where
  "get_buf i \<equiv> gets (\<lambda>s. bufs s i)"

section \<open>The controller\<close>

definition outb :: "nat \<Rightarrow> uchar \<Rightarrow> ('z ide_state_scheme, unit) op" where
  "outb port v = modify (\<lambda>s. s\<lparr>ata := (
     if port = 0x3f6 then (ata s)\<lparr>a_control := v\<rparr>
     else if port = 0x1f2 then (ata s)\<lparr>a_count := v\<rparr>
     else if port = 0x1f3 then (ata s)\<lparr>a_lba0 := v\<rparr>
     else if port = 0x1f4 then (ata s)\<lparr>a_lba1 := v\<rparr>
     else if port = 0x1f5 then (ata s)\<lparr>a_lba2 := v\<rparr>
     else if port = 0x1f6 then (ata s)\<lparr>a_drive := v\<rparr>
     else if port = 0x1f7 then (ata s)\<lparr>a_cmd := v\<rparr>
     else ata s)\<rparr>)"

definition IDE_BSY :: uchar where "IDE_BSY = 0x80"
definition IDE_DRDY :: uchar where "IDE_DRDY = 0x40"
definition IDE_DF :: uchar where "IDE_DF = 0x20"
definition IDE_ERR :: uchar where "IDE_ERR = 0x01"
definition IDE_CMD_READ :: uchar where "IDE_CMD_READ = 0x20"
definition IDE_CMD_WRITE :: uchar where "IDE_CMD_WRITE = 0x30"
definition IDE_CMD_RDMUL :: uchar where "IDE_CMD_RDMUL = 0xc4"
definition IDE_CMD_WRMUL :: uchar where "IDE_CMD_WRMUL = 0xc5"

definition outsl :: "block \<Rightarrow> ('z ide_state_scheme, unit) op" where
  "outsl d = modify (\<lambda>s. let u = ata_unit (ata s); n = ata_sector (ata s) in
     if a_cmd (ata s) = IDE_CMD_WRITE
     then s\<lparr>disk := (disk s)(u := (disk s u)(n := d)), dtrace := dtrace s @ [(u, n, d)]\<rparr>
     else s)"

definition insl :: "('z ide_state_scheme, block) op" where
  "insl = gets (\<lambda>s. disk s (ata_unit (ata s)) (ata_sector (ata s)))"

section \<open>ide.c\<close>

text \<open>
  \<open>ata_status\<close> is what the status port reads once the disk is ready; if it never gets
  ready the loop does not end.
\<close>

definition idewait :: "bool \<Rightarrow> ('z ide_state_scheme, int) op" where
  "idewait checkerr =
     bind (gets ata_status) (\<lambda>r.
     if r AND (IDE_BSY OR IDE_DRDY) \<noteq> IDE_DRDY then (\<lambda>s. Diverge)
     else if checkerr \<and> r AND (IDE_DF OR IDE_ERR) \<noteq> 0 then return (-1)
     else return 0)"

text \<open>
  \<open>BSIZE/SECTOR_SIZE\<close> is 1. The pointer test of \<open>idestart\<close> is the case \<open>None\<close>.
\<close>

definition idestart :: "nat option \<Rightarrow> ('z ide_state_scheme, unit) op" where
  "idestart bp = (case bp of None \<Rightarrow> panic ''idestart'' | Some i \<Rightarrow>
     bind (get_buf i) (\<lambda>b.
     bind (panic_if (unat (b_blockno b) \<ge> FSSIZE) ''incorrect blockno'') (\<lambda>_.
     let sector_per_block = 1;
         sector = b_blockno b * sector_per_block;
         read_cmd = (if sector_per_block = 1 then IDE_CMD_READ else IDE_CMD_RDMUL);
         write_cmd = (if sector_per_block = 1 then IDE_CMD_WRITE else IDE_CMD_WRMUL)
     in
     bind (panic_if (sector_per_block > 7) ''idestart'') (\<lambda>_.
     bind (idewait False) (\<lambda>_.
     bind (outb 0x3f6 0) (\<lambda>_.
     bind (outb 0x1f2 (ucast sector_per_block)) (\<lambda>_.
     bind (outb 0x1f3 (ucast (sector AND 0xff))) (\<lambda>_.
     bind (outb 0x1f4 (ucast (drop_bit 8 sector AND 0xff))) (\<lambda>_.
     bind (outb 0x1f5 (ucast (drop_bit 16 sector AND 0xff))) (\<lambda>_.
     bind (outb 0x1f6 (ucast (0xe0 OR push_bit 4 (b_dev b AND 1) OR (drop_bit 24 sector AND 0x0f)))) (\<lambda>_.
     if b_flags b AND B_DIRTY \<noteq> 0
     then bind (outb 0x1f7 write_cmd) (\<lambda>_. outsl (b_data b))
     else outb 0x1f7 read_cmd)))))))))))"

definition ideintr :: "('z ide_state_scheme, unit) op" where
  "ideintr =
     bind (acquire L_ide) (\<lambda>_.
     bind (gets idequeue) (\<lambda>q.
     case q of
       None \<Rightarrow> release L_ide
     | Some i \<Rightarrow>
       bind (modify (\<lambda>s. s\<lparr>idequeue := b_qnext (bufs s i)\<rparr>)) (\<lambda>_.
       bind (get_buf i) (\<lambda>b.
       bind (if b_flags b AND B_DIRTY = 0
             then bind (idewait True) (\<lambda>r.
                  if r \<ge> 0 then bind insl (\<lambda>d. set_buf i (\<lambda>b. b\<lparr>b_data := d\<rparr>)) else return ())
             else return ()) (\<lambda>_.
       bind (set_buf i (\<lambda>b. b\<lparr>b_flags := b_flags b OR B_VALID\<rparr>)) (\<lambda>_.
       bind (set_buf i (\<lambda>b. b\<lparr>b_flags := b_flags b AND NOT B_DIRTY\<rparr>)) (\<lambda>_.
       bind (wakeup (ChBuf i)) (\<lambda>_.
       bind (gets idequeue) (\<lambda>q.
       bind (if q \<noteq> None then idestart q else return ()) (\<lambda>_.
       release L_ide))))))))))"

text \<open>
  The loop that looks for the last buffer of the queue; a queue without a cycle has at
  most \<open>NBUF\<close> buffers.
\<close>

fun queue_last :: "nat \<Rightarrow> (nat \<Rightarrow> buf) \<Rightarrow> nat \<Rightarrow> nat option" where
  "queue_last 0 bs i = None"
| "queue_last (Suc fuel) bs i = (case b_qnext (bs i) of None \<Rightarrow> Some i | Some j \<Rightarrow> queue_last fuel bs j)"

definition iderw_append :: "nat \<Rightarrow> ('z ide_state_scheme, unit) op" where
  "iderw_append i =
     bind (set_buf i (\<lambda>b. b\<lparr>b_qnext := None\<rparr>)) (\<lambda>_.
     bind (gets idequeue) (\<lambda>q.
     case q of
       None \<Rightarrow> modify (\<lambda>s. s\<lparr>idequeue := Some i\<rparr>)
     | Some j \<Rightarrow> bind (gets (\<lambda>s. queue_last (Suc NBUF) (bufs s) j)) (\<lambda>l.
         case l of None \<Rightarrow> (\<lambda>s. Diverge)
         | Some l \<Rightarrow> set_buf l (\<lambda>b. b\<lparr>b_qnext := Some i\<rparr>))))"

text \<open>
  The waiting loop. A process that sleeps on its buffer has released \<open>idelock\<close>; what
  happens next to the queue is the interrupt that completes its first request, so the
  loop runs the interrupt handler where the process sleeps. Every interrupt takes one
  buffer off the queue, which bounds the number of rounds.
\<close>

fun iderw_wait :: "nat \<Rightarrow> nat \<Rightarrow> ('z ide_state_scheme, unit) op" where
  "iderw_wait 0 i = (\<lambda>s. Diverge)"
| "iderw_wait (Suc fuel) i =
     bind (get_buf i) (\<lambda>b.
     if b_flags b AND (B_VALID OR B_DIRTY) \<noteq> B_VALID
     then bind (release L_ide) (\<lambda>_. bind ideintr (\<lambda>_. bind (acquire L_ide) (\<lambda>_. iderw_wait fuel i)))
     else return ())"

definition iderw :: "nat \<Rightarrow> ('z ide_state_scheme, unit) op" where
  "iderw i =
     bind (holdingsleep (SL_buf i)) (\<lambda>h.
     bind (panic_if (h = 0) ''iderw: buf not locked'') (\<lambda>_.
     bind (get_buf i) (\<lambda>b.
     bind (panic_if (b_flags b AND (B_VALID OR B_DIRTY) = B_VALID) ''iderw: nothing to do'') (\<lambda>_.
     bind (gets havedisk1) (\<lambda>h1.
     bind (panic_if (b_dev b \<noteq> 0 \<and> \<not> h1) ''iderw: ide disk 1 not present'') (\<lambda>_.
     bind (acquire L_ide) (\<lambda>_.
     bind (iderw_append i) (\<lambda>_.
     bind (gets idequeue) (\<lambda>q.
     bind (if q = Some i then idestart (Some i) else return ()) (\<lambda>_.
     bind (iderw_wait (Suc (Suc NBUF)) i) (\<lambda>_.
     release L_ide)))))))))))"

section \<open>memide.c\<close>

definition memide_iderw :: "uint \<Rightarrow> nat \<Rightarrow> ('z ide_state_scheme, unit) op" where
  "memide_iderw disksize i =
     bind (holdingsleep (SL_buf i)) (\<lambda>h.
     bind (panic_if (h = 0) ''iderw: buf not locked'') (\<lambda>_.
     bind (get_buf i) (\<lambda>b.
     bind (panic_if (b_flags b AND (B_VALID OR B_DIRTY) = B_VALID) ''iderw: nothing to do'') (\<lambda>_.
     bind (panic_if (b_dev b \<noteq> 1) ''iderw: request not for disk 1'') (\<lambda>_.
     bind (panic_if (b_blockno b \<ge> disksize) ''iderw: block out of range'') (\<lambda>_.
     let n = unat (b_blockno b) in
     bind (if b_flags b AND B_DIRTY \<noteq> 0
           then bind (set_buf i (\<lambda>b. b\<lparr>b_flags := b_flags b AND NOT B_DIRTY\<rparr>)) (\<lambda>_.
                modify (\<lambda>s. s\<lparr>disk := (disk s)(True := (disk s True)(n := b_data b)),
                          dtrace := dtrace s @ [(True, n, b_data b)]\<rparr>))
           else bind (gets (\<lambda>s. disk s True n)) (\<lambda>d. set_buf i (\<lambda>b. b\<lparr>b_data := d\<rparr>))) (\<lambda>_.
     set_buf i (\<lambda>b. b\<lparr>b_flags := b_flags b OR B_VALID\<rparr>))))))))"

section \<open>Frame rules\<close>

lemma ide_frame [simp]:
  "(acquired lk s)\<lparr>bufs := x\<rparr> = acquired lk (s\<lparr>bufs := x\<rparr>)"
  "(acquired lk s)\<lparr>idequeue := q\<rparr> = acquired lk (s\<lparr>idequeue := q\<rparr>)"
  "(acquired lk s)\<lparr>ata := a\<rparr> = acquired lk (s\<lparr>ata := a\<rparr>)"
  "(acquired lk s)\<lparr>disk := d\<rparr> = acquired lk (s\<lparr>disk := d\<rparr>)"
  "(acquired lk s)\<lparr>dtrace := tr\<rparr> = acquired lk (s\<lparr>dtrace := tr\<rparr>)"
  "bufs (acquired lk s) = bufs s" "idequeue (acquired lk s) = idequeue s"
  "havedisk1 (acquired lk s) = havedisk1 s" "ata (acquired lk s) = ata s"
  "ata_status (acquired lk s) = ata_status s" "disk (acquired lk s) = disk s"
  "dtrace (acquired lk s) = dtrace s"
  by (simp_all add: acquired_def)

lemma ide_frame_woken [simp]:
  "bufs (woken ch s) = bufs s" "idequeue (woken ch s) = idequeue s"
  "havedisk1 (woken ch s) = havedisk1 s" "ata (woken ch s) = ata s"
  "ata_status (woken ch s) = ata_status s" "disk (woken ch s) = disk s"
  "dtrace (woken ch s) = dtrace s"
  by (simp_all add: woken_def)

lemma ide_frame_locks [simp]:
  "settled (s\<lparr>bufs := x\<rparr>) = settled s" "lock_free lk (s\<lparr>bufs := x\<rparr>) = lock_free lk s"
  "settled (s\<lparr>idequeue := q\<rparr>) = settled s" "lock_free lk (s\<lparr>idequeue := q\<rparr>) = lock_free lk s"
  "settled (s\<lparr>ata := a\<rparr>) = settled s" "lock_free lk (s\<lparr>ata := a\<rparr>) = lock_free lk s"
  "settled (s\<lparr>disk := d\<rparr>) = settled s" "lock_free lk (s\<lparr>disk := d\<rparr>) = lock_free lk s"
  "settled (s\<lparr>dtrace := tr\<rparr>) = settled s" "lock_free lk (s\<lparr>dtrace := tr\<rparr>) = lock_free lk s"
  by (simp_all add: settled_def lock_free_def)

lemma ide_frame_kernel [simp]:
  "in_kernel (s\<lparr>bufs := x\<rparr>) = in_kernel s" "in_kernel (s\<lparr>idequeue := q\<rparr>) = in_kernel s"
  "in_kernel (s\<lparr>ata := a\<rparr>) = in_kernel s" "in_kernel (s\<lparr>disk := d\<rparr>) = in_kernel s"
  "in_kernel (s\<lparr>dtrace := tr\<rparr>) = in_kernel s"
  by (simp_all add: in_kernel_def quiet_def del: quietD in_kernelD)

lemma with_buf_simps [simp]:
  "bufs (with_buf i f s) = (bufs s)(i := f (bufs s i))"
  "with_buf i f (acquired lk s) = acquired lk (with_buf i f s)"
  "settled (with_buf i f s) = settled s" "lock_free lk (with_buf i f s) = lock_free lk s"
  "in_kernel (with_buf i f s) = in_kernel s" "sleeplocks (with_buf i f s) = sleeplocks s"
  "idequeue (with_buf i f s) = idequeue s" "ata (with_buf i f s) = ata s"
  "ata_status (with_buf i f s) = ata_status s" "disk (with_buf i f s) = disk s"
  "dtrace (with_buf i f s) = dtrace s" "havedisk1 (with_buf i f s) = havedisk1 s"
  by (simp_all add: with_buf_def)

section \<open>Programming the disk\<close>

definition ide_task :: "buf \<Rightarrow> ata" where
  "ide_task b = \<lparr>a_control = 0, a_count = 1,
     a_lba0 = ucast (b_blockno b AND 0xff),
     a_lba1 = ucast (drop_bit 8 (b_blockno b) AND 0xff),
     a_lba2 = ucast (drop_bit 16 (b_blockno b) AND 0xff),
     a_drive = ucast (0xe0 OR push_bit 4 (b_dev b AND 1) OR (drop_bit 24 (b_blockno b) AND 0x0f)),
     a_cmd = (if b_flags b AND B_DIRTY \<noteq> 0 then IDE_CMD_WRITE else IDE_CMD_READ)\<rparr>"

lemma ata_update_all:
  "a\<lparr>a_control := x0, a_count := x1, a_lba0 := x2, a_lba1 := x3, a_lba2 := x4, a_drive := x5, a_cmd := x6\<rparr> =
   \<lparr>a_control = x0, a_count = x1, a_lba0 = x2, a_lba1 = x3, a_lba2 = x4, a_drive = x5, a_cmd = x6\<rparr>"
  by (cases a) simp

lemma byte_lt8: "(n :: nat) < 8 \<longleftrightarrow> n = 0 \<or> n = 1 \<or> n = 2 \<or> n = 3 \<or> n = 4 \<or> n = 5 \<or> n = 6 \<or> n = 7"
  by auto

lemma drive_low:
  "(ucast (0xe0 OR push_bit 4 (d AND 1) OR (x AND 0x0f) :: uint) :: uchar) AND 0x0f = ucast (x AND 0x0f)"
  by (rule bit_word_eqI) (auto simp: bit_simps byte_lt8)

lemma drive_unit:
  "bit (ucast (0xe0 OR push_bit 4 (d AND 1) OR (x AND 0x0f) :: uint) :: uchar) 4 \<longleftrightarrow> bit d 0"
  by (simp add: bit_simps)

lemma ide_task_unit: "ata_unit (ide_task b) = bit (b_dev b) 0"
  unfolding ata_unit_def ide_task_def ata.simps by (rule drive_unit)

lemma unat_low_bits:
  "unat (ucast (x AND 0xff :: uint) :: uchar) = unat x mod 256"
  "unat (ucast (x AND 0x0f :: uint) :: uchar) = unat x mod 16"
proof -
  have "unat (x AND 0xff) = unat x mod 256" "unat (x AND 0x0f) = unat x mod 16"
    using unat_and_mask [of x 8] unat_and_mask [of x 4] by (simp_all add: mask_eq_exp_minus_1)
  then show "unat (ucast (x AND 0xff :: uint) :: uchar) = unat x mod 256"
    "unat (ucast (x AND 0x0f :: uint) :: uchar) = unat x mod 16"
    by (simp_all only: unsigned_ucast_eq take_bit_eq_mod) simp_all
qed

lemma ide_task_sector:
  assumes "unat (b_blockno b) < 2 ^ 28"
  shows "ata_sector (ide_task b) = unat (b_blockno b)"
proof -
  let ?n = "unat (b_blockno b)"
  define q1 q2 q3 where "q1 = ?n div 256" and "q2 = q1 div 256" and "q3 = q2 div 256"
  have q: "?n div 2 ^ 8 = q1" "?n div 2 ^ 16 = q2" "?n div 2 ^ 24 = q3"
    by (simp_all add: q1_def q2_def q3_def div_mult2_eq [symmetric])
  have "q3 < 16" using assms q(3) by (simp add: less_mult_imp_div_less flip: q(3))
  have "ata_sector (ide_task b) = ?n mod 256 + 2 ^ 8 * (?n div 2 ^ 8 mod 256)
      + 2 ^ 16 * (?n div 2 ^ 16 mod 256) + 2 ^ 24 * (?n div 2 ^ 24 mod 16)"
    unfolding ata_sector_def ide_task_def ata.simps drive_low unat_low_bits unat_drop_bit ..
  also have "\<dots> = ?n mod 256 + 256 * (q1 mod 256) + 65536 * (q2 mod 256) + 16777216 * q3"
    unfolding q using \<open>q3 < 16\<close> by simp
  also have "\<dots> = ?n"
    using mod_mult_div_eq [of ?n 256] mod_mult_div_eq [of q1 256] mod_mult_div_eq [of q2 256]
    unfolding q1_def [symmetric] q2_def [symmetric] q3_def [symmetric] by linarith
  finally show ?thesis .
qed

subsection \<open>Flags\<close>

lemma bit_flags [flag_simps]: "bit B_VALID n \<longleftrightarrow> n = Suc 0" "bit B_DIRTY n \<longleftrightarrow> n = 2"
proof -
  have e: "B_VALID = 2 ^ 1" "B_DIRTY = 2 ^ 2" by (simp_all add: B_VALID_def B_DIRTY_def)
  show "bit B_VALID n \<longleftrightarrow> n = Suc 0" "bit B_DIRTY n \<longleftrightarrow> n = 2"
    unfolding e bit_exp_iff by auto
qed

lemma flag_tests [flag_simps]:
  "f AND B_DIRTY = 0 \<longleftrightarrow> \<not> bit f 2" "f AND B_VALID = 0 \<longleftrightarrow> \<not> bit f (Suc 0)"
  "f AND (B_VALID OR B_DIRTY) = B_VALID \<longleftrightarrow> bit f (Suc 0) \<and> \<not> bit f 2"
proof -
  note bits = bit_and_iff bit_or_iff bit_flags
  show "f AND B_DIRTY = 0 \<longleftrightarrow> \<not> bit f 2"
  proof
    assume "f AND B_DIRTY = 0"
    then have "\<not> bit (f AND B_DIRTY) 2" by simp
    then show "\<not> bit f 2" by (simp add: bits)
  qed (rule bit_word_eqI, auto simp: bits)
  show "f AND B_VALID = 0 \<longleftrightarrow> \<not> bit f (Suc 0)"
  proof
    assume "f AND B_VALID = 0"
    then have "\<not> bit (f AND B_VALID) (Suc 0)" by simp
    then show "\<not> bit f (Suc 0)" by (simp add: bits)
  qed (rule bit_word_eqI, auto simp: bits)
  show "f AND (B_VALID OR B_DIRTY) = B_VALID \<longleftrightarrow> bit f (Suc 0) \<and> \<not> bit f 2"
  proof
    assume "f AND (B_VALID OR B_DIRTY) = B_VALID"
    then have "bit (f AND (B_VALID OR B_DIRTY)) n = bit B_VALID n" for n by simp
    from this [of "Suc 0"] this [of 2] show "bit f (Suc 0) \<and> \<not> bit f 2" by (simp add: bits)
  qed (rule bit_word_eqI, auto simp: bits)
qed

abbreviation is_valid :: "buf \<Rightarrow> bool" where "is_valid b \<equiv> bit (b_flags b) (Suc 0)"
abbreviation is_dirty :: "buf \<Rightarrow> bool" where "is_dirty b \<equiv> bit (b_flags b) 2"

definition synced_flags :: "uint \<Rightarrow> uint" where
  "synced_flags f = (f OR B_VALID) AND NOT B_DIRTY"

lemma bit_synced_flags [simp]: "bit (synced_flags f) (Suc 0)" "\<not> bit (synced_flags f) 2"
  by (simp_all add: synced_flags_def bit_and_iff bit_or_iff bit_not_iff bit_flags)

section \<open>One request\<close>

definition ide_ready :: "'z ide_state_scheme \<Rightarrow> bool" where
  "ide_ready s \<longleftrightarrow> ata_status s AND (IDE_BSY OR IDE_DRDY) = IDE_DRDY
     \<and> ata_status s AND (IDE_DF OR IDE_ERR) = 0"

definition unit_of :: "buf \<Rightarrow> bool" where "unit_of b = bit (b_dev b) 0"
definition sector_of :: "buf \<Rightarrow> nat" where "sector_of b = unat (b_blockno b)"

definition disk_after :: "buf \<Rightarrow> (bool \<Rightarrow> nat \<Rightarrow> block) \<Rightarrow> bool \<Rightarrow> nat \<Rightarrow> block" where
  "disk_after b d = (if is_dirty b then d(unit_of b := (d (unit_of b))(sector_of b := b_data b)) else d)"

definition trace_of :: "buf \<Rightarrow> (bool \<times> nat \<times> block) list" where
  "trace_of b = (if is_dirty b then [(unit_of b, sector_of b, b_data b)] else [])"

definition started :: "nat \<Rightarrow> 'z ide_state_scheme \<Rightarrow> 'z ide_state_scheme" where
  "started i s = s\<lparr>ata := ide_task (bufs s i), disk := disk_after (bufs s i) (disk s),
     dtrace := dtrace s @ trace_of (bufs s i)\<rparr>"

lemma started_acquired [simp]: "started i (acquired lk s) = acquired lk (started i s)"
  by (simp add: started_def)

lemma started_simps [simp]:
  "bufs (started i s) = bufs s" "idequeue (started i s) = idequeue s"
  "ata_status (started i s) = ata_status s" "settled (started i s) = settled s"
  "lock_free lk (started i s) = lock_free lk s" "ata (started i s) = ide_task (bufs s i)"
  "disk (started i s) = disk_after (bufs s i) (disk s)"
  by (simp_all add: started_def)

lemma idewait_run: "ide_ready s \<Longrightarrow> idewait c s = Ok 0 s"
  by (simp add: idewait_def ide_ready_def bind_def)

lemma ide_ready_frame [simp]:
  "ide_ready (acquired lk s) = ide_ready s" "ide_ready (with_buf i f s) = ide_ready s"
  "ide_ready (s\<lparr>idequeue := q\<rparr>) = ide_ready s" "ide_ready (started i s) = ide_ready s"
  "ide_ready (woken ch s) = ide_ready s" "ide_ready (s\<lparr>bufs := x\<rparr>) = ide_ready s"
  "ide_ready (s\<lparr>sleeplocks := y\<rparr>) = ide_ready s"
  by (simp_all add: ide_ready_def)

lemma idestart_run:
  assumes "ide_ready s" and "sector_of (bufs s i) < FSSIZE"
  shows "idestart (Some i) s = Ok () (started i s)"
proof -
  have n: "unat (b_blockno (bufs s i)) < 2 ^ 28" using assms(2) by (simp add: sector_of_def)
  have a: "(ata s)\<lparr>a_control := 0, a_count := 1,
      a_lba0 := ucast (b_blockno (bufs s i) AND 0xff),
      a_lba1 := ucast (drop_bit 8 (b_blockno (bufs s i)) AND 0xff),
      a_lba2 := ucast (drop_bit 16 (b_blockno (bufs s i)) AND 0xff),
      a_drive := ucast (0xe0 OR push_bit 4 (b_dev (bufs s i) AND 1) OR (drop_bit 24 (b_blockno (bufs s i)) AND 0x0f)),
      a_cmd := (if is_dirty (bufs s i) then IDE_CMD_WRITE else IDE_CMD_READ)\<rparr> = ide_task (bufs s i)"
    unfolding ata_update_all ide_task_def by (simp add: flag_simps)
  have w: "a_cmd (ide_task (bufs s i)) = IDE_CMD_WRITE" if "is_dirty (bufs s i)"
    using that by (simp add: ide_task_def flag_simps)
  show ?thesis
    using assms a w ide_task_unit [of "bufs s i"] ide_task_sector [OF n]
    by (auto simp: idestart_def bind_def Let_def outb_def outsl_def idewait_run flag_simps
        started_def disk_after_def trace_of_def unit_of_def sector_of_def)
qed

definition served :: "nat \<Rightarrow> buf \<Rightarrow> (bool \<Rightarrow> nat \<Rightarrow> block) \<Rightarrow> buf" where
  "served i b d = b\<lparr>b_data := (if is_dirty b then b_data b else d (unit_of b) (sector_of b)),
     b_flags := synced_flags (b_flags b)\<rparr>"

text \<open>The interrupt that completes the only request.\<close>

lemma ideintr_run:
  assumes "settled s" and "lock_free L_ide s" and "lock_free L_ptable s" and "ide_ready s"
    and "idequeue s = Some i" and "b_qnext (bufs s i) = None" and "ata s = ide_task (bufs s i)"
    and "sector_of (bufs s i) < FSSIZE"
  shows "ideintr s = Ok () ((woken (ChBuf i) s)\<lparr>idequeue := None,
    bufs := (bufs s)(i := served i (bufs s i) (disk s))\<rparr>)"
proof -
  have n: "unat (b_blockno (bufs s i)) < 2 ^ 28" using assms(8) by (simp add: sector_of_def)
  have w: "woken ch (t\<lparr>idequeue := q\<rparr>) = (woken ch t)\<lparr>idequeue := q\<rparr>"
    "woken ch (with_buf j f t) = with_buf j f (woken ch t)"
    "(with_buf j f t)\<lparr>idequeue := q\<rparr> = with_buf j f (t\<lparr>idequeue := q\<rparr>)" for ch t q j f
    by (simp_all add: woken_def with_buf_def cong: if_cong)
  have wb: "with_buf j f (with_buf j g t) = with_buf j (\<lambda>b. f (g b)) t" for j f g t
    by (simp add: with_buf_def)
  show ?thesis
    using assms ide_task_unit [of "bufs s i"] ide_task_sector [OF n]
    by (auto simp: ideintr_def bind_def idewait_run flag_simps insl_def w wb)
      (simp_all add: with_buf_def served_def synced_flags_def unit_of_def sector_of_def)
qed

definition synced :: "nat \<Rightarrow> 'z ide_state_scheme \<Rightarrow> 'z ide_state_scheme" where
  "synced i s = (let b = bufs s i in (woken (ChBuf i) s)\<lparr>ata := ide_task b,
     disk := disk_after b (disk s), dtrace := dtrace s @ trace_of b,
     bufs := (bufs s)(i := (served i b (disk s))\<lparr>b_qnext := None\<rparr>)\<rparr>)"

text \<open>What \<open>iderw\<close> needs: the buffer is locked, it has something to do, the disk exists.\<close>

definition iderw_ok :: "nat \<Rightarrow> 'z ide_state_scheme \<Rightarrow> bool" where
  "iderw_ok i s \<longleftrightarrow> in_kernel s \<and> ide_ready s \<and> idequeue s = None
     \<and> sl_locked (sleeplocks s (SL_buf i)) \<noteq> 0 \<and> \<not> (is_valid (bufs s i) \<and> \<not> is_dirty (bufs s i))
     \<and> (b_dev (bufs s i) \<noteq> 0 \<longrightarrow> havedisk1 s) \<and> sector_of (bufs s i) < FSSIZE"

lemma qnext_irrelevant [simp]:
  "ide_task (b\<lparr>b_qnext := q\<rparr>) = ide_task b" "disk_after (b\<lparr>b_qnext := q\<rparr>) = disk_after b"
  "trace_of (b\<lparr>b_qnext := q\<rparr>) = trace_of b" "sector_of (b\<lparr>b_qnext := q\<rparr>) = sector_of b"
  "served i (b\<lparr>b_qnext := q\<rparr>) d = (served i b d)\<lparr>b_qnext := q\<rparr>"
  by (simp_all add: ide_task_def disk_after_def trace_of_def sector_of_def unit_of_def served_def fun_eq_iff)

lemma served_disk_after [simp]: "served i b (disk_after b d) = served i b d"
  by (simp add: served_def disk_after_def)

lemma bit_served [simp]: "is_valid (served i b d)" "\<not> is_dirty (served i b d)"
  by (simp_all add: served_def)

lemma iderw_run:
  assumes "iderw_ok i s"
  shows "iderw i s = Ok () (synced i s)"
proof -
  let ?b = "(bufs s i)\<lparr>b_qnext := None\<rparr>"
  let ?q = "(with_buf i (\<lambda>b. b\<lparr>b_qnext := None\<rparr>) s)\<lparr>idequeue := Some i\<rparr>"
  let ?u = "started i ?q"
  have ok: "settled ?u" "lock_free L_ide ?u" "lock_free L_ptable ?u" "ide_ready ?u"
    "idequeue ?u = Some i" "b_qnext (bufs ?u i) = None" "ata ?u = ide_task (bufs ?u i)"
    "sector_of (bufs ?u i) < FSSIZE"
    using assms by (simp_all add: iderw_ok_def)
  have st: "idestart (Some i) (acquired L_ide ?q) = Ok () (acquired L_ide ?u)"
    using assms by (subst idestart_run) (simp_all add: iderw_ok_def)
  have intr: "ideintr ?u = Ok () (synced i s)"
    using assms by (subst ideintr_run [OF ok])
      (simp add: synced_def started_def with_buf_def woken_def iderw_ok_def Let_def cong: if_cong)
  have fin: "settled (synced i s)" "lock_free L_ide (synced i s)"
    "is_valid (bufs (synced i s) i)" "\<not> is_dirty (bufs (synced i s) i)"
    using assms by (simp_all add: synced_def Let_def iderw_ok_def)
  have nv: "\<not> (is_valid (bufs ?u i) \<and> \<not> is_dirty (bufs ?u i))"
    using assms by (simp add: iderw_ok_def)
  have wait: "iderw_wait (Suc (Suc n)) i (acquired L_ide ?u) = Ok () (acquired L_ide (synced i s))" for n
    using ok(1,2) intr fin nv by (simp add: bind_def flag_simps)
  have h: "b_dev (bufs s i) = 0 \<or> havedisk1 s"
    using assms by (auto simp: iderw_ok_def)
  show ?thesis
    using assms st fin wait [of NBUF] h
    by (simp add: iderw_def iderw_append_def bind_def iderw_ok_def flag_simps
        del: iderw_wait.simps)
qed

section \<open>The memory disk\<close>

definition mem_synced :: "nat \<Rightarrow> 'z ide_state_scheme \<Rightarrow> 'z ide_state_scheme" where
  "mem_synced i s = s\<lparr>disk := disk_after (bufs s i) (disk s), dtrace := dtrace s @ trace_of (bufs s i),
     bufs := (bufs s)(i := served i (bufs s i) (disk s))\<rparr>"

lemma synced_flags_order: "(f AND NOT B_DIRTY) OR B_VALID = synced_flags f"
  by (rule bit_word_eqI) (auto simp: synced_flags_def bit_and_iff bit_or_iff bit_not_iff bit_flags)

lemma synced_flags_clean: "\<not> bit f 2 \<Longrightarrow> f OR B_VALID = synced_flags f"
  by (rule bit_word_eqI) (auto simp: synced_flags_def bit_and_iff bit_or_iff bit_not_iff bit_flags)

lemma memide_run:
  assumes "in_kernel s" and "sl_locked (sleeplocks s (SL_buf i)) \<noteq> 0"
    and "\<not> (is_valid (bufs s i) \<and> \<not> is_dirty (bufs s i))"
    and "b_dev (bufs s i) = 1" and "b_blockno (bufs s i) < disksize"
  shows "memide_iderw disksize i s = Ok () (mem_synced i s)"
  using assms
  by (auto simp: memide_iderw_def bind_def flag_simps Let_def mem_synced_def with_buf_def served_def
      disk_after_def trace_of_def unit_of_def sector_of_def synced_flags_order synced_flags_clean)


definition empty_buf :: buf where
  "empty_buf = \<lparr>b_flags = 0, b_dev = 0, b_blockno = 0, b_refcnt = 0, b_prev = 0, b_next = 0,
     b_qnext = None, b_data = zero_block\<rparr>"

text \<open>A machine on which process 0 runs, with two disks and all buffers unused.\<close>

definition ide_boot :: "(bool \<Rightarrow> nat \<Rightarrow> block) \<Rightarrow> ide_state" where
  "ide_boot d = \<lparr>cpus = (\<lambda>_. idle_cpu), mycpu = 0, locks = (\<lambda>_. unlocked),
     mem = (\<lambda>_. 0), kend = KERNBASE + 0x100000, use_lock = True, freelist = 0,
     ptable = (\<lambda>_. idle_proc\<lparr>p_state := RUNNING, p_pid := 1\<rparr>), nextpid = 2, initproc = Some 0,
     curproc = (\<lambda>_. Some 0), sym_trapret = 0, sym_forkret = 0,
     sleeplocks = (\<lambda>_. free_sleeplock), bufs = (\<lambda>_. empty_buf), idequeue = None, havedisk1 = True,
     ata = ide_task empty_buf, ata_status = IDE_DRDY, disk = d, dtrace = []\<rparr>"

lemma ide_boot_ok [simp]: "in_kernel (ide_boot d)" "ide_ready (ide_boot d)"
  by (simp_all add: in_kernel_def quiet_def settled_def lock_free_def ide_boot_def idle_cpu_def unlocked_def
      ide_ready_def IDE_DRDY_def IDE_BSY_def IDE_DF_def IDE_ERR_def del: quietD in_kernelD)


end
