(* ===== verification/Bio.thy ===== *)
theory Bio
  imports Ide
begin

text \<open>
  The buffer cache (\<open>bio.c\<close>): a fixed set of buffers on a doubly linked list in order of
  use, at most one for each disk block.
\<close>

section \<open>Operations\<close>

text \<open>The list head \<open>bcache.head\<close> is the buffer with index \<open>NBUF\<close>.\<close>

abbreviation bhead :: nat where "bhead \<equiv> NBUF"

definition binit_one :: "nat \<Rightarrow> ('z ide_state_scheme, unit) op" where
  "binit_one b =
     bind (get_buf bhead) (\<lambda>h.
     bind (set_buf b (\<lambda>x. x\<lparr>b_next := b_next h\<rparr>)) (\<lambda>_.
     bind (set_buf b (\<lambda>x. x\<lparr>b_prev := bhead\<rparr>)) (\<lambda>_.
     bind (initsleeplock (SL_buf b)) (\<lambda>_.
     bind (get_buf bhead) (\<lambda>h.
     bind (set_buf (b_next h) (\<lambda>x. x\<lparr>b_prev := b\<rparr>)) (\<lambda>_.
     set_buf bhead (\<lambda>x. x\<lparr>b_next := b\<rparr>)))))))"

definition binit :: "('z ide_state_scheme, unit) op" where
  "binit =
     bind (initlock L_bcache) (\<lambda>_.
     bind (set_buf bhead (\<lambda>x. x\<lparr>b_prev := bhead\<rparr>)) (\<lambda>_.
     bind (set_buf bhead (\<lambda>x. x\<lparr>b_next := bhead\<rparr>)) (\<lambda>_.
     for_each [0..<NBUF] binit_one)))"

text \<open>
  The two scans of \<open>bget\<close>: along \<open>next\<close> from the most recently used buffer, and along
  \<open>prev\<close> from the least recently used one. \<open>None\<close> is a scan that has not come back to
  the head after the given number of steps.
\<close>

fun scan_next :: "nat \<Rightarrow> (nat \<Rightarrow> buf) \<Rightarrow> (buf \<Rightarrow> bool) \<Rightarrow> nat \<Rightarrow> nat option option" where
  "scan_next 0 bs P b = None"
| "scan_next (Suc n) bs P b =
     (if b = bhead then Some None
      else if P (bs b) then Some (Some b) else scan_next n bs P (b_next (bs b)))"

fun scan_prev :: "nat \<Rightarrow> (nat \<Rightarrow> buf) \<Rightarrow> (buf \<Rightarrow> bool) \<Rightarrow> nat \<Rightarrow> nat option option" where
  "scan_prev 0 bs P b = None"
| "scan_prev (Suc n) bs P b =
     (if b = bhead then Some None
      else if P (bs b) then Some (Some b) else scan_prev n bs P (b_prev (bs b)))"

definition bget :: "uint \<Rightarrow> uint \<Rightarrow> ('z ide_state_scheme, nat) op" where
  "bget dev blockno =
     bind (acquire L_bcache) (\<lambda>_.
     bind (gets (\<lambda>s. scan_next (Suc NBUF) (bufs s)
                   (\<lambda>b. b_dev b = dev \<and> b_blockno b = blockno) (b_next (bufs s bhead)))) (\<lambda>r.
     case r of
       None \<Rightarrow> (\<lambda>s. Diverge)
     | Some (Some b) \<Rightarrow>
         bind (set_buf b (\<lambda>x. x\<lparr>b_refcnt := b_refcnt x + 1\<rparr>)) (\<lambda>_.
         bind (release L_bcache) (\<lambda>_.
         bind (acquiresleep (SL_buf b)) (\<lambda>_.
         return b)))
     | Some None \<Rightarrow>
         bind (gets (\<lambda>s. scan_prev (Suc NBUF) (bufs s)
                       (\<lambda>b. b_refcnt b = 0 \<and> b_flags b AND B_DIRTY = 0) (b_prev (bufs s bhead)))) (\<lambda>r.
         case r of
           None \<Rightarrow> (\<lambda>s. Diverge)
         | Some (Some b) \<Rightarrow>
             bind (set_buf b (\<lambda>x. x\<lparr>b_dev := dev\<rparr>)) (\<lambda>_.
             bind (set_buf b (\<lambda>x. x\<lparr>b_blockno := blockno\<rparr>)) (\<lambda>_.
             bind (set_buf b (\<lambda>x. x\<lparr>b_flags := 0\<rparr>)) (\<lambda>_.
             bind (set_buf b (\<lambda>x. x\<lparr>b_refcnt := 1\<rparr>)) (\<lambda>_.
             bind (release L_bcache) (\<lambda>_.
             bind (acquiresleep (SL_buf b)) (\<lambda>_.
             return b))))))
         | Some None \<Rightarrow> panic ''bget: no buffers'')))"

definition bread :: "uint \<Rightarrow> uint \<Rightarrow> ('z ide_state_scheme, nat) op" where
  "bread dev blockno =
     bind (bget dev blockno) (\<lambda>b.
     bind (get_buf b) (\<lambda>x.
     bind (if b_flags x AND B_VALID = 0 then iderw b else return ()) (\<lambda>_.
     return b)))"

definition bwrite :: "nat \<Rightarrow> ('z ide_state_scheme, unit) op" where
  "bwrite b =
     bind (holdingsleep (SL_buf b)) (\<lambda>h.
     bind (panic_if (h = 0) ''bwrite'') (\<lambda>_.
     bind (set_buf b (\<lambda>x. x\<lparr>b_flags := b_flags x OR B_DIRTY\<rparr>)) (\<lambda>_.
     iderw b)))"

text \<open>Unlinking a buffer and putting it behind the head, statement by statement.\<close>

definition blink_front :: "nat \<Rightarrow> ('z ide_state_scheme, unit) op" where
  "blink_front b =
     bind (get_buf b) (\<lambda>x.
     bind (set_buf (b_next x) (\<lambda>y. y\<lparr>b_prev := b_prev x\<rparr>)) (\<lambda>_.
     bind (get_buf b) (\<lambda>x.
     bind (set_buf (b_prev x) (\<lambda>y. y\<lparr>b_next := b_next x\<rparr>)) (\<lambda>_.
     bind (get_buf bhead) (\<lambda>h.
     bind (set_buf b (\<lambda>y. y\<lparr>b_next := b_next h\<rparr>)) (\<lambda>_.
     bind (set_buf b (\<lambda>y. y\<lparr>b_prev := bhead\<rparr>)) (\<lambda>_.
     bind (get_buf bhead) (\<lambda>h.
     bind (set_buf (b_next h) (\<lambda>y. y\<lparr>b_prev := b\<rparr>)) (\<lambda>_.
     set_buf bhead (\<lambda>y. y\<lparr>b_next := b\<rparr>))))))))))"

definition brelse :: "nat \<Rightarrow> ('z ide_state_scheme, unit) op" where
  "brelse b =
     bind (holdingsleep (SL_buf b)) (\<lambda>h.
     bind (panic_if (h = 0) ''brelse'') (\<lambda>_.
     bind (releasesleep (SL_buf b)) (\<lambda>_.
     bind (acquire L_bcache) (\<lambda>_.
     bind (set_buf b (\<lambda>x. x\<lparr>b_refcnt := b_refcnt x - 1\<rparr>)) (\<lambda>_.
     bind (get_buf b) (\<lambda>x.
     bind (if b_refcnt x = 0 then blink_front b else return ()) (\<lambda>_.
     release L_bcache)))))))"

section \<open>The linked list\<close>

fun links :: "(nat \<Rightarrow> buf) \<Rightarrow> nat list \<Rightarrow> bool" where
  "links bs (a # b # xs) \<longleftrightarrow> b_next (bs a) = b \<and> b_prev (bs b) = a \<and> links bs (b # xs)"
| "links bs _ \<longleftrightarrow> True"

text \<open>\<open>dlist bs xs\<close>: the buffers in the order of \<open>next\<close> from the head are \<open>xs\<close>.\<close>

definition dlist :: "(nat \<Rightarrow> buf) \<Rightarrow> nat list \<Rightarrow> bool" where
  "dlist bs xs \<longleftrightarrow> links bs (bhead # xs @ [bhead]) \<and> distinct xs \<and> set xs = {0..<NBUF}"

lemma links_append: "links bs (xs @ a # ys) \<longleftrightarrow> links bs (xs @ [a]) \<and> links bs (a # ys)"
proof (induction xs)
  case Nil
  then show ?case by simp
next
  case (Cons x xs)
  then show ?case by (cases xs) auto
qed

lemma links_cong:
  "(\<And>x. x \<in> set (butlast xs) \<Longrightarrow> b_next (bs x) = b_next (bs' x)) \<Longrightarrow>
   (\<And>x. x \<in> set (tl xs) \<Longrightarrow> b_prev (bs x) = b_prev (bs' x)) \<Longrightarrow> links bs xs = links bs' xs"
  by (induction bs xs rule: links.induct) auto

lemma scan_next_find:
  "links bs (xs @ [bhead]) \<Longrightarrow> bhead \<notin> set xs \<Longrightarrow> length xs < n \<Longrightarrow>
   scan_next n bs P (hd (xs @ [bhead])) = Some (find (\<lambda>i. P (bs i)) xs)"
proof (induction xs arbitrary: n)
  case Nil
  then show ?case by (cases n) simp_all
next
  case (Cons x xs)
  then obtain m where n: "n = Suc m" by (cases n) simp_all
  have "links bs (xs @ [bhead])" "b_next (bs x) = hd (xs @ [bhead])"
    using Cons.prems(1) by (cases xs; simp)+
  with Cons n show ?case by simp
qed

lemma scan_prev_find:
  "links bs (bhead # xs) \<Longrightarrow> bhead \<notin> set xs \<Longrightarrow> length xs < n \<Longrightarrow>
   scan_prev n bs P (last (bhead # xs)) = Some (find (\<lambda>i. P (bs i)) (rev xs))"
proof (induction xs arbitrary: n rule: rev_induct)
  case Nil
  then show ?case by (cases n) simp_all
next
  case (snoc x xs)
  then obtain m where n: "n = Suc m" by (cases n) simp_all
  have l: "links bs ((bhead # butlast xs) @ [last xs, x])" if "xs \<noteq> []"
    using snoc.prems(1) that by (metis append_Cons append_assoc append_butlast_last_id append_Nil)
  have "links bs (bhead # xs) \<and> b_prev (bs x) = last (bhead # xs)"
  proof (cases "xs = []")
    case True
    with snoc.prems(1) show ?thesis by simp
  next
    case False
    with l [OF False] links_append [of bs "bhead # butlast xs" "last xs" "[x]"] show ?thesis by simp
  qed
  with snoc n show ?case by simp
qed

definition unlinked :: "nat \<Rightarrow> (nat \<Rightarrow> buf) \<Rightarrow> nat \<Rightarrow> buf" where
  "unlinked b bs =
     (let bs1 = bs(b_next (bs b) := (bs (b_next (bs b)))\<lparr>b_prev := b_prev (bs b)\<rparr>)
      in bs1(b_prev (bs1 b) := (bs1 (b_prev (bs1 b)))\<lparr>b_next := b_next (bs1 b)\<rparr>))"

definition linked_front :: "nat \<Rightarrow> (nat \<Rightarrow> buf) \<Rightarrow> nat \<Rightarrow> buf" where
  "linked_front b bs =
     (let bs1 = bs(b := (bs b)\<lparr>b_next := b_next (bs bhead)\<rparr>);
          bs2 = bs1(b := (bs1 b)\<lparr>b_prev := bhead\<rparr>);
          bs3 = bs2(b_next (bs2 bhead) := (bs2 (b_next (bs2 bhead)))\<lparr>b_prev := b\<rparr>)
      in bs3(bhead := (bs3 bhead)\<lparr>b_next := b\<rparr>))"

lemma blink_front_run: "blink_front b s = Ok () (s\<lparr>bufs := linked_front b (unlinked b (bufs s))\<rparr>)"
  by (simp add: blink_front_def bind_def with_buf_def linked_front_def unlinked_def Let_def
      del: fun_upd_apply)

text \<open>Only the two links change.\<close>

definition same_buf :: "buf \<Rightarrow> buf \<Rightarrow> bool" where
  "same_buf x y \<longleftrightarrow> x\<lparr>b_next := 0, b_prev := 0\<rparr> = y\<lparr>b_next := 0, b_prev := 0\<rparr>"

lemma same_bufD:
  assumes "same_buf x y"
  shows "b_flags x = b_flags y" "b_dev x = b_dev y" "b_blockno x = b_blockno y"
    "b_refcnt x = b_refcnt y" "b_qnext x = b_qnext y" "b_data x = b_data y"
  using assms unfolding same_buf_def by (metis buf.select_convs buf.surjective buf.update_convs)+

lemma same_buf_refl [simp]: "same_buf x x"
  by (simp add: same_buf_def)

lemma same_buf_upd [simp]: "same_buf (x\<lparr>b_next := n\<rparr>) y = same_buf x y" "same_buf (x\<lparr>b_prev := n\<rparr>) y = same_buf x y"
  by (simp_all add: same_buf_def)

lemma same_buf_unlinked: "same_buf (unlinked b bs i) (bs i)"
  by (auto simp: unlinked_def Let_def)

lemma same_buf_linked: "same_buf (linked_front b bs i) (bs i)"
  by (auto simp: linked_front_def Let_def)

lemma links_unlink:
  assumes "links bs (xs @ p # b # n # ys)" and "p \<notin> set xs" and "n \<notin> set ys"
    and "n \<notin> set (tl (xs @ [p]))" and "p \<notin> set (butlast (n # ys))" and "b \<noteq> n" and "b \<noteq> p"
  shows "links (unlinked b bs) (xs @ p # n # ys)"
proof -
  have a: "links bs (xs @ [p])" "links bs (n # ys)" "b_next (bs p) = b" "b_prev (bs b) = p"
    "b_next (bs b) = n" "b_prev (bs n) = b"
    using assms(1) links_append [of bs xs p "b # n # ys"] by auto
  then have nx: "b_next (unlinked b bs x) = (if x = p then n else b_next (bs x))"
    and pv: "b_prev (unlinked b bs x) = (if x = n then p else b_prev (bs x))" for x
    using assms(6,7) by (auto simp: unlinked_def Let_def)
  have "links (unlinked b bs) (xs @ [p]) = links bs (xs @ [p])"
    using assms(2,4) by (intro links_cong) (auto simp: nx pv)
  moreover have "links (unlinked b bs) (n # ys) = links bs (n # ys)"
    using assms(3,5) by (intro links_cong) (auto simp: nx pv)
  ultimately show ?thesis
    using a(1,2) links_append [of _ xs p "n # ys"] by (simp add: nx pv)
qed

lemma links_front:
  assumes "links bs (bhead # zs @ [bhead])" and "distinct zs" and "bhead \<notin> set zs" and "b \<notin> set zs"
    and "b \<noteq> bhead"
  shows "links (linked_front b bs) (bhead # b # zs @ [bhead])"
proof -
  obtain n rest where n: "zs @ [bhead] = n # rest" by (cases zs) auto
  have hd: "b_next (bs bhead) = n" using assms(1) n by simp
  have nb: "n \<noteq> b" using assms(4,5) n by (cases zs) auto
  have nr: "n \<notin> set rest" using assms(2,3) n by (cases zs) auto
  have nx: "b_next (linked_front b bs x) = (if x = bhead then b else if x = b then n else b_next (bs x))"
    and pv: "b_prev (linked_front b bs x) = (if x = n then b else if x = b then bhead else b_prev (bs x))" for x
    using hd assms(5) nb
    by (cases "x = bhead"; cases "x = b"; cases "x = n"; simp add: linked_front_def Let_def)+
  have bl: "set (butlast (n # rest)) = set zs" using n by (metis butlast_snoc)
  have rs: "set rest \<subseteq> insert bhead (set zs)" using n by (cases zs) auto
  have "links (linked_front b bs) (n # rest) = links bs (n # rest)"
  proof (rule links_cong)
    show "b_next (linked_front b bs x) = b_next (bs x)" if "x \<in> set (butlast (n # rest))" for x
      using that unfolding bl nx using assms(3,4) by metis
    show "b_prev (linked_front b bs x) = b_prev (bs x)" if "x \<in> set (tl (n # rest))" for x
      using that rs nr assms(4,5) unfolding pv by (metis insertE list.sel(3) subsetD)
  qed
  moreover have "links bs (n # rest)" using assms(1) n by simp
  ultimately show ?thesis using n nb assms(5) by (simp add: nx pv)
qed

lemma dlist_front:
  assumes "dlist bs (us @ b # vs)"
  shows "dlist (linked_front b (unlinked b bs)) (b # us @ vs)"
proof -
  have d: "distinct (us @ b # vs)" "set (us @ b # vs) = {0..<NBUF}"
    and l: "links bs (bhead # (us @ b # vs) @ [bhead])"
    using assms by (simp_all add: dlist_def)
  have h: "bhead \<notin> set (us @ b # vs)" using d(2) by simp
  obtain xs p where p: "bhead # us = xs @ [p]" by (metis append_butlast_last_id list.distinct(1))
  obtain n ys where n: "vs @ [bhead] = n # ys" by (cases vs) auto
  have tl: "tl (xs @ [p]) = us" using p by (metis list.sel(3))
  have bl: "butlast (n # ys) = vs" using n by (metis butlast_snoc)
  have pu: "p \<in> set (bhead # us)" "distinct (xs @ [p])"
    using p d(1) h by (metis in_set_conv_decomp, metis distinct.simps(2) distinct_append Un_iff set_append)
  have nv: "n \<in> set (vs @ [bhead])" "distinct (n # ys)"
    using n d(1) h by (metis list.set_intros(1), metis Un_iff distinct1_rotate distinct_append list.set_intros(2) not_distinct_conv_prefix rotate1.simps(2) set_append distinct.simps(2))
  have "links bs (xs @ p # b # n # ys)"
  proof -
    have "bhead # (us @ b # vs) @ [bhead] = (bhead # us) @ b # (vs @ [bhead])" by simp
    also have "\<dots> = xs @ p # b # n # ys" unfolding p n by simp
    finally show ?thesis using l by simp
  qed
  moreover have "n \<notin> set (tl (xs @ [p]))" unfolding tl using nv(1) d(1) h by auto
  moreover have "p \<notin> set (butlast (n # ys))" unfolding bl using pu(1) d(1) h by auto
  moreover have "b \<noteq> n" "b \<noteq> p" using pu(1) nv(1) d(1) h by auto
  ultimately have "links (unlinked b bs) (xs @ p # n # ys)"
    using pu(2) nv(2) by (intro links_unlink) simp_all
  moreover have "xs @ p # n # ys = bhead # (us @ vs) @ [bhead]"
    using p n by (metis append.assoc append_Cons append_Nil)
  ultimately have "links (unlinked b bs) (bhead # (us @ vs) @ [bhead])" by simp
  then have "links (linked_front b (unlinked b bs)) (bhead # b # (us @ vs) @ [bhead])"
    using d h by (intro links_front) auto
  with d show ?thesis by (auto simp: dlist_def)
qed

lemma dlist_scans:
  assumes "dlist bs xs"
  shows "scan_next (Suc NBUF) bs P (b_next (bs bhead)) = Some (find (\<lambda>i. P (bs i)) xs)"
    and "scan_prev (Suc NBUF) bs P (b_prev (bs bhead)) = Some (find (\<lambda>i. P (bs i)) (rev xs))"
proof -
  have l: "links bs (bhead # xs @ [bhead])" and d: "distinct xs" "set xs = {0..<NBUF}"
    using assms by (simp_all add: dlist_def)
  have len: "length xs < Suc NBUF" using d by (metis card_atLeastLessThan diff_zero distinct_card lessI)
  have h: "bhead \<notin> set xs" using d(2) by simp
  have fw: "links bs (xs @ [bhead])" "b_next (bs bhead) = hd (xs @ [bhead])"
    using l by (cases xs; simp)+
  have "bhead # xs @ [bhead] = butlast (bhead # xs) @ last (bhead # xs) # [bhead]"
    by (metis append.assoc append_Cons append_Nil append_butlast_last_id list.distinct(1))
  then have "links bs (butlast (bhead # xs) @ last (bhead # xs) # [bhead])" using l by metis
  then have bw: "links bs (bhead # xs)" "b_prev (bs bhead) = last (bhead # xs)"
    using links_append [of bs "butlast (bhead # xs)" "last (bhead # xs)" "[bhead]"]
      append_butlast_last_id [of "bhead # xs"] by simp_all
  show "scan_next (Suc NBUF) bs P (b_next (bs bhead)) = Some (find (\<lambda>i. P (bs i)) xs)"
    unfolding fw(2) using fw(1) h len by (rule scan_next_find)
  show "scan_prev (Suc NBUF) bs P (b_prev (bs bhead)) = Some (find (\<lambda>i. P (bs i)) (rev xs))"
    unfolding bw(2) using bw(1) h len by (rule scan_prev_find)
qed

section \<open>Results of the operations\<close>

abbreviation blocked :: "'z sleep_state_scheme \<Rightarrow> nat \<Rightarrow> bool" where
  "blocked s i \<equiv> sl_locked (sleeplocks s (SL_buf i)) \<noteq> 0"

definition bmatch :: "uint \<Rightarrow> uint \<Rightarrow> buf \<Rightarrow> bool" where
  "bmatch dev n b \<longleftrightarrow> b_dev b = dev \<and> b_blockno b = n"

definition recyclable :: "buf \<Rightarrow> bool" where
  "recyclable b \<longleftrightarrow> b_refcnt b = 0 \<and> \<not> is_dirty b"

definition bgot :: "nat \<Rightarrow> (buf \<Rightarrow> buf) \<Rightarrow> 'z ide_state_scheme \<Rightarrow> 'z ide_state_scheme" where
  "bgot i f s = s\<lparr>bufs := (bufs s)(i := f (bufs s i)),
     sleeplocks := (sleeplocks s)(SL_buf i := \<lparr>sl_locked = 1, sl_pid = mypid s\<rparr>)\<rparr>"

definition bref :: "buf \<Rightarrow> buf" where
  "bref b = b\<lparr>b_refcnt := b_refcnt b + 1\<rparr>"

definition brecycle :: "uint \<Rightarrow> uint \<Rightarrow> buf \<Rightarrow> buf" where
  "brecycle dev n b = b\<lparr>b_dev := dev, b_blockno := n, b_flags := 0, b_refcnt := 1\<rparr>"

lemma mypid_bufs [simp]: "mypid (s\<lparr>bufs := x\<rparr>) = mypid s"
  by (simp add: mypid_def)

lemma bget_cached:
  assumes "in_kernel s" and "dlist (bufs s) xs" and "find (\<lambda>i. bmatch dev n (bufs s i)) xs = Some i"
    and "\<not> blocked s i"
  shows "bget dev n s = Ok i (bgot i bref s)"
  using assms
  by (simp add: bget_def bind_def dlist_scans bmatch_def acquiresleep_run bgot_def bref_def with_buf_def
      del: scan_next.simps scan_prev.simps)

lemma bget_recycles:
  assumes "in_kernel s" and "dlist (bufs s) xs" and "find (\<lambda>i. bmatch dev n (bufs s i)) xs = None"
    and "find (\<lambda>i. recyclable (bufs s i)) (rev xs) = Some i" and "\<not> blocked s i"
  shows "bget dev n s = Ok i (bgot i (brecycle dev n) s)"
  using assms
  by (simp add: bget_def bind_def dlist_scans bmatch_def recyclable_def acquiresleep_run bgot_def
      brecycle_def with_buf_def flag_simps del: scan_next.simps scan_prev.simps)

lemma bget_no_buffers:
  assumes "in_kernel s" and "dlist (bufs s) xs" and "find (\<lambda>i. bmatch dev n (bufs s i)) xs = None"
    and "find (\<lambda>i. recyclable (bufs s i)) (rev xs) = None"
  shows "bget dev n s = Panic ''bget: no buffers''"
  using assms
  by (simp add: bget_def bind_def dlist_scans bmatch_def recyclable_def flag_simps
      del: scan_next.simps scan_prev.simps)

definition brelsed_bufs :: "nat \<Rightarrow> (nat \<Rightarrow> buf) \<Rightarrow> nat \<Rightarrow> buf" where
  "brelsed_bufs i bs = (let bs1 = bs(i := (bs i)\<lparr>b_refcnt := b_refcnt (bs i) - 1\<rparr>)
     in if b_refcnt (bs1 i) = 0 then linked_front i (unlinked i bs1) else bs1)"

definition brelsed :: "nat \<Rightarrow> 'z ide_state_scheme \<Rightarrow> 'z ide_state_scheme" where
  "brelsed i s = (woken (ChSleepLock (SL_buf i)) s)\<lparr>bufs := brelsed_bufs i (bufs s),
     sleeplocks := (sleeplocks s)(SL_buf i := free_sleeplock)\<rparr>"

lemma brelse_run:
  assumes "in_kernel s" and "blocked s i"
  shows "brelse i s = Ok () (brelsed i s)"
  using assms
  by (simp add: brelse_def bind_def releasesleep_run blink_front_run brelsed_def brelsed_bufs_def
      with_buf_def Let_def)

lemma brelse_not_held: "in_kernel s \<Longrightarrow> \<not> blocked s i \<Longrightarrow> brelse i s = Panic ''brelse''"
  by (simp add: brelse_def bind_def)

end
