(* ===== verification/Bcache.thy ===== *)
theory Bcache
  imports Bio
begin

text \<open>
  What the buffer cache promises its clients: an invariant of the cache, the content of a
  disk block as seen through the cache, and for \<open>bread\<close>, \<open>bwrite\<close> and \<open>brelse\<close> what they
  do to that content, to the disk, and to the set of buffers in use. The file system
  lives on device 1, the only one whose buffers hold blocks. The invariant describes the
  cache while no process waits for a buffer that another one holds, so that a buffer is
  referenced exactly by the process that has it locked.
\<close>

section \<open>Invariant and view\<close>

definition buf_ok :: "bool \<Rightarrow> (nat \<Rightarrow> block) \<Rightarrow> buf \<Rightarrow> bool" where
  "buf_ok l d b \<longleftrightarrow> length (b_data b) = 512 \<and> b_refcnt b = (if l then 1 else 0) \<and>
     (b_dev b = 0 \<and> b_flags b = 0 \<and> \<not> l \<or>
      b_dev b = 1 \<and> unat (b_blockno b) < FSSIZE \<and> (l \<longrightarrow> is_valid b) \<and> (is_dirty b \<longrightarrow> is_valid b) \<and>
      (\<not> l \<and> is_valid b \<and> \<not> is_dirty b \<longrightarrow> b_data b = d (unat (b_blockno b))))"

definition bufs_unique :: "(nat \<Rightarrow> buf) \<Rightarrow> bool" where
  "bufs_unique bs \<longleftrightarrow> (\<forall>i<NBUF. \<forall>j<NBUF. b_dev (bs i) \<noteq> 0 \<longrightarrow>
     bmatch (b_dev (bs i)) (b_blockno (bs i)) (bs j) \<longrightarrow> i = j)"

definition bio_inv :: "'z ide_state_scheme \<Rightarrow> bool" where
  "bio_inv s \<longleftrightarrow> in_kernel s \<and> ide_ready s \<and> idequeue s = None \<and> havedisk1 s
     \<and> (\<exists>xs. dlist (bufs s) xs) \<and> bufs_unique (bufs s)
     \<and> (\<forall>i<NBUF. buf_ok (blocked s i) (disk s True) (bufs s i))
     \<and> (\<forall>n. length (disk s True n) = 512)"

definition blk :: "'z ide_state_scheme \<Rightarrow> uint \<Rightarrow> block" where
  "blk s n = (case find (\<lambda>i. bmatch 1 n (bufs s i) \<and> is_valid (bufs s i)) [0..<NBUF] of
     Some i \<Rightarrow> b_data (bufs s i) | None \<Rightarrow> disk s True (unat n))"

definition held :: "'z ide_state_scheme \<Rightarrow> nat set" where
  "held s = {i. i < NBUF \<and> blocked s i}"

definition avail :: "'z ide_state_scheme \<Rightarrow> nat set" where
  "avail s = {i. i < NBUF \<and> recyclable (bufs s i)}"

definition dirty_blocks :: "'z ide_state_scheme \<Rightarrow> uint set" where
  "dirty_blocks s = {n. \<exists>i<NBUF. bmatch 1 n (bufs s i) \<and> is_dirty (bufs s i)}"

text \<open>Two buffers that show their clients the same.\<close>

definition same_view :: "buf \<Rightarrow> buf \<Rightarrow> bool" where
  "same_view x y \<longleftrightarrow> b_dev x = b_dev y \<and> b_blockno x = b_blockno y \<and> b_flags x = b_flags y
     \<and> b_data x = b_data y"

text \<open>
  What the cache may change of the rest of the state: nothing but its own fields, the
  locks of buffers, and processes that were waiting for a buffer become runnable.
\<close>

definition bframe :: "'z ide_state_scheme \<Rightarrow> 'z ide_state_scheme \<Rightarrow> bool" where
  "bframe s t \<longleftrightarrow> (\<exists>pt sl bs a d tr. t = s\<lparr>ptable := pt, sleeplocks := sl, bufs := bs, ata := a,
       disk := d, dtrace := tr\<rparr>)
     \<and> (\<forall>i. ptable t i = (ptable s i)\<lparr>p_state := p_state (ptable t i)\<rparr>)
     \<and> (\<forall>k. sleeplocks t (SL_inode k) = sleeplocks s (SL_inode k))"

lemma bframe_refl [simp]: "bframe s s"
proof -
  have "s = s\<lparr>ptable := ptable s, sleeplocks := sleeplocks s, bufs := bufs s, ata := ata s,
      disk := disk s, dtrace := dtrace s\<rparr>" by simp
  then show ?thesis unfolding bframe_def by (intro conjI) (blast, simp_all)
qed

lemma bframe_trans:
  assumes "bframe s t" and "bframe t u"
  shows "bframe s u"
proof -
  from assms(1) obtain pt sl bs a d tr where t: "t = s\<lparr>ptable := pt, sleeplocks := sl, bufs := bs, ata := a,
       disk := d, dtrace := tr\<rparr>" by (auto simp: bframe_def)
  from assms(2) obtain pt' sl' bs' a' d' tr' where u: "u = t\<lparr>ptable := pt', sleeplocks := sl', bufs := bs',
       ata := a', disk := d', dtrace := tr'\<rparr>" by (auto simp: bframe_def)
  have "u = s\<lparr>ptable := pt', sleeplocks := sl', bufs := bs', ata := a', disk := d', dtrace := tr'\<rparr>"
    unfolding u t by simp
  moreover have "ptable u i = (ptable s i)\<lparr>p_state := p_state (ptable u i)\<rparr>" for i
  proof -
    have "ptable t i = (ptable s i)\<lparr>p_state := p_state (ptable t i)\<rparr>"
      "ptable u i = (ptable t i)\<lparr>p_state := p_state (ptable u i)\<rparr>"
      using assms by (simp_all add: bframe_def)
    then show ?thesis by (metis (no_types, lifting) proc.fold_congs(4) proc.surjective proc.update_convs(4))
  qed
  moreover have "sleeplocks u (SL_inode k) = sleeplocks s (SL_inode k)" for k
    using assms by (simp add: bframe_def)
  ultimately show ?thesis unfolding bframe_def by blast
qed

section \<open>Properties of the view\<close>

lemma blk_cached:
  assumes "bufs_unique (bufs s)" and "i < NBUF" and "bmatch 1 n (bufs s i)" and "is_valid (bufs s i)"
  shows "blk s n = b_data (bufs s i)"
proof -
  have "find (\<lambda>i. bmatch 1 n (bufs s i) \<and> is_valid (bufs s i)) [0..<NBUF] = Some i"
  proof -
    have "\<not> bmatch 1 n (bufs s j)" if "j < i" for j
      using assms(1) [unfolded bufs_unique_def, rule_format, of i j] assms(2,3) that
      by (auto simp: bmatch_def)
    with assms(2-4) show ?thesis
      unfolding find_Some_iff by (intro exI [of _ i]) simp
  qed
  then show ?thesis by (simp add: blk_def)
qed

lemma blk_uncached:
  "(\<And>i. i < NBUF \<Longrightarrow> bmatch 1 n (bufs s i) \<Longrightarrow> \<not> is_valid (bufs s i)) \<Longrightarrow> blk s n = disk s True (unat n)"
  using find_None_iff [of "\<lambda>i. bmatch 1 n (bufs s i) \<and> is_valid (bufs s i)" "[0..<NBUF]"]
  by (simp add: blk_def)

lemma bio_invD:
  assumes "bio_inv s"
  shows "in_kernel s" "ide_ready s" "idequeue s = None" "havedisk1 s" "\<exists>xs. dlist (bufs s) xs"
    "bufs_unique (bufs s)" "i < NBUF \<Longrightarrow> buf_ok (blocked s i) (disk s True) (bufs s i)"
    "length (disk s True n) = 512"
  using assms by (simp_all add: bio_inv_def)

lemma blk_clean:
  assumes "bio_inv s" and "\<And>i. i \<in> held s \<Longrightarrow> b_blockno (bufs s i) \<noteq> n" and "n \<notin> dirty_blocks s"
  shows "blk s n = disk s True (unat n)"
proof (cases "\<exists>i<NBUF. bmatch 1 n (bufs s i) \<and> is_valid (bufs s i)")
  case True
  then obtain i where i: "i < NBUF" "bmatch 1 n (bufs s i)" "is_valid (bufs s i)" by blast
  then have "\<not> blocked s i" "\<not> is_dirty (bufs s i)"
    using assms(2,3) by (auto simp: held_def dirty_blocks_def bmatch_def)
  then have "b_data (bufs s i) = disk s True (unat n)"
    using bio_invD(7) [OF assms(1) i(1)] i(2,3) by (simp add: buf_ok_def bmatch_def)
  then show ?thesis using blk_cached [OF bio_invD(6) [OF assms(1)] i] by simp
next
  case False
  then show ?thesis by (auto intro: blk_uncached)
qed

section \<open>Frames\<close>

lemma wake1_state: "wake1 ch p = p\<lparr>p_state := p_state (wake1 ch p)\<rparr>"
  by (simp add: wake1_def)

lemma woken_ptable: "ptable (woken ch s) i = (ptable s i)\<lparr>p_state := p_state (ptable (woken ch s) i)\<rparr>"
  by (simp add: woken_def) (metis wake1_state)

lemma bframe_bgot: "bframe s (bgot i f s)"
  unfolding bframe_def bgot_def
  by (intro conjI exI [of _ "ptable s"] exI [of _ "ata s"] exI [of _ "disk s"] exI [of _ "dtrace s"]
      exI [of _ "bufs (bgot i f s)"] exI [of _ "sleeplocks (bgot i f s)"]) (simp_all add: bgot_def)

lemma bframe_woken_update:
  assumes "\<forall>k. sl (SL_inode k) = sleeplocks s (SL_inode k)"
  shows "bframe s ((woken ch s)\<lparr>sleeplocks := sl, bufs := bs, ata := a, disk := d, dtrace := tr\<rparr>)"
proof -
  let ?t = "(woken ch s)\<lparr>sleeplocks := sl, bufs := bs, ata := a, disk := d, dtrace := tr\<rparr>"
  have "?t = s\<lparr>ptable := ptable (woken ch s), sleeplocks := sl, bufs := bs, ata := a, disk := d, dtrace := tr\<rparr>"
    by (simp add: woken_def cong: if_cong)
  moreover have "ptable ?t i = (ptable s i)\<lparr>p_state := p_state (ptable ?t i)\<rparr>" for i
    using woken_ptable [of ch s i] by simp
  ultimately show ?thesis unfolding bframe_def using assms by (intro conjI) (blast, simp_all)
qed

lemma bframe_synced: "bframe s (synced i s)"
proof -
  have "synced i s = (woken (ChBuf i) s)\<lparr>sleeplocks := sleeplocks s, bufs := bufs (synced i s),
      ata := ata (synced i s), disk := disk (synced i s), dtrace := dtrace (synced i s)\<rparr>"
    by (simp add: synced_def Let_def woken_def)
  then show ?thesis using bframe_woken_update [of "sleeplocks s" s] by metis
qed

lemma bframe_brelsed: "bframe s (brelsed i s)"
proof -
  have "brelsed i s = (woken (ChSleepLock (SL_buf i)) s)\<lparr>sleeplocks := sleeplocks (brelsed i s),
      bufs := bufs (brelsed i s), ata := ata s, disk := disk s, dtrace := dtrace s\<rparr>"
    by (simp add: brelsed_def woken_def)
  moreover have "\<forall>k. sleeplocks (brelsed i s) (SL_inode k) = sleeplocks s (SL_inode k)"
    by (simp add: brelsed_def)
  ultimately show ?thesis using bframe_woken_update [of "sleeplocks (brelsed i s)" s] by metis
qed

section \<open>Looking up a block\<close>

text \<open>The buffer \<open>bget\<close> picks: the one that caches the block, or the least recently used free one.\<close>

definition bget_choice :: "'z ide_state_scheme \<Rightarrow> uint \<Rightarrow> nat \<Rightarrow> (buf \<Rightarrow> buf) \<Rightarrow> bool" where
  "bget_choice s n i f \<longleftrightarrow> i < NBUF \<and> \<not> blocked s i \<and>
     (bmatch 1 n (bufs s i) \<and> f = bref \<or>
      (\<forall>j<NBUF. \<not> bmatch 1 n (bufs s j)) \<and> recyclable (bufs s i) \<and> f = brecycle 1 n)"

lemma bget_chooses:
  assumes inv: "bio_inv s" and free: "\<And>i. i \<in> held s \<Longrightarrow> b_blockno (bufs s i) \<noteq> n"
    and av: "avail s \<noteq> {} \<or> (\<exists>i<NBUF. bmatch 1 n (bufs s i))"
  shows "\<exists>i f. bget_choice s n i f \<and> bget 1 n s = Ok i (bgot i f s)"
proof -
  obtain xs where xs: "dlist (bufs s) xs" and k: "in_kernel s" using bio_invD [OF inv] by blast
  have set: "set xs = {0..<NBUF}" using xs by (simp add: dlist_def)
  show ?thesis
  proof (cases "find (\<lambda>i. bmatch 1 n (bufs s i)) xs")
    case (Some i)
    then have i: "i < NBUF" "bmatch 1 n (bufs s i)"
      using set find_SomeD [OF Some] by simp_all
    then have "\<not> blocked s i" using free by (auto simp: held_def bmatch_def)
    with i bget_cached [OF k xs Some] show ?thesis by (auto simp: bget_choice_def)
  next
    case None
    then have no: "\<forall>j<NBUF. \<not> bmatch 1 n (bufs s j)" using set by (auto simp: find_None_iff)
    with av obtain a where "a < NBUF" "recyclable (bufs s a)" by (auto simp: avail_def)
    then have "find (\<lambda>i. recyclable (bufs s i)) (rev xs) \<noteq> None" using set by (auto simp: find_None_iff)
    then obtain i where r: "find (\<lambda>i. recyclable (bufs s i)) (rev xs) = Some i" by blast
    have i: "i < NBUF" "recyclable (bufs s i)" using set find_SomeD [OF r] by simp_all
    then have "\<not> blocked s i"
      using bio_invD(7) [OF inv i(1)] by (auto simp: buf_ok_def recyclable_def split: if_splits)
    with i no bget_recycles [OF k xs None r] show ?thesis by (auto simp: bget_choice_def)
  qed
qed

text \<open>The state after \<open>bread\<close>: one buffer is locked and holds the block.\<close>

definition locked_buf :: "'z ide_state_scheme \<Rightarrow> uint \<Rightarrow> nat \<Rightarrow> buf \<Rightarrow> 'z ide_state_scheme \<Rightarrow> bool" where
  "locked_buf s n i b t \<longleftrightarrow> bframe s t \<and> bufs t = (bufs s)(i := b) \<and> disk t = disk s \<and> dtrace t = dtrace s
     \<and> sleeplocks t = (sleeplocks s)(SL_buf i := \<lparr>sl_locked = 1, sl_pid = mypid s\<rparr>)
     \<and> bmatch 1 n b \<and> b_refcnt b = 1 \<and> is_valid b \<and> b_data b = blk s n
     \<and> b_next b = b_next (bufs s i) \<and> b_prev b = b_prev (bufs s i)
     \<and> (is_dirty b \<longleftrightarrow> bmatch 1 n (bufs s i) \<and> is_dirty (bufs s i))"

lemma bframe_simps:
  assumes "bframe s t"
  shows "in_kernel t = in_kernel s" "ide_ready t = ide_ready s" "idequeue t = idequeue s"
    "havedisk1 t = havedisk1 s" "mypid t = mypid s"
proof -
  obtain pt sl bs a d tr where t: "t = s\<lparr>ptable := pt, sleeplocks := sl, bufs := bs, ata := a,
       disk := d, dtrace := tr\<rparr>" and p: "\<forall>i. ptable t i = (ptable s i)\<lparr>p_state := p_state (ptable t i)\<rparr>"
    using assms by (auto simp: bframe_def)
  show "ide_ready t = ide_ready s" "idequeue t = idequeue s" "havedisk1 t = havedisk1 s"
    unfolding t by (simp_all add: ide_ready_def)
  show "in_kernel t = in_kernel s"
    unfolding t by (simp add: in_kernel_def quiet_def settled_def lock_free_def del: quietD in_kernelD)
  have "curproc t = curproc s" "mycpu t = mycpu s" unfolding t by simp_all
  then show "mypid t = mypid s"
    using p by (simp add: mypid_def) (metis proc.select_convs(5) proc.surjective proc.update_convs(4))
qed

lemma brecycle_simps [simp]:
  "b_dev (brecycle d n b) = d" "b_blockno (brecycle d n b) = n" "b_flags (brecycle d n b) = 0"
  "b_refcnt (brecycle d n b) = 1" "b_next (brecycle d n b) = b_next b" "b_prev (brecycle d n b) = b_prev b"
  "bmatch d n (brecycle d n b)"
  by (simp_all add: brecycle_def bmatch_def)

lemma bref_simps [simp]:
  "b_dev (bref b) = b_dev b" "b_blockno (bref b) = b_blockno b" "b_flags (bref b) = b_flags b"
  "b_refcnt (bref b) = b_refcnt b + 1" "b_next (bref b) = b_next b" "b_prev (bref b) = b_prev b"
  "b_data (bref b) = b_data b" "bmatch d n (bref b) = bmatch d n b"
  by (simp_all add: bref_def bmatch_def)

lemma unat_1_FSSIZE: "unit_of b" if "b_dev b = 1"
  using that by (simp add: unit_of_def)

lemma bread_valid:
  assumes inv: "bio_inv s" and c: "bget_choice s n i f" and v: "is_valid (f (bufs s i))"
  shows "locked_buf s n i (f (bufs s i)) (bgot i f s)"
proof -
  have i: "i < NBUF" "\<not> blocked s i" and m: "bmatch 1 n (bufs s i)" and f: "f = bref"
    using c v by (auto simp: bget_choice_def)
  have "b_refcnt (bufs s i) = 0" using bio_invD(7) [OF inv i(1)] i(2) by (simp add: buf_ok_def)
  moreover have "blk s n = b_data (bufs s i)"
    using blk_cached [OF bio_invD(6) [OF inv] i(1) m] v f by simp
  ultimately show ?thesis
    using m v f by (simp add: locked_buf_def bframe_bgot) (simp add: bgot_def)
qed

lemma bread_invalid:
  assumes inv: "bio_inv s" and c: "bget_choice s n i f" and v: "\<not> is_valid (f (bufs s i))"
    and n: "unat n < FSSIZE"
  shows "iderw_ok i (bgot i f s)"
    and "locked_buf s n i ((served i (f (bufs s i)) (disk s))\<lparr>b_qnext := None\<rparr>) (synced i (bgot i f s))"
proof -
  let ?b = "f (bufs s i)" and ?t = "bgot i f s"
  have i: "i < NBUF" "\<not> blocked s i" using c by (simp_all add: bget_choice_def)
  note ok = bio_invD(7) [OF inv i(1)]
  have b: "bmatch 1 n ?b" "b_refcnt ?b = 1"
    using c ok i(2) by (auto simp: bget_choice_def buf_ok_def)
  have nd: "\<not> is_dirty ?b" "\<not> (bmatch 1 n (bufs s i) \<and> is_dirty (bufs s i))"
    using c v ok by (auto simp: bget_choice_def buf_ok_def bmatch_def)
  have t: "bufs ?t = (bufs s)(i := ?b)" "disk ?t = disk s" "dtrace ?t = dtrace s"
    "sleeplocks ?t = (sleeplocks s)(SL_buf i := \<lparr>sl_locked = 1, sl_pid = mypid s\<rparr>)"
    by (simp_all add: bgot_def)
  have sec: "sector_of ?b = unat n" "unit_of ?b" using b(1) by (simp_all add: sector_of_def unit_of_def bmatch_def)
  show "iderw_ok i ?t"
    using inv bframe_simps [OF bframe_bgot, of i f s] v nd n sec
    by (simp add: iderw_ok_def bio_inv_def t)
  have un: "blk s n = disk s True (unat n)"
  proof (rule blk_uncached)
    fix j assume "j < NBUF" "bmatch 1 n (bufs s j)"
    then show "\<not> is_valid (bufs s j)"
      using c v bio_invD(6) [OF inv] i(1) unfolding bget_choice_def bufs_unique_def
      by (metis bmatch_def bref_simps(3) zero_neq_one)
  qed
  have "bframe s (synced i ?t)" using bframe_trans [OF bframe_bgot bframe_synced] .
  moreover have "b_next ?b = b_next (bufs s i)" "b_prev ?b = b_prev (bufs s i)"
    using c by (auto simp: bget_choice_def)
  ultimately show "locked_buf s n i ((served i ?b (disk s))\<lparr>b_qnext := None\<rparr>) (synced i ?t)"
    using b nd sec un
    by (simp add: locked_buf_def synced_def Let_def t disk_after_def trace_of_def)
      (simp add: served_def bmatch_def)
qed

lemma bread_run:
  assumes inv: "bio_inv s" and free: "\<And>i. i \<in> held s \<Longrightarrow> b_blockno (bufs s i) \<noteq> n"
    and av: "avail s \<noteq> {} \<or> (\<exists>i<NBUF. bmatch 1 n (bufs s i))" and n: "unat n < FSSIZE"
  shows "\<exists>i f b t. bread 1 n s = Ok i t \<and> bget_choice s n i f \<and> locked_buf s n i b t"
proof -
  obtain i f where c: "bget_choice s n i f" and g: "bget 1 n s = Ok i (bgot i f s)"
    using bget_chooses [OF inv free av] by blast
  have bt: "bufs (bgot i f s) i = f (bufs s i)" by (simp add: bgot_def)
  show ?thesis
  proof (cases "is_valid (f (bufs s i))")
    case True
    then have "bread 1 n s = Ok i (bgot i f s)" using g bt by (simp add: bread_def bind_def flag_simps)
    with c bread_valid [OF inv c True] show ?thesis by blast
  next
    case False
    note r = bread_invalid [OF inv c False n]
    have "bread 1 n s = Ok i (synced i (bgot i f s))"
      using g bt False iderw_run [OF r(1)] by (simp add: bread_def bind_def flag_simps)
    with c r(2) show ?thesis by blast
  qed
qed

definition bread_post :: "'z ide_state_scheme \<Rightarrow> uint \<Rightarrow> nat \<Rightarrow> 'z ide_state_scheme \<Rightarrow> bool" where
  "bread_post s n i t \<longleftrightarrow> bio_inv t \<and> bframe s t \<and> i < NBUF \<and> i \<notin> held s \<and> held t = insert i (held s)
     \<and> b_blockno (bufs t i) = n \<and> b_data (bufs t i) = blk s n \<and> blk t = blk s
     \<and> disk t = disk s \<and> dtrace t = dtrace s \<and> (\<forall>j. j \<noteq> i \<longrightarrow> bufs t j = bufs s j)
     \<and> dirty_blocks t = dirty_blocks s"

lemma dlist_cong:
  assumes "\<And>i. b_next (bs i) = b_next (bs' i)" and "\<And>i. b_prev (bs i) = b_prev (bs' i)"
  shows "dlist bs xs = dlist bs' xs"
  unfolding dlist_def using links_cong [of "bhead # xs @ [bhead]" bs bs'] assms by simp

lemma bget_others:
  assumes "bio_inv s" and "bget_choice s n i f" and "j < NBUF" and "j \<noteq> i"
  shows "\<not> bmatch 1 n (bufs s j)"
  using assms bio_invD(6) [OF assms(1)] unfolding bget_choice_def bufs_unique_def
  by (metis bmatch_def zero_neq_one)

lemma locked_buf_simps:
  assumes "locked_buf s n i b t"
  shows "bframe s t" "bufs t = (bufs s)(i := b)" "disk t = disk s" "dtrace t = dtrace s"
    "blocked t j = (j = i \<or> blocked s j)" "b_dev b = 1" "b_blockno b = n"
    "b_refcnt b = 1" "is_valid b" "b_data b = blk s n" "b_next b = b_next (bufs s i)"
    "b_prev b = b_prev (bufs s i)" "is_dirty b \<longleftrightarrow> bmatch 1 n (bufs s i) \<and> is_dirty (bufs s i)"
  using assms by (auto simp: locked_buf_def bmatch_def)

lemma locked_buf_unique:
  assumes inv: "bio_inv s" and c: "bget_choice s n i f" and l: "locked_buf s n i b t"
  shows "bufs_unique (bufs t)"
proof -
  have u: "bufs_unique (bufs s)" using inv by (rule bio_invD)
  have "j = k" if "j < NBUF" "k < NBUF" "b_dev (bufs t j) \<noteq> 0"
    "bmatch (b_dev (bufs t j)) (b_blockno (bufs t j)) (bufs t k)" for j k
  proof (cases "j = i \<or> k = i")
    case True
    then show ?thesis
      using that bget_others [OF inv c, of j] bget_others [OF inv c, of k] locked_buf_simps [OF l]
      by (auto simp: bmatch_def split: if_splits)
  next
    case False
    then show ?thesis
      using that u locked_buf_simps(2) [OF l] unfolding bufs_unique_def by simp
  qed
  then show ?thesis unfolding bufs_unique_def by blast
qed

lemma blk_length:
  assumes "bio_inv s"
  shows "length (blk s n) = 512"
proof (cases "\<exists>i<NBUF. bmatch 1 n (bufs s i) \<and> is_valid (bufs s i)")
  case True
  then obtain i where i: "i < NBUF" "bmatch 1 n (bufs s i)" "is_valid (bufs s i)" by blast
  then show ?thesis
    using blk_cached [OF bio_invD(6) [OF assms] i] bio_invD(7) [OF assms i(1)] by (simp add: buf_ok_def)
next
  case False
  then have "blk s n = disk s True (unat n)" by (auto intro: blk_uncached)
  then show ?thesis using bio_invD(8) [OF assms] by simp
qed

lemma locked_buf_inv:
  assumes inv: "bio_inv s" and c: "bget_choice s n i f" and l: "locked_buf s n i b t"
    and n: "unat n < FSSIZE"
  shows "bio_inv t"
proof -
  note L = locked_buf_simps [OF l]
  obtain xs where xs: "dlist (bufs s) xs" using bio_invD(5) [OF inv] by blast
  have "dlist (bufs t) xs" using xs dlist_cong [of "bufs t" "bufs s" xs] L(2,11,12) by simp
  moreover have "buf_ok (blocked t j) (disk t True) (bufs t j)" if "j < NBUF" for j
    using bio_invD(7) [OF inv that] L n blk_length [OF inv]
    by (cases "j = i") (simp_all add: buf_ok_def)
  ultimately show ?thesis
    using inv bframe_simps [OF L(1)] locked_buf_unique [OF inv c l] L(3)
    by (auto simp: bio_inv_def)
qed

lemma locked_buf_blk:
  assumes inv: "bio_inv s" and c: "bget_choice s n i f" and l: "locked_buf s n i b t"
    and fs: "unat n < FSSIZE"
  shows "blk t m = blk s m"
proof (cases "m = n")
  case True
  note L = locked_buf_simps [OF l]
  have "blk t n = b_data (bufs t i)"
    using c L by (intro blk_cached locked_buf_unique [OF inv c l]) (auto simp: bget_choice_def bmatch_def)
  with True L show ?thesis by simp
next
  case False
  note L = locked_buf_simps [OF l]
  have u: "bufs_unique (bufs t)" by (rule locked_buf_unique [OF inv c l])
  show ?thesis
  proof (cases "\<exists>j<NBUF. j \<noteq> i \<and> bmatch 1 m (bufs s j) \<and> is_valid (bufs s j)")
    case True
    then obtain j where j: "j < NBUF" "j \<noteq> i" "bmatch 1 m (bufs s j)" "is_valid (bufs s j)" by blast
    then show ?thesis
      using blk_cached [OF bio_invD(6) [OF inv] j(1,3,4)] blk_cached [OF u j(1), of m] L(2) by simp
  next
    case no: False
    have "blk t m = disk s True (unat m)"
      unfolding L(3) [symmetric] using no False L(2,7)
      by (intro blk_uncached) (auto simp: bmatch_def split: if_splits)
    moreover have "blk s m = disk s True (unat m)"
    proof (cases "bmatch 1 m (bufs s i) \<and> is_valid (bufs s i)")
      case True
      then have "recyclable (bufs s i)" "i < NBUF" "\<not> blocked s i"
        using c False by (auto simp: bget_choice_def bmatch_def)
      then have "b_data (bufs s i) = disk s True (unat m)"
        using bio_invD(7) [OF inv, of i] True by (simp add: buf_ok_def recyclable_def bmatch_def)
      then show ?thesis
        using blk_cached [OF bio_invD(6) [OF inv] \<open>i < NBUF\<close>] True by simp
    next
      case F: False
      then show ?thesis using no by (intro blk_uncached) metis
    qed
    ultimately show ?thesis by simp
  qed
qed

lemma locked_buf_dirty:
  assumes inv: "bio_inv s" and c: "bget_choice s n i f" and l: "locked_buf s n i b t"
  shows "dirty_blocks t = dirty_blocks s"
proof -
  note L = locked_buf_simps [OF l]
  have i: "i < NBUF" using c by (simp add: bget_choice_def)
  have nd: "is_dirty (bufs s i) \<Longrightarrow> bmatch 1 n (bufs s i)"
    using c by (auto simp: bget_choice_def recyclable_def)
  have "bmatch 1 m (bufs t j) \<and> is_dirty (bufs t j) \<longleftrightarrow> bmatch 1 m (bufs s j) \<and> is_dirty (bufs s j)" for m j
    using L nd by (cases "j = i") (auto simp: bmatch_def)
  then show ?thesis by (simp add: dirty_blocks_def)
qed

lemma bread_spec:
  assumes inv: "bio_inv s" and free: "\<And>i. i \<in> held s \<Longrightarrow> b_blockno (bufs s i) \<noteq> n"
    and av: "avail s \<noteq> {} \<or> (\<exists>i<NBUF. bmatch 1 n (bufs s i))" and n: "unat n < FSSIZE"
  shows "\<exists>i t. bread 1 n s = Ok i t \<and> bread_post s n i t"
proof -
  obtain i f b t where r: "bread 1 n s = Ok i t" and c: "bget_choice s n i f" and l: "locked_buf s n i b t"
    using bread_run [OF inv free av n] by blast
  note L = locked_buf_simps [OF l]
  have i: "i < NBUF" "i \<notin> held s" using c by (simp_all add: bget_choice_def held_def)
  have "held t = insert i (held s)" using L(5) i by (auto simp: held_def)
  then have "bread_post s n i t"
    unfolding bread_post_def
    using L i locked_buf_inv [OF inv c l n] locked_buf_blk [OF inv c l n] locked_buf_dirty [OF inv c l]
    by (simp add: fun_eq_iff)
  with r show ?thesis by blast
qed

section \<open>Changing and releasing a buffer\<close>

definition bdata_post :: "'z ide_state_scheme \<Rightarrow> nat \<Rightarrow> block \<Rightarrow> 'z ide_state_scheme \<Rightarrow> bool" where
  "bdata_post s i d t \<longleftrightarrow> bio_inv t \<and> bframe s t \<and> held t = held s
     \<and> b_blockno (bufs t i) = b_blockno (bufs s i) \<and> b_data (bufs t i) = d
     \<and> blk t = (blk s)(b_blockno (bufs s i) := d)
     \<and> disk t = disk s \<and> dtrace t = dtrace s \<and> (\<forall>j. j \<noteq> i \<longrightarrow> bufs t j = bufs s j)
     \<and> dirty_blocks t = dirty_blocks s"

lemma heldD:
  assumes "bio_inv s" and "i \<in> held s"
  shows "i < NBUF" "blocked s i" "b_dev (bufs s i) = 1" "unat (b_blockno (bufs s i)) < FSSIZE"
    "is_valid (bufs s i)" "b_refcnt (bufs s i) = 1" "length (b_data (bufs s i)) = 512"
    "blk s (b_blockno (bufs s i)) = b_data (bufs s i)"
proof -
  show i: "i < NBUF" "blocked s i" using assms(2) by (simp_all add: held_def)
  from bio_invD(7) [OF assms(1) i(1)] i(2)
  show ok: "b_dev (bufs s i) = 1" "unat (b_blockno (bufs s i)) < FSSIZE" "is_valid (bufs s i)"
    "b_refcnt (bufs s i) = 1" "length (b_data (bufs s i)) = 512"
    by (auto simp: buf_ok_def split: if_splits)
  show "blk s (b_blockno (bufs s i)) = b_data (bufs s i)"
    using ok i(1) by (intro blk_cached bio_invD(6) [OF assms(1)]) (simp_all add: bmatch_def)
qed

lemma bframe_bufs: "bframe s (s\<lparr>bufs := bs\<rparr>)"
proof -
  have "s\<lparr>bufs := bs\<rparr> = s\<lparr>ptable := ptable s, sleeplocks := sleeplocks s, bufs := bs, ata := ata s,
      disk := disk s, dtrace := dtrace s\<rparr>" by simp
  then show ?thesis unfolding bframe_def by (intro conjI) (blast, simp_all)
qed

text \<open>An update of one buffer that keeps its identity, its links, its reference and its validity.\<close>

lemma update_buf_inv:
  assumes inv: "bio_inv s" and i: "i \<in> held s"
    and b: "b_dev b = 1" "b_blockno b = b_blockno (bufs s i)" "b_refcnt b = 1" "is_valid b"
      "length (b_data b) = 512" "b_next b = b_next (bufs s i)" "b_prev b = b_prev (bufs s i)"
  shows "bio_inv (s\<lparr>bufs := (bufs s)(i := b)\<rparr>)"
    and "blk (s\<lparr>bufs := (bufs s)(i := b)\<rparr>) = (blk s)(b_blockno (bufs s i) := b_data b)"
proof -
  let ?t = "s\<lparr>bufs := (bufs s)(i := b)\<rparr>" and ?n = "b_blockno (bufs s i)"
  note h = heldD [OF inv i]
  have u: "bufs_unique (bufs ?t)"
  proof -
    have "bmatch d m (bufs ?t j) = bmatch d m (bufs s j)" for d m j
      using b(1,2) h(3) by (simp add: bmatch_def)
    moreover have "b_dev (bufs ?t j) = b_dev (bufs s j)" "b_blockno (bufs ?t j) = b_blockno (bufs s j)" for j
      using b(1,2) h(3) by simp_all
    ultimately show ?thesis using bio_invD(6) [OF inv] unfolding bufs_unique_def by metis
  qed
  obtain xs where xs: "dlist (bufs s) xs" using bio_invD(5) [OF inv] by blast
  have "dlist (bufs ?t) xs" using xs dlist_cong [of "bufs ?t" "bufs s" xs] b(6,7) by simp
  moreover have "buf_ok (blocked ?t j) (disk ?t True) (bufs ?t j)" if "j < NBUF" for j
    using bio_invD(7) [OF inv that] h b by (cases "j = i") (simp_all add: buf_ok_def)
  ultimately show "bio_inv ?t"
    using inv u by (auto simp: bio_inv_def)
  have "blk ?t m = (if m = ?n then b_data b else blk s m)" for m
  proof (cases "m = ?n")
    case True
    then show ?thesis
      using b(1,2,4) h(1) blk_cached [OF u h(1), of m] by (simp add: bmatch_def)
  next
    case False
    have "(bmatch 1 m (bufs ?t j) \<and> is_valid (bufs ?t j)) = (bmatch 1 m (bufs s j) \<and> is_valid (bufs s j))" for j
      using False b(2) by (simp add: bmatch_def)
    moreover have "j \<noteq> i" if "bmatch 1 m (bufs s j)" for j
      using False that by (auto simp: bmatch_def)
    ultimately show ?thesis
      using False by (auto simp: blk_def split: option.split dest!: find_SomeD)
  qed
  then show "blk ?t = (blk s)(?n := b_data b)" by (simp add: fun_eq_iff)
qed

lemma set_data_spec:
  assumes inv: "bio_inv s" and i: "i \<in> held s" and d: "length d = 512"
  shows "bdata_post s i d (with_buf i (\<lambda>b. b\<lparr>b_data := d\<rparr>) s)"
proof -
  note h = heldD [OF inv i]
  have "dirty_blocks (with_buf i (\<lambda>b. b\<lparr>b_data := d\<rparr>) s) = dirty_blocks s"
    by (auto simp: dirty_blocks_def bmatch_def)
  moreover have "held (with_buf i (\<lambda>b. b\<lparr>b_data := d\<rparr>) s) = held s"
    by (simp add: held_def)
  ultimately show ?thesis
    using update_buf_inv [OF inv i, of "(bufs s i)\<lparr>b_data := d\<rparr>"] h d bframe_bufs [of s]
    by (simp add: bdata_post_def with_buf_def)
qed

definition bdirty_post :: "'z ide_state_scheme \<Rightarrow> nat \<Rightarrow> 'z ide_state_scheme \<Rightarrow> bool" where
  "bdirty_post s i t \<longleftrightarrow> bio_inv t \<and> bframe s t \<and> held t = held s
     \<and> b_blockno (bufs t i) = b_blockno (bufs s i) \<and> b_data (bufs t i) = b_data (bufs s i) \<and> blk t = blk s
     \<and> disk t = disk s \<and> dtrace t = dtrace s \<and> (\<forall>j. j \<noteq> i \<longrightarrow> bufs t j = bufs s j)
     \<and> is_dirty (bufs t i) \<and> dirty_blocks t = insert (b_blockno (bufs s i)) (dirty_blocks s)"

lemma dirty_flag_bits [simp]: "bit (f OR B_DIRTY) 2" "bit (f OR B_DIRTY) (Suc 0) = bit f (Suc 0)"
  by (simp_all add: bit_or_iff bit_flags)

lemma set_dirty_spec:
  assumes inv: "bio_inv s" and i: "i \<in> held s"
  shows "bdirty_post s i (with_buf i (\<lambda>b. b\<lparr>b_flags := b_flags b OR B_DIRTY\<rparr>) s)"
proof -
  let ?b = "(bufs s i)\<lparr>b_flags := b_flags (bufs s i) OR B_DIRTY\<rparr>"
  let ?t = "with_buf i (\<lambda>b. b\<lparr>b_flags := b_flags b OR B_DIRTY\<rparr>) s"
  note h = heldD [OF inv i]
  have "bmatch 1 m (bufs ?t j) \<and> is_dirty (bufs ?t j) \<longleftrightarrow>
      bmatch 1 m (bufs s j) \<and> (j = i \<or> is_dirty (bufs s j))" for m j
    by (simp add: bmatch_def)
  then have "dirty_blocks ?t = insert (b_blockno (bufs s i)) (dirty_blocks s)"
    using h(1,3) unfolding dirty_blocks_def by (auto simp: bmatch_def)
  moreover have "held ?t = held s" by (simp add: held_def)
  moreover have "(blk s)(b_blockno (bufs s i) := b_data (bufs s i)) = blk s"
    using h(8) by (simp add: fun_upd_idem)
  ultimately show ?thesis
    using update_buf_inv [OF inv i, of ?b] h bframe_bufs [of s]
    by (simp add: bdirty_post_def with_buf_def)
qed

lemma view_cong:
  assumes "\<And>j. j < NBUF \<Longrightarrow> same_view (bufs t j) (bufs s j)" and "disk t = disk s"
  shows "blk t = blk s" "dirty_blocks t = dirty_blocks s"
proof -
  have eq: "b_dev (bufs t j) = b_dev (bufs s j)" "b_blockno (bufs t j) = b_blockno (bufs s j)"
    "b_flags (bufs t j) = b_flags (bufs s j)" "b_data (bufs t j) = b_data (bufs s j)" if "j < NBUF" for j
    using assms(1) [OF that] by (simp_all add: same_view_def)
  have "find (\<lambda>i. bmatch 1 n (bufs t i) \<and> is_valid (bufs t i)) [0..<NBUF] =
      find (\<lambda>i. bmatch 1 n (bufs s i) \<and> is_valid (bufs s i)) [0..<NBUF]" for n
    by (rule find_cong) (auto simp: bmatch_def eq)
  then show "blk t = blk s"
    using eq(4) assms(2) by (auto simp: blk_def fun_eq_iff split: option.split dest!: find_SomeD)
  show "dirty_blocks t = dirty_blocks s"
    unfolding dirty_blocks_def by (rule Collect_cong) (auto simp: bmatch_def eq)
qed

definition brelse_post :: "'z ide_state_scheme \<Rightarrow> nat \<Rightarrow> 'z ide_state_scheme \<Rightarrow> bool" where
  "brelse_post s i t \<longleftrightarrow> bio_inv t \<and> bframe s t \<and> held t = held s - {i} \<and> blk t = blk s
     \<and> disk t = disk s \<and> dtrace t = dtrace s \<and> dirty_blocks t = dirty_blocks s
     \<and> (\<forall>j. same_view (bufs t j) (bufs s j))"

lemma brelsed_same:
  assumes "j \<noteq> i"
  shows "same_buf (brelsed_bufs i bs j) (bs j)"
  using same_buf_linked [of i "unlinked i (bs(i := (bs i)\<lparr>b_refcnt := b_refcnt (bs i) - 1\<rparr>))" j]
    same_buf_unlinked [of i "bs(i := (bs i)\<lparr>b_refcnt := b_refcnt (bs i) - 1\<rparr>)" j] assms
  by (auto simp: brelsed_bufs_def Let_def same_buf_def)

lemma brelsed_self: "same_buf (brelsed_bufs i bs i) ((bs i)\<lparr>b_refcnt := b_refcnt (bs i) - 1\<rparr>)"
  using same_buf_linked [of i "unlinked i (bs(i := (bs i)\<lparr>b_refcnt := b_refcnt (bs i) - 1\<rparr>))" i]
    same_buf_unlinked [of i "bs(i := (bs i)\<lparr>b_refcnt := b_refcnt (bs i) - 1\<rparr>)" i]
  by (auto simp: brelsed_bufs_def Let_def same_buf_def)

lemma brelsed_view: "same_view (brelsed_bufs i bs j) (bs j)"
  using same_bufD [OF brelsed_same, of j i bs] same_bufD [OF brelsed_self, of i bs]
  by (cases "j = i") (simp_all add: same_view_def)

lemma brelsed_dlist:
  assumes "dlist bs xs" and "i < NBUF" and "b_refcnt (bs i) = 1"
  shows "\<exists>ys. dlist (brelsed_bufs i bs) ys \<and> hd ys = i"
proof -
  let ?bs = "bs(i := (bs i)\<lparr>b_refcnt := b_refcnt (bs i) - 1\<rparr>)"
  have "i \<in> set xs" using assms(1,2) by (simp add: dlist_def)
  then obtain us vs where xs: "xs = us @ i # vs" by (auto simp: in_set_conv_decomp)
  have "dlist ?bs xs" using assms(1) dlist_cong [of ?bs bs xs] by simp
  then have "dlist (linked_front i (unlinked i ?bs)) (i # us @ vs)" using xs dlist_front by simp
  with assms(3) show ?thesis
    by (intro exI [of _ "i # us @ vs"]) (simp add: brelsed_bufs_def Let_def)
qed

lemma brelsed_unique: "bufs_unique bs \<Longrightarrow> bufs_unique (brelsed_bufs i bs)"
  using brelsed_view [of i bs] unfolding bufs_unique_def bmatch_def same_view_def by metis

lemma brelse_spec:
  assumes inv: "bio_inv s" and i: "i \<in> held s"
    and clean: "is_dirty (bufs s i) \<or> b_data (bufs s i) = disk s True (unat (b_blockno (bufs s i)))"
  shows "\<exists>t. brelse i s = Ok () t \<and> brelse_post s i t"
proof -
  let ?t = "brelsed i s"
  note h = heldD [OF inv i] and fr = bframe_brelsed [of s i]
  have t: "bufs ?t = brelsed_bufs i (bufs s)" "disk ?t = disk s" "dtrace ?t = dtrace s"
    "blocked ?t j \<longleftrightarrow> j \<noteq> i \<and> blocked s j" for j
    by (simp_all add: brelsed_def free_sleeplock_def)
  obtain xs where xs: "dlist (bufs s) xs" using bio_invD(5) [OF inv] by blast
  have ok: "buf_ok (blocked ?t j) (disk ?t True) (bufs ?t j)" if "j < NBUF" for j
  proof (cases "j = i")
    case True
    then show ?thesis
      using bio_invD(7) [OF inv that] same_bufD [OF brelsed_self, of i "bufs s"] h clean
      by (auto simp: buf_ok_def t)
  next
    case False
    then show ?thesis
      using bio_invD(7) [OF inv that] same_bufD [OF brelsed_same [OF False], of "bufs s"]
      by (simp add: buf_ok_def t)
  qed
  have "bio_inv ?t"
    using inv bframe_simps [OF fr] ok brelsed_dlist [OF xs h(1,6)] brelsed_unique
    by (auto simp: bio_inv_def t)
  moreover have "held ?t = held s - {i}" by (auto simp: held_def t)
  moreover have "blk ?t = blk s" "dirty_blocks ?t = dirty_blocks s"
    using brelsed_view by (intro view_cong; simp add: t)+
  ultimately have "brelse_post s i ?t"
    using fr brelsed_view by (simp add: brelse_post_def t)
  moreover have "brelse i s = Ok () ?t"
    using bio_invD(1) [OF inv] h(2) by (rule brelse_run)
  ultimately show ?thesis by blast
qed

definition bwrite_post :: "'z ide_state_scheme \<Rightarrow> nat \<Rightarrow> 'z ide_state_scheme \<Rightarrow> bool" where
  "bwrite_post s i t \<longleftrightarrow> bio_inv t \<and> bframe s t \<and> held t = held s \<and> blk t = blk s
     \<and> b_blockno (bufs t i) = b_blockno (bufs s i) \<and> b_data (bufs t i) = b_data (bufs s i)
     \<and> \<not> is_dirty (bufs t i) \<and> (\<forall>j. j \<noteq> i \<longrightarrow> bufs t j = bufs s j)
     \<and> disk t = (disk s)(True := (disk s True)(unat (b_blockno (bufs s i)) := b_data (bufs s i)))
     \<and> dtrace t = dtrace s @ [(True, unat (b_blockno (bufs s i)), b_data (bufs s i))]
     \<and> dirty_blocks t = dirty_blocks s - {b_blockno (bufs s i)}"

lemma bwrite_spec:
  assumes inv: "bio_inv s" and i: "i \<in> held s"
  shows "\<exists>t. bwrite i s = Ok () t \<and> bwrite_post s i t"
proof -
  let ?d = "with_buf i (\<lambda>b. b\<lparr>b_flags := b_flags b OR B_DIRTY\<rparr>) s"
  let ?b = "bufs s i" and ?n = "b_blockno (bufs s i)"
  define u where "u = synced i ?d"
  note h = heldD [OF inv i]
  have "bframe s u" unfolding u_def with_buf_def by (rule bframe_trans [OF bframe_bufs bframe_synced])
  note fs = bframe_simps [OF this]
  have un: "unit_of (b_flags_update f ?b)" "sector_of (b_flags_update f ?b) = unat ?n" for f
    using h(3) by (simp_all add: unit_of_def sector_of_def)
  define c where "c = ?b\<lparr>b_flags := synced_flags (b_flags ?b OR B_DIRTY), b_qnext := None\<rparr>"
  have c: "b_dev c = 1" "b_blockno c = ?n" "b_refcnt c = 1" "is_valid c" "\<not> is_dirty c" "b_data c = b_data ?b"
    "b_next c = b_next ?b" "b_prev c = b_prev ?b"
    using h by (simp_all add: c_def)
  have t: "bufs u = (bufs s)(i := c)" "sleeplocks u = sleeplocks s"
    "disk u = (disk s)(True := (disk s True)(unat ?n := b_data ?b))"
    "dtrace u = dtrace s @ [(True, unat ?n, b_data ?b)]"
    by (simp_all add: u_def synced_def Let_def disk_after_def trace_of_def served_def un c_def)
  have upd: "bio_inv (s\<lparr>bufs := (bufs s)(i := c)\<rparr>)" "blk (s\<lparr>bufs := (bufs s)(i := c)\<rparr>) = (blk s)(?n := b_data c)"
    using update_buf_inv [OF inv i c(1-4)] h c by simp_all
  have ne: "b_blockno (bufs s j) \<noteq> ?n" if "j < NBUF" "j \<noteq> i" "b_dev (bufs s j) = 1" for j
    using bio_invD(6) [OF inv] h(1,3) that unfolding bufs_unique_def by (metis bmatch_def zero_neq_one)
  have ok: "buf_ok (blocked u j) (disk u True) (bufs u j)" if "j < NBUF" for j
    using bio_invD(7) [OF inv that] h c ne [OF that]
    by (cases "j = i") (auto simp: buf_ok_def t unat_eq_iff_word)
  have b': "bufs_unique (bufs u)" "\<exists>xs. dlist (bufs u) xs"
    using bio_invD(5,6) [OF upd(1)] by (simp_all add: t)
  have len: "length (disk u True n) = 512" for n
    using bio_invD(8) [OF inv] h(7) by (simp add: t)
  have inv': "bio_inv u"
    using inv fs b' ok len by (auto simp: bio_inv_def)
  have "blk u m = blk s m" for m
  proof (cases "\<exists>j<NBUF. bmatch 1 m (bufs u j) \<and> is_valid (bufs u j)")
    case True
    then obtain j where j: "j < NBUF" "bmatch 1 m (bufs u j)" "is_valid (bufs u j)" by blast
    then have "blk (s\<lparr>bufs := (bufs s)(i := c)\<rparr>) m = b_data (bufs u j)"
      using blk_cached [OF bio_invD(6) [OF upd(1)] j(1), of m] by (simp add: t)
    then show ?thesis
      using blk_cached [OF b'(1) j] upd(2) h(8) c(6) by (auto split: if_splits)
  next
    case False
    have "bmatch 1 ?n (bufs u i) \<and> is_valid (bufs u i)" using c(1,2,4) by (simp add: t bmatch_def)
    with False h(1) have no: "m \<noteq> ?n" by blast
    have "blk u m = disk u True (unat m)"
      by (rule blk_uncached) (use False in blast)
    moreover have "blk s m = disk s True (unat m)"
    proof (rule blk_uncached)
      fix j assume j: "j < NBUF" "bmatch 1 m (bufs s j)"
      then have "j \<noteq> i" using no by (auto simp: bmatch_def)
      then have "bufs u j = bufs s j" by (simp add: t)
      with False j show "\<not> is_valid (bufs s j)" by metis
    qed
    ultimately show ?thesis using no by (simp add: t unat_eq_iff_word)
  qed
  moreover have "bmatch 1 m (bufs u j) \<and> is_dirty (bufs u j) \<longleftrightarrow>
      m \<noteq> ?n \<and> bmatch 1 m (bufs s j) \<and> is_dirty (bufs s j)" if "j < NBUF" for m j
    using ne [OF that] c h(3) by (cases "j = i") (auto simp: t bmatch_def)
  then have "dirty_blocks u = dirty_blocks s - {?n}" by (auto simp: dirty_blocks_def)
  moreover have "held u = held s" by (simp add: held_def t)
  ultimately have "bwrite_post s i u"
    using inv' \<open>bframe s u\<close> c by (simp add: bwrite_post_def t fun_eq_iff)
  moreover have "iderw_ok i ?d"
    using inv h by (simp add: iderw_ok_def bio_inv_def sector_of_def)
  then have "bwrite i s = Ok () u"
    using inv h(2) iderw_run by (simp add: bwrite_def bind_def bio_inv_def u_def)
  ultimately show ?thesis by blast
qed

section \<open>Room in the cache\<close>

lemma finite_held [simp]: "finite (held s)"
  by (simp add: held_def)

lemma finite_dirty [simp]: "finite (dirty_blocks s)"
proof -
  have "dirty_blocks s \<subseteq> (\<lambda>i. b_blockno (bufs s i)) ` {0..<NBUF}"
    by (auto simp: dirty_blocks_def bmatch_def)
  then show ?thesis by (rule finite_subset) simp
qed

lemma avail_room:
  assumes inv: "bio_inv s" and r: "card (held s) + card (dirty_blocks s) < NBUF"
  shows "avail s \<noteq> {}"
proof
  assume e: "avail s = {}"
  let ?D = "{0..<NBUF} - held s"
  have d: "is_dirty (bufs s i) \<and> b_dev (bufs s i) = 1" if "i \<in> ?D" for i
    using e that bio_invD(7) [OF inv, of i]
    by (auto simp: avail_def held_def recyclable_def buf_ok_def split: if_splits)
  have "inj_on (\<lambda>i. b_blockno (bufs s i)) ?D"
    using d bio_invD(6) [OF inv] unfolding bufs_unique_def inj_on_def
    by (metis DiffD1 atLeastLessThan_iff bmatch_def zero_neq_one)
  moreover have "(\<lambda>i. b_blockno (bufs s i)) ` ?D \<subseteq> dirty_blocks s"
    using d by (auto simp: dirty_blocks_def bmatch_def)
  ultimately have "card ?D \<le> card (dirty_blocks s)"
    by (meson card_inj_on_le finite_dirty)
  moreover have "NBUF - card (held s) \<le> card ?D"
    using diff_card_le_card_Diff [of "held s" "{0..<NBUF}"] by simp
  ultimately show False using r by linarith
qed

lemma bread_postD:
  assumes "bread_post s n i t"
  shows "bio_inv t" "bframe s t" "i < NBUF" "i \<notin> held s" "held t = insert i (held s)"
    "b_blockno (bufs t i) = n" "b_data (bufs t i) = blk s n" "blk t = blk s" "disk t = disk s"
    "dtrace t = dtrace s" "\<And>j. j \<noteq> i \<Longrightarrow> bufs t j = bufs s j" "dirty_blocks t = dirty_blocks s"
  using assms unfolding bread_post_def by blast+

lemma bdata_postD:
  assumes "bdata_post s i d t"
  shows "bio_inv t" "bframe s t" "held t = held s" "b_blockno (bufs t i) = b_blockno (bufs s i)"
    "b_data (bufs t i) = d" "blk t = (blk s)(b_blockno (bufs s i) := d)" "disk t = disk s"
    "dtrace t = dtrace s" "dirty_blocks t = dirty_blocks s" "\<And>j. j \<noteq> i \<Longrightarrow> bufs t j = bufs s j"
  using assms unfolding bdata_post_def by blast+

lemma bdirty_postD:
  assumes "bdirty_post s i t"
  shows "bio_inv t" "bframe s t" "held t = held s" "b_blockno (bufs t i) = b_blockno (bufs s i)"
    "b_data (bufs t i) = b_data (bufs s i)" "blk t = blk s" "disk t = disk s" "dtrace t = dtrace s"
    "dirty_blocks t = insert (b_blockno (bufs s i)) (dirty_blocks s)" "\<And>j. j \<noteq> i \<Longrightarrow> bufs t j = bufs s j"
    "is_dirty (bufs t i)"
  using assms unfolding bdirty_post_def by blast+

lemma bwrite_postD:
  assumes "bwrite_post s i t"
  shows "bio_inv t" "bframe s t" "held t = held s" "b_blockno (bufs t i) = b_blockno (bufs s i)"
    "b_data (bufs t i) = b_data (bufs s i)" "blk t = blk s"
    "disk t = (disk s)(True := (disk s True)(unat (b_blockno (bufs s i)) := b_data (bufs s i)))"
    "dtrace t = dtrace s @ [(True, unat (b_blockno (bufs s i)), b_data (bufs s i))]"
    "dirty_blocks t = dirty_blocks s - {b_blockno (bufs s i)}" "\<And>j. j \<noteq> i \<Longrightarrow> bufs t j = bufs s j"
  using assms unfolding bwrite_post_def by blast+

lemma brelse_postD:
  assumes "brelse_post s i t"
  shows "bio_inv t" "bframe s t" "held t = held s - {i}" "blk t = blk s" "disk t = disk s"
    "dtrace t = dtrace s" "dirty_blocks t = dirty_blocks s" "\<And>j. same_view (bufs t j) (bufs s j)"
  using assms unfolding brelse_post_def by blast+

section \<open>Initialisation\<close>

lemma initsleeplock_run:
  "\<exists>lk. initsleeplock l s = Ok () (s\<lparr>locks := lk, sleeplocks := (sleeplocks s)(l := free_sleeplock)\<rparr>)"
  by (simp add: initsleeplock_def initlock_def bind_def with_lock_def set_sleeplock_def
      free_sleeplock_def sleeplock_update) (rule exI, rule refl)

lemma binit_one_run:
  "\<exists>lk sl. binit_one b s = Ok () (s\<lparr>locks := lk, sleeplocks := sl, bufs := linked_front b (bufs s)\<rparr>)
     \<and> sl = (sleeplocks s)(SL_buf b := free_sleeplock)"
proof -
  let ?bs = "(bufs s)(b := (bufs s b)\<lparr>b_next := b_next (bufs s bhead)\<rparr>)"
  let ?u = "s\<lparr>bufs := ?bs(b := (?bs b)\<lparr>b_prev := bhead\<rparr>)\<rparr>"
  obtain lk where "initsleeplock (SL_buf b) ?u = Ok () (?u\<lparr>locks := lk, sleeplocks := (sleeplocks ?u)(SL_buf b := free_sleeplock)\<rparr>)"
    using initsleeplock_run by blast
  then have "binit_one b s = Ok () (s\<lparr>locks := lk, sleeplocks := (sleeplocks s)(SL_buf b := free_sleeplock),
      bufs := linked_front b (bufs s)\<rparr>)"
    by (simp add: binit_one_def bind_def with_buf_def linked_front_def Let_def del: fun_upd_apply)
  then show ?thesis by blast
qed

lemma binit_loop:
  assumes "links (bufs s) (bhead # rev [0..<k] @ [bhead])" and "k \<le> m" and "m \<le> NBUF"
  shows "\<exists>t. for_each [k..<m] binit_one s = Ok () t \<and> links (bufs t) (bhead # rev [0..<m] @ [bhead])
    \<and> (\<forall>i. same_buf (bufs t i) (bufs s i)) \<and> (\<forall>i. k \<le> i \<and> i < m \<longrightarrow> sleeplocks t (SL_buf i) = free_sleeplock)
    \<and> (\<forall>i<k. sleeplocks t (SL_buf i) = sleeplocks s (SL_buf i))"
  using assms(2,1)
proof (induction k arbitrary: s rule: inc_induct)
  case base
  then show ?case by auto
next
  case (step k)
  obtain lk sl where r: "binit_one k s = Ok () (s\<lparr>locks := lk, sleeplocks := sl, bufs := linked_front k (bufs s)\<rparr>)"
    and sl: "sl = (sleeplocks s)(SL_buf k := free_sleeplock)"
    using binit_one_run by blast
  let ?u = "s\<lparr>locks := lk, sleeplocks := sl, bufs := linked_front k (bufs s)\<rparr>"
  have "links (linked_front k (bufs s)) (bhead # k # rev [0..<k] @ [bhead])"
    using step.prems step.hyps assms(3) by (intro links_front) auto
  then have "links (bufs ?u) (bhead # rev [0..<Suc k] @ [bhead])" by simp
  from step.IH [OF this] obtain t where t: "for_each [Suc k..<m] binit_one ?u = Ok () t"
    "links (bufs t) (bhead # rev [0..<m] @ [bhead])" "\<forall>i. same_buf (bufs t i) (bufs ?u i)"
    "\<forall>i. Suc k \<le> i \<and> i < m \<longrightarrow> sleeplocks t (SL_buf i) = free_sleeplock"
    "\<forall>i<Suc k. sleeplocks t (SL_buf i) = sleeplocks ?u (SL_buf i)" by blast
  have "[k..<m] = k # [Suc k..<m]" using step.hyps by (simp add: upt_conv_Cons)
  then have "for_each [k..<m] binit_one s = Ok () t" using r t(1) by (simp add: bind_def)
  moreover have "same_buf (bufs t i) (bufs s i)" for i
    using t(3) same_buf_linked [of k "bufs s" i] by (simp add: same_buf_def)
  moreover have "sleeplocks t (SL_buf i) = free_sleeplock" if "k \<le> i" "i < m" for i
    using t(4,5) that sl by (cases "i = k") auto
  moreover have "sleeplocks t (SL_buf i) = sleeplocks s (SL_buf i)" if "i < k" for i
    using t(5) that sl by simp
  ultimately show ?case using t(2) by blast
qed

text \<open>
  C20: \<open>binit\<close> links all buffers into one circular list, in both directions, and frees
  their sleep locks, whatever the pointers were before; it changes nothing else of them.
\<close>

theorem binit_builds_list:
  "\<exists>t. binit s = Ok () t \<and> dlist (bufs t) (rev [0..<NBUF]) \<and>
     (\<forall>i. same_buf (bufs t i) (bufs s i)) \<and>
     map (\<lambda>i. sleeplocks t (SL_buf i)) [0..<NBUF] = replicate NBUF free_sleeplock"
proof -
  let ?u = "with_lock L_bcache (\<lambda>l. l\<lparr>lk_locked := 0, lk_cpu := None\<rparr>) s"
  let ?v = "?u\<lparr>bufs := (bufs ?u)(bhead := (bufs ?u bhead)\<lparr>b_prev := bhead, b_next := bhead\<rparr>)\<rparr>"
  have "links (bufs ?v) (bhead # rev [0..<0] @ [bhead])" by simp
  then obtain t where t: "for_each [0..<NBUF] binit_one ?v = Ok () t"
    "links (bufs t) (bhead # rev [0..<NBUF] @ [bhead])" "\<forall>i. same_buf (bufs t i) (bufs ?v i)"
    "\<forall>i. 0 \<le> i \<and> i < NBUF \<longrightarrow> sleeplocks t (SL_buf i) = free_sleeplock"
    using binit_loop [of ?v 0 NBUF] by blast
  moreover have "binit s = for_each [0..<NBUF] binit_one ?v"
    by (simp add: binit_def initlock_def bind_def with_buf_def)
  moreover have "same_buf (bufs t i) (bufs s i)" for i
    using t(3) [rule_format, of i] by (simp add: same_buf_def with_lock_def split: if_splits)
  moreover have "map (\<lambda>i. sleeplocks t (SL_buf i)) [0..<NBUF] = replicate NBUF free_sleeplock"
    using t(4) by (intro nth_equalityI) auto
  ultimately show ?thesis by (auto simp: dlist_def)
qed

section \<open>Using a block\<close>

text \<open>A block can be read: no one holds its buffer, and it is cached or a buffer is free.\<close>

definition bready :: "'z ide_state_scheme \<Rightarrow> uint \<Rightarrow> bool" where
  "bready s n \<longleftrightarrow> bio_inv s \<and> (\<forall>i\<in>held s. b_blockno (bufs s i) \<noteq> n) \<and> unat n < FSSIZE
     \<and> (avail s \<noteq> {} \<or> (\<exists>i<NBUF. bmatch 1 n (bufs s i)))"

text \<open>Two states between which blocks were only looked at.\<close>

definition bsame :: "'z ide_state_scheme \<Rightarrow> 'z ide_state_scheme \<Rightarrow> bool" where
  "bsame s t \<longleftrightarrow> bio_inv t \<and> bframe s t \<and> held t = held s \<and> blk t = blk s \<and> disk t = disk s
     \<and> dtrace t = dtrace s \<and> dirty_blocks t = dirty_blocks s \<and> (\<forall>i\<in>held s. same_view (bufs t i) (bufs s i))"

lemma same_view_refl [simp]: "same_view b b"
  by (simp add: same_view_def)

lemma bready_bread: "bready s n \<Longrightarrow> \<exists>i t. bread 1 n s = Ok i t \<and> bread_post s n i t"
  unfolding bready_def by (intro bread_spec) auto

lemma dirty_held:
  assumes "bio_inv s" and "i \<in> held s" and "b_blockno (bufs s i) \<in> dirty_blocks s"
  shows "is_dirty (bufs s i)"
proof -
  from assms(3) obtain j where j: "j < NBUF" "bmatch 1 (b_blockno (bufs s i)) (bufs s j)" "is_dirty (bufs s j)"
    by (auto simp: dirty_blocks_def)
  have "i = j"
    using bio_invD(6) [OF assms(1), unfolded bufs_unique_def, rule_format, of i j]
      heldD(1,3) [OF assms(1,2)] j by simp
  with j show ?thesis by simp
qed

lemma bread_releasable:
  assumes s: "bready s n" and t: "bread_post s n i t"
  shows "is_dirty (bufs t i) \<or> b_data (bufs t i) = disk t True (unat (b_blockno (bufs t i)))"
proof (cases "n \<in> dirty_blocks s")
  case True
  then show ?thesis using dirty_held [of t i] t by (simp add: bread_post_def)
next
  case False
  then show ?thesis using blk_clean [of s n] s t by (simp add: bread_post_def bready_def)
qed

lemma bread_brelse:
  assumes s: "bready s n"
  shows "\<exists>i t u. bread 1 n s = Ok i t \<and> bread_post s n i t \<and> brelse i t = Ok () u \<and> bsame s u"
proof -
  obtain i t where t: "bread 1 n s = Ok i t" "bread_post s n i t" using bready_bread [OF s] by blast
  note p = t(2) [unfolded bread_post_def]
  obtain u where u: "brelse i t = Ok () u" "brelse_post t i u"
    using brelse_spec [of t i] bread_releasable [OF s t(2)] p by auto
  have "same_view (bufs u j) (bufs s j)" if "j \<in> held s" for j
  proof -
    have "j \<noteq> i" using p that by blast
    then have "bufs t j = bufs s j" using p by blast
    then show ?thesis using u(2) unfolding brelse_post_def by metis
  qed
  with p u(2) have "bsame s u" by (auto simp: bsame_def brelse_post_def intro: bframe_trans)
  with t u show ?thesis by blast
qed

text \<open>The pattern of a reader: what it computes from the block, and an unchanged state.\<close>

definition read_block :: "uint \<Rightarrow> (block \<Rightarrow> 'a) \<Rightarrow> ('z ide_state_scheme, 'a) op" where
  "read_block n f = bind (bread 1 n) (\<lambda>i. bind (get_buf i) (\<lambda>b. bind (brelse i) (\<lambda>_. return (f (b_data b)))))"

lemma read_block_run:
  assumes "bready s n"
  shows "\<exists>t. read_block n f s = Ok (f (blk s n)) t \<and> bsame s t"
proof -
  obtain i t u where r: "bread 1 n s = Ok i t" "bread_post s n i t" "brelse i t = Ok () u" "bsame s u"
    using bread_brelse [OF assms] by blast
  then have "read_block n f s = Ok (f (blk s n)) u"
    by (simp add: read_block_def bread_post_def)
  with r show ?thesis by blast
qed

text \<open>The pattern of a writer that goes to the disk at once.\<close>

definition write_block :: "uint \<Rightarrow> (block \<Rightarrow> block) \<Rightarrow> ('z ide_state_scheme, unit) op" where
  "write_block n f = bind (bread 1 n) (\<lambda>i. bind (set_buf i (\<lambda>b. b\<lparr>b_data := f (b_data b)\<rparr>)) (\<lambda>_.
     bind (bwrite i) (\<lambda>_. brelse i)))"

definition bwritten :: "'z ide_state_scheme \<Rightarrow> uint \<Rightarrow> block \<Rightarrow> 'z ide_state_scheme \<Rightarrow> bool" where
  "bwritten s n d t \<longleftrightarrow> bio_inv t \<and> bframe s t \<and> held t = held s \<and> blk t = (blk s)(n := d)
     \<and> disk t = (disk s)(True := (disk s True)(unat n := d)) \<and> dtrace t = dtrace s @ [(True, unat n, d)]
     \<and> dirty_blocks t = dirty_blocks s - {n} \<and> (\<forall>i\<in>held s. same_view (bufs t i) (bufs s i))"

lemma write_locked:
  assumes s: "bio_inv s" and i: "i \<in> held s" and d: "length d = 512"
  shows "\<exists>t u. bwrite i (with_buf i (\<lambda>b. b\<lparr>b_data := d\<rparr>) s) = Ok () t \<and> brelse i t = Ok () u
    \<and> held t = held s \<and> bio_inv t \<and> bio_inv u \<and> bframe s u \<and> held u = held s - {i}
    \<and> blk u = (blk s)(b_blockno (bufs s i) := d)
    \<and> disk u = (disk s)(True := (disk s True)(unat (b_blockno (bufs s i)) := d))
    \<and> dtrace u = dtrace s @ [(True, unat (b_blockno (bufs s i)), d)]
    \<and> dirty_blocks u = dirty_blocks s - {b_blockno (bufs s i)}
    \<and> (\<forall>j\<in>held s - {i}. same_view (bufs u j) (bufs s j))"
proof -
  define v where "v = with_buf i (\<lambda>b. b\<lparr>b_data := d\<rparr>) s"
  have v: "bdata_post s i d v" using set_data_spec [OF s i d] by (simp add: v_def)
  note v = bdata_postD [OF v]
  have "i \<in> held v" using i v(3) by simp
  from bwrite_spec [OF v(1) this] obtain t where tr: "bwrite i v = Ok () t" and t': "bwrite_post v i t" by blast
  note t = bwrite_postD [OF t']
  have it: "i \<in> held t" using i v(3) t(3) by simp
  have "b_data (bufs t i) = disk t True (unat (b_blockno (bufs t i)))" using t(4,5,7) by simp
  then obtain u where ur: "brelse i t = Ok () u" and u': "brelse_post t i u"
    using brelse_spec [OF t(1) it] by blast
  note u = brelse_postD [OF u']
  have sv: "\<forall>j\<in>held s - {i}. same_view (bufs u j) (bufs s j)"
    using u(8) t(10) v(10) by (metis DiffE insertI1)
  have fr: "bframe s u" using v(2) t(2) u(2) by (blast intro: bframe_trans)
  show ?thesis
    by (rule exI [of _ t], rule exI [of _ u])
      (simp add: tr [unfolded v_def] ur t(1) u(1) fr sv u(3-7), simp add: t(3,6,7,8,9) v(3-9))
qed

lemma write_block_run:
  assumes s: "bready s n" and d: "length (f (blk s n)) = 512"
  shows "\<exists>t. write_block n f s = Ok () t \<and> bwritten s n (f (blk s n)) t"
proof -
  obtain i t where t: "bread 1 n s = Ok i t" "bread_post s n i t" using bready_bread [OF s] by blast
  note t' = t(2) [unfolded bread_post_def]
  let ?d = "f (blk s n)"
  obtain v u where v: "bwrite i (with_buf i (\<lambda>b. b\<lparr>b_data := ?d\<rparr>) t) = Ok () v" "brelse i v = Ok () u"
    and u: "bio_inv u" "bframe t u" "held u = held t - {i}" "blk u = (blk t)(n := ?d)"
      "disk u = (disk t)(True := (disk t True)(unat n := ?d))" "dtrace u = dtrace t @ [(True, unat n, ?d)]"
      "dirty_blocks u = dirty_blocks t - {n}" "\<forall>j\<in>held t - {i}. same_view (bufs u j) (bufs t j)"
    using write_locked [of t i ?d] t' d by auto
  have e: "with_buf i (\<lambda>b. b\<lparr>b_data := f (b_data b)\<rparr>) t = with_buf i (\<lambda>b. b\<lparr>b_data := ?d\<rparr>) t"
    using t' by (simp add: with_buf_def)
  have "same_view (bufs u j) (bufs s j)" if "j \<in> held s" for j
  proof -
    have "j \<in> held t - {i}" "bufs t j = bufs s j" using t' that by auto
    then show ?thesis using u(8) by metis
  qed
  then have "bwritten s n ?d u"
    using u t' by (auto simp: bwritten_def intro: bframe_trans)
  moreover have "write_block n f s = Ok () u" using t(1) e v by (simp add: write_block_def)
  ultimately show ?thesis by blast
qed

text \<open>A machine on which process 0 runs, with the cache as \<open>binit\<close> leaves it.\<close>

definition boot_buf :: "nat \<Rightarrow> buf" where
  "boot_buf i = empty_buf\<lparr>b_next := (if i = 0 then bhead else i - 1), b_prev := (if i = bhead then 0 else i + 1)\<rparr>"

definition cache_boot :: "(nat \<Rightarrow> block) \<Rightarrow> 'z \<Rightarrow> 'z ide_state_scheme" where
  "cache_boot d z = ide_state.extend ((ide_boot (\<lambda>_. d))\<lparr>bufs := boot_buf\<rparr>) z"

lemma boot_buf_dlist: "dlist boot_buf (rev [0..<NBUF])"
proof -
  have "links boot_buf (bhead # rev [0..<NBUF] @ [bhead])"
    by (simp add: NBUF_def upt_rec boot_buf_def)
  then show ?thesis by (auto simp: dlist_def)
qed

lemma cache_boot_simps [simp]:
  "bufs (cache_boot d z) = boot_buf" "disk (cache_boot d z) = (\<lambda>_. d)" "dtrace (cache_boot d z) = []"
  "sleeplocks (cache_boot d z) = (\<lambda>_. free_sleeplock)" "ide_state.more (cache_boot d z) = z"
  "idequeue (cache_boot d z) = None" "havedisk1 (cache_boot d z)"
  by (simp_all add: cache_boot_def ide_state.defs ide_boot_def)

lemma cache_boot_held [simp]: "held (cache_boot d z) = {}"
  by (auto simp: held_def free_sleeplock_def)

lemma cache_boot_dirty [simp]: "dirty_blocks (cache_boot d z) = {}"
  by (auto simp: dirty_blocks_def boot_buf_def empty_buf_def)

lemma cache_boot_blk [simp]: "blk (cache_boot d z) n = d (unat n)"
  by (subst blk_uncached) (auto simp: bmatch_def boot_buf_def empty_buf_def)

lemma cache_boot_kernel [simp]: "in_kernel (cache_boot d z)"
  by (simp add: in_kernel_def quiet_def settled_def lock_free_def cache_boot_def ide_state.defs ide_boot_def
      idle_cpu_def unlocked_def del: quietD in_kernelD)

lemma cache_boot_inv:
  assumes "\<And>n. length (d n) = 512"
  shows "bio_inv (cache_boot d z)"
proof -
  have "ide_ready (cache_boot d z)"
    by (simp add: cache_boot_def ide_state.defs ide_boot_def ide_ready_def IDE_DRDY_def IDE_BSY_def
        IDE_DF_def IDE_ERR_def)
  moreover have "\<exists>xs. dlist (bufs (cache_boot d z)) xs" using boot_buf_dlist by auto
  moreover have "bufs_unique boot_buf" by (simp add: bufs_unique_def boot_buf_def empty_buf_def)
  ultimately show ?thesis
    using assms by (simp add: bio_inv_def buf_ok_def free_sleeplock_def) (simp add: boot_buf_def empty_buf_def)
qed

lemma cache_boot_ready:
  "(\<And>n. length (d n) = 512) \<Longrightarrow> unat n < FSSIZE \<Longrightarrow> bready (cache_boot d z) n"
  using cache_boot_inv [of d z] avail_room [of "cache_boot d z"] by (simp add: bready_def)

section \<open>The cache as a disk\<close>

text \<open>
  C18: Reading a block gives its content as seen through the cache, whether it is cached
  or comes from the disk, in a locked buffer that no one else holds; nothing is written,
  no block changes, and the cache stays well formed, with one buffer for each block.
\<close>

theorem bread_coherent:
  assumes "bio_inv s" and "unat n < FSSIZE" and "\<forall>i\<in>held s. b_blockno (bufs s i) \<noteq> n"
    and "card (held s) + card (dirty_blocks s) < NBUF"
  shows "\<exists>i t. bread 1 n s = Ok i t \<and> b_data (bufs t i) = blk s n \<and> i \<notin> held s \<and> held t = insert i (held s)
    \<and> blk t = blk s \<and> disk t = disk s \<and> dtrace t = dtrace s \<and> bio_inv t"
  using bready_bread [of s n] avail_room [OF assms(1,4)] assms(1-3)
  by (auto simp: bready_def bread_post_def)

definition blank_machine :: ide_state where "blank_machine = cache_boot (\<lambda>_. zero_block) ()"

theorem bread_coherent_witness:
  "\<exists>i t. bread 1 7 blank_machine = Ok i t \<and> b_data (bufs t i) = zero_block \<and> held t = {i} \<and> bio_inv t"
proof -
  have "bio_inv blank_machine" by (simp add: blank_machine_def cache_boot_inv)
  then show ?thesis
    using bread_coherent [of blank_machine 7] by (auto simp: blank_machine_def)
qed

text \<open>
  C19: What is written is what is read: filling a block's buffer, \<open>bwrite\<close> and \<open>brelse\<close>
  put the data on the disk in one write, and reading the block again returns it; every
  other block keeps its content.
\<close>

theorem bwrite_bread_roundtrip:
  assumes "bio_inv s" and "unat n < FSSIZE" and "held s = {}" and "card (dirty_blocks s) < NBUF"
    and "length d = 512"
  shows "\<exists>j t. bind (bread 1 n) (\<lambda>i. bind (set_buf i (\<lambda>b. b\<lparr>b_data := d\<rparr>)) (\<lambda>_.
       bind (bwrite i) (\<lambda>_. bind (brelse i) (\<lambda>_. bread 1 n)))) s = Ok j t
     \<and> b_data (bufs t j) = d \<and> disk t True (unat n) = d \<and> dtrace t = dtrace s @ [(True, unat n, d)]
     \<and> blk t = (blk s)(n := d)"
proof -
  have r: "bready s n" using avail_room [OF assms(1)] assms by (simp add: bready_def)
  obtain t where t: "write_block n (\<lambda>_. d) s = Ok () t" "bwritten s n d t"
    using write_block_run [OF r, of "\<lambda>_. d"] assms(5) by auto
  have "card (dirty_blocks t) \<le> card (dirty_blocks s)"
    using t(2) by (simp add: bwritten_def card_mono)
  then have "bready t n" using avail_room [of t] assms t(2) by (simp add: bready_def bwritten_def)
  then obtain j u where u: "bread 1 n t = Ok j u" "bread_post t n j u" using bready_bread by blast
  have "bind (write_block n (\<lambda>_. d)) (\<lambda>_. bread 1 n) s = Ok j u" using t(1) u(1) by simp
  then show ?thesis
    using t(2) u(2) by (auto simp: write_block_def bind_assoc bwritten_def bread_post_def)
qed

theorem bwrite_bread_roundtrip_witness:
  "\<exists>j t. bind (bread 1 7) (\<lambda>i. bind (set_buf i (\<lambda>b. b\<lparr>b_data := replicate 512 42\<rparr>)) (\<lambda>_.
       bind (bwrite i) (\<lambda>_. bind (brelse i) (\<lambda>_. bread 1 7)))) blank_machine = Ok j t
     \<and> b_data (bufs t j) = replicate 512 42 \<and> disk t True 7 = replicate 512 42
     \<and> dtrace t = [(True, 7, replicate 512 42)]"
proof -
  have "bio_inv blank_machine" by (simp add: blank_machine_def cache_boot_inv)
  then show ?thesis
    using bwrite_bread_roundtrip [of blank_machine 7 "replicate 512 42"] by (auto simp: blank_machine_def)
qed

end
