(* ===== verification/Log.thy ===== *)
theory Log
  imports Bcache
begin

text \<open>
  The redo log of \<open>log.c\<close>, its on-disk header, transactions, commit and recovery. The
  \<open>int\<close> fields that the code compares are integers; the block numbers in the header and
  the start of the log are only ever converted to \<open>uint\<close> and are kept as such words.
  An index outside the header's array is undefined in C; the model stops there with the
  panic \<open>undefined\<close>.
\<close>

section \<open>State\<close>

record logheader =
  lh_n :: int
  lh_block :: "nat \<Rightarrow> uint"

record log_state = ide_state +
  log_start :: uint
  log_size :: int
  log_outstanding :: int
  log_committing :: bool
  log_dev :: uint
  log_lh :: logheader

definition empty_header :: logheader where
  "empty_header = \<lparr>lh_n = 0, lh_block = (\<lambda>_. 0)\<rparr>"

text \<open>Tails of a loop from 0 up to the header's count, and the bound of the array.\<close>

definition tails :: "logheader \<Rightarrow> nat list" where
  "tails lh = [0..<nat (lh_n lh)]"

definition in_header :: "nat \<Rightarrow> ('s, unit) op" where
  "in_header i = panic_if (\<not> i < LOGSIZE) ''undefined''"

definition set_lh :: "(logheader \<Rightarrow> logheader) \<Rightarrow> ('z log_state_scheme, unit) op" where
  "set_lh f = modify (\<lambda>s. s\<lparr>log_lh := f (log_lh s)\<rparr>)"

text \<open>The header block: the count in the first word, the block numbers after it.\<close>

definition get_header :: "block \<Rightarrow> logheader" where
  "get_header d = \<lparr>lh_n = sint (get_u32 0 d), lh_block = (\<lambda>i. get_u32 (4 + 4 * i) d)\<rparr>"

primrec put_blocks :: "(nat \<Rightarrow> uint) \<Rightarrow> nat \<Rightarrow> block \<Rightarrow> block" where
  "put_blocks f 0 d = d"
| "put_blocks f (Suc i) d = put_u32 (4 + 4 * i) (f i) (put_blocks f i d)"

definition put_header :: "logheader \<Rightarrow> block \<Rightarrow> block" where
  "put_header lh d = put_blocks (lh_block lh) (nat (lh_n lh)) (put_u32 0 (word_of_int (lh_n lh)) d)"

section \<open>Operations\<close>

definition readsb :: "uint \<Rightarrow> ('z log_state_scheme, superblock) op" where
  "readsb dev =
     bind (bread dev 1) (\<lambda>bp.
     bind (get_buf bp) (\<lambda>b.
     bind (brelse bp) (\<lambda>_.
     return (superblock_of (b_data b)))))"

definition install_one :: "nat \<Rightarrow> ('z log_state_scheme, unit) op" where
  "install_one tail =
     bind (gets (\<lambda>s. (log_dev s, log_start s))) (\<lambda>(dev, start).
     bind (bread dev (start + of_nat tail + 1)) (\<lambda>lbuf.
     bind (in_header tail) (\<lambda>_.
     bind (gets (\<lambda>s. lh_block (log_lh s) tail)) (\<lambda>n.
     bind (bread dev n) (\<lambda>dbuf.
     bind (get_buf lbuf) (\<lambda>l.
     bind (set_buf dbuf (\<lambda>b. b\<lparr>b_data := b_data l\<rparr>)) (\<lambda>_.
     bind (bwrite dbuf) (\<lambda>_.
     bind (brelse lbuf) (\<lambda>_.
     brelse dbuf)))))))))"

definition install_trans :: "('z log_state_scheme, unit) op" where
  "install_trans = bind (gets log_lh) (\<lambda>lh. for_each (tails lh) install_one)"

definition read_head :: "('z log_state_scheme, unit) op" where
  "read_head =
     bind (gets (\<lambda>s. (log_dev s, log_start s))) (\<lambda>(dev, start).
     bind (bread dev start) (\<lambda>bp.
     bind (get_buf bp) (\<lambda>b.
     bind (set_lh (\<lambda>lh. lh\<lparr>lh_n := lh_n (get_header (b_data b))\<rparr>)) (\<lambda>_.
     bind (gets log_lh) (\<lambda>lh.
     bind (for_each (tails lh) (\<lambda>i.
       bind (in_header i) (\<lambda>_.
       set_lh (\<lambda>lh. lh\<lparr>lh_block := (lh_block lh)(i := lh_block (get_header (b_data b)) i)\<rparr>)))) (\<lambda>_.
     brelse bp))))))"

definition write_head :: "('z log_state_scheme, unit) op" where
  "write_head =
     bind (gets (\<lambda>s. (log_dev s, log_start s))) (\<lambda>(dev, start).
     bind (bread dev start) (\<lambda>bp.
     bind (gets log_lh) (\<lambda>lh.
     bind (set_buf bp (\<lambda>b. b\<lparr>b_data := put_u32 0 (word_of_int (lh_n lh)) (b_data b)\<rparr>)) (\<lambda>_.
     bind (for_each (tails lh) (\<lambda>i.
       bind (in_header i) (\<lambda>_.
       set_buf bp (\<lambda>b. b\<lparr>b_data := put_u32 (4 + 4 * i) (lh_block lh i) (b_data b)\<rparr>)))) (\<lambda>_.
     bind (bwrite bp) (\<lambda>_.
     brelse bp))))))"

definition recover_from_log :: "('z log_state_scheme, unit) op" where
  "recover_from_log =
     bind read_head (\<lambda>_.
     bind install_trans (\<lambda>_.
     bind (set_lh (\<lambda>lh. lh\<lparr>lh_n := 0\<rparr>)) (\<lambda>_.
     write_head)))"

definition sizeof_logheader :: nat where
  "sizeof_logheader = 4 + 4 * LOGSIZE"

definition initlog :: "uint \<Rightarrow> ('z log_state_scheme, unit) op" where
  "initlog dev =
     bind (panic_if (sizeof_logheader \<ge> BSIZE) ''initlog: too big logheader'') (\<lambda>_.
     bind (initlock L_log) (\<lambda>_.
     bind (readsb dev) (\<lambda>sb.
     bind (modify (\<lambda>s. s\<lparr>log_start := sb_logstart sb\<rparr>)) (\<lambda>_.
     bind (modify (\<lambda>s. s\<lparr>log_size := sint (sb_nlog sb)\<rparr>)) (\<lambda>_.
     bind (modify (\<lambda>s. s\<lparr>log_dev := dev\<rparr>)) (\<lambda>_.
     recover_from_log))))))"

text \<open>
  A process that sleeps in \<open>begin_op\<close> tests both conditions again when it is woken and
  has the log's lock back: it runs the operation from the start.
\<close>

definition begin_op :: "('z log_state_scheme, unit) op" where
  "begin_op =
     bind (acquire L_log) (\<lambda>_.
     bind (gets log_committing) (\<lambda>committing.
     bind (gets (\<lambda>s. lh_n (log_lh s) + (log_outstanding s + 1) * int MAXOPBLOCKS)) (\<lambda>need.
     if committing then sleep ChLog L_log
     else if need > int LOGSIZE then sleep ChLog L_log
     else bind (modify (\<lambda>s. s\<lparr>log_outstanding := log_outstanding s + 1\<rparr>)) (\<lambda>_.
          release L_log))))"

definition write_log_one :: "nat \<Rightarrow> ('z log_state_scheme, unit) op" where
  "write_log_one tail =
     bind (gets (\<lambda>s. (log_dev s, log_start s))) (\<lambda>(dev, start).
     bind (bread dev (start + of_nat tail + 1)) (\<lambda>to.
     bind (in_header tail) (\<lambda>_.
     bind (gets (\<lambda>s. lh_block (log_lh s) tail)) (\<lambda>n.
     bind (bread dev n) (\<lambda>from.
     bind (get_buf from) (\<lambda>f.
     bind (set_buf to (\<lambda>b. b\<lparr>b_data := b_data f\<rparr>)) (\<lambda>_.
     bind (bwrite to) (\<lambda>_.
     bind (brelse from) (\<lambda>_.
     brelse to)))))))))"

definition write_log :: "('z log_state_scheme, unit) op" where
  "write_log = bind (gets log_lh) (\<lambda>lh. for_each (tails lh) write_log_one)"

definition commit :: "('z log_state_scheme, unit) op" where
  "commit =
     bind (gets log_lh) (\<lambda>lh.
     if lh_n lh > 0 then
       bind write_log (\<lambda>_.
       bind write_head (\<lambda>_.
       bind install_trans (\<lambda>_.
       bind (set_lh (\<lambda>lh. lh\<lparr>lh_n := 0\<rparr>)) (\<lambda>_.
       write_head))))
     else return ())"

definition end_op :: "('z log_state_scheme, unit) op" where
  "end_op =
     bind (acquire L_log) (\<lambda>_.
     bind (modify (\<lambda>s. s\<lparr>log_outstanding := log_outstanding s - 1\<rparr>)) (\<lambda>_.
     bind (gets log_committing) (\<lambda>committing.
     bind (panic_if committing ''log.committing'') (\<lambda>_.
     bind (gets log_outstanding) (\<lambda>outstanding.
     bind (if outstanding = 0 then modify (\<lambda>s. s\<lparr>log_committing := True\<rparr>) else wakeup ChLog) (\<lambda>_.
     bind (release L_log) (\<lambda>_.
     if outstanding = 0 then
       bind commit (\<lambda>_.
       bind (acquire L_log) (\<lambda>_.
       bind (modify (\<lambda>s. s\<lparr>log_committing := False\<rparr>)) (\<lambda>_.
       bind (wakeup ChLog) (\<lambda>_.
       release L_log))))
     else return ())))))))"

text \<open>The search of \<open>log_write\<close>: the first entry for the block, or the count.\<close>

definition log_slot :: "uint \<Rightarrow> logheader \<Rightarrow> nat" where
  "log_slot n lh = (case find (\<lambda>i. lh_block lh i = n) (tails lh) of Some i \<Rightarrow> i | None \<Rightarrow> nat (lh_n lh))"

definition log_write :: "nat \<Rightarrow> ('z log_state_scheme, unit) op" where
  "log_write b =
     bind (gets (\<lambda>s. (lh_n (log_lh s), log_size s, log_outstanding s))) (\<lambda>(n, size, outstanding).
     bind (panic_if (n \<ge> int LOGSIZE \<or> n \<ge> size - 1) ''too big a transaction'') (\<lambda>_.
     bind (panic_if (outstanding < 1) ''log_write outside of trans'') (\<lambda>_.
     bind (acquire L_log) (\<lambda>_.
     bind (get_buf b) (\<lambda>bp.
     bind (gets (\<lambda>s. log_slot (b_blockno bp) (log_lh s))) (\<lambda>i.
     bind (set_lh (\<lambda>lh. lh\<lparr>lh_block := (lh_block lh)(i := b_blockno bp)\<rparr>)) (\<lambda>_.
     bind (set_lh (\<lambda>lh. if int i = lh_n lh then lh\<lparr>lh_n := lh_n lh + 1\<rparr> else lh)) (\<lambda>_.
     bind (set_buf b (\<lambda>b. b\<lparr>b_flags := b_flags b OR B_DIRTY\<rparr>)) (\<lambda>_.
     release L_log)))))))))"

section \<open>Frames\<close>

lemma log_frame_blk [simp]:
  fixes s :: "'z log_state_scheme"
  shows "blk (s\<lparr>log_lh := x\<rparr>) = blk s" "blk (s\<lparr>log_outstanding := o'\<rparr>) = blk s"
    "blk (s\<lparr>log_committing := c\<rparr>) = blk s"
  by (simp_all add: fun_eq_iff blk_def cong: option.case_cong)

lemma log_frame_bio [simp]:
  fixes s :: "'z log_state_scheme"
  shows "held (s\<lparr>log_lh := x\<rparr>) = held s" "avail (s\<lparr>log_lh := x\<rparr>) = avail s"
    "dirty_blocks (s\<lparr>log_lh := x\<rparr>) = dirty_blocks s" "bio_inv (s\<lparr>log_lh := x\<rparr>) = bio_inv s"
    "held (s\<lparr>log_outstanding := o'\<rparr>) = held s"
    "dirty_blocks (s\<lparr>log_outstanding := o'\<rparr>) = dirty_blocks s" "bio_inv (s\<lparr>log_outstanding := o'\<rparr>) = bio_inv s"
    "held (s\<lparr>log_committing := c\<rparr>) = held s"
    "dirty_blocks (s\<lparr>log_committing := c\<rparr>) = dirty_blocks s" "bio_inv (s\<lparr>log_committing := c\<rparr>) = bio_inv s"
  by (simp_all add: held_def avail_def dirty_blocks_def bio_inv_def in_kernel_def quiet_def settled_def
      lock_free_def ide_ready_def del: quietD in_kernelD)

lemma log_frame_locks [simp]:
  fixes s :: "'z log_state_scheme"
  shows "(acquired lk s)\<lparr>log_lh := x\<rparr> = acquired lk (s\<lparr>log_lh := x\<rparr>)"
    "(acquired lk s)\<lparr>log_outstanding := o'\<rparr> = acquired lk (s\<lparr>log_outstanding := o'\<rparr>)"
    "(acquired lk s)\<lparr>log_committing := c\<rparr> = acquired lk (s\<lparr>log_committing := c\<rparr>)"
    "settled (s\<lparr>log_lh := x\<rparr>) = settled s" "lock_free lk (s\<lparr>log_lh := x\<rparr>) = lock_free lk s"
    "settled (s\<lparr>log_outstanding := o'\<rparr>) = settled s" "lock_free lk (s\<lparr>log_outstanding := o'\<rparr>) = lock_free lk s"
    "settled (s\<lparr>log_committing := c\<rparr>) = settled s" "lock_free lk (s\<lparr>log_committing := c\<rparr>) = lock_free lk s"
    "in_kernel (s\<lparr>log_lh := x\<rparr>) = in_kernel s" "in_kernel (s\<lparr>log_outstanding := o'\<rparr>) = in_kernel s"
    "in_kernel (s\<lparr>log_committing := c\<rparr>) = in_kernel s"
  by (simp_all add: acquired_def settled_def lock_free_def in_kernel_def quiet_def del: quietD in_kernelD)

lemma log_frame_other [simp]:
  fixes s :: "'z log_state_scheme"
  shows "log_lh (acquired lk s) = log_lh s" "log_size (acquired lk s) = log_size s"
    "log_outstanding (acquired lk s) = log_outstanding s" "log_committing (acquired lk s) = log_committing s"
    "log_dev (acquired lk s) = log_dev s" "log_start (acquired lk s) = log_start s"
    "log_lh (woken ch s) = log_lh s" "log_size (woken ch s) = log_size s"
    "log_outstanding (woken ch s) = log_outstanding s" "log_committing (woken ch s) = log_committing s"
    "log_dev (woken ch s) = log_dev s" "log_start (woken ch s) = log_start s"
    "log_lh (with_buf i f s) = log_lh s" "log_outstanding (with_buf i f s) = log_outstanding s"
    "log_dev (with_buf i f s) = log_dev s" "log_start (with_buf i f s) = log_start s"
  by (simp_all add: acquired_def woken_def with_buf_def)

lemma bframe_log:
  fixes s :: "'z log_state_scheme"
  assumes "bframe s t"
  shows "log_lh t = log_lh s" "log_size t = log_size s" "log_outstanding t = log_outstanding s"
    "log_committing t = log_committing s" "log_dev t = log_dev s" "log_start t = log_start s"
    "log_state.more t = log_state.more s"
  using assms by (auto simp: bframe_def)

section \<open>Copying blocks\<close>

text \<open>A list of updates, and a state reached by writing these blocks.\<close>

definition upds :: "('k \<times> 'v) list \<Rightarrow> ('k \<Rightarrow> 'v) \<Rightarrow> 'k \<Rightarrow> 'v" where
  "upds ws f = foldl (\<lambda>f (n, d). f(n := d)) f ws"

lemma upds_simps [simp]: "upds [] f = f" "upds ((n, d) # ws) f = upds ws (f(n := d))"
  "upds (vs @ ws) f = upds ws (upds vs f)"
  by (simp_all add: upds_def)

lemma upds_other: "n \<notin> fst ` set ws \<Longrightarrow> upds ws f n = f n"
  by (induction ws arbitrary: f) auto

lemma upds_mem: "distinct (map fst ws) \<Longrightarrow> (n, d) \<in> set ws \<Longrightarrow> upds ws f n = d"
proof (induction ws arbitrary: f)
  case Nil
  then show ?case by simp
next
  case (Cons w ws)
  then show ?case by (cases w) (auto simp: upds_other)
qed

abbreviation on_disk :: "(uint \<times> block) list \<Rightarrow> (nat \<times> block) list" where
  "on_disk ws \<equiv> map (\<lambda>(n, d). (unat n, d)) ws"

definition bwrites :: "'z ide_state_scheme \<Rightarrow> (uint \<times> block) list \<Rightarrow> 'z ide_state_scheme \<Rightarrow> bool" where
  "bwrites s ws t \<longleftrightarrow> bio_inv t \<and> bframe s t \<and> held t = {} \<and> blk t = upds ws (blk s)
     \<and> disk t True = upds (on_disk ws) (disk s True)
     \<and> dtrace t = dtrace s @ map (\<lambda>w. (True, w)) (on_disk ws) \<and> dirty_blocks t = dirty_blocks s - fst ` set ws"

lemma bwrites_Nil: "bio_inv s \<Longrightarrow> held s = {} \<Longrightarrow> bwrites s [] s"
  by (simp add: bwrites_def)

lemma bwrites_trans:
  assumes "bwrites s ws t" and "bwrites t vs u"
  shows "bwrites s (ws @ vs) u"
  using assms by (auto simp: bwrites_def intro: bframe_trans)

lemma bwrites_one: "bwritten s n d t \<Longrightarrow> held s = {} \<Longrightarrow> bwrites s [(n, d)] t"
  by (auto simp: bwrites_def bwritten_def)

lemma bready_room:
  assumes "bio_inv s" and "unat n < FSSIZE" and "\<forall>i\<in>held s. b_blockno (bufs s i) \<noteq> n"
    and "n \<in> dirty_blocks s \<or> card (held s) + card (dirty_blocks s) < NBUF"
  shows "bready s n"
  using avail_room [OF assms(1)] assms by (auto simp: bready_def dirty_blocks_def)

text \<open>Two different blocks in two locked buffers.\<close>

definition two_blocks :: "'z ide_state_scheme \<Rightarrow> uint \<Rightarrow> nat \<Rightarrow> uint \<Rightarrow> nat \<Rightarrow> 'z ide_state_scheme \<Rightarrow> bool" where
  "two_blocks s a i b j u \<longleftrightarrow> i \<noteq> j \<and> bio_inv u \<and> bframe s u \<and> held u = {i, j} \<and> blk u = blk s
     \<and> disk u = disk s \<and> dtrace u = dtrace s \<and> dirty_blocks u = dirty_blocks s
     \<and> b_blockno (bufs u i) = a \<and> b_data (bufs u i) = blk s a
     \<and> b_blockno (bufs u j) = b \<and> b_data (bufs u j) = blk s b"

lemma two_blocks_sym: "two_blocks s a i b j u \<Longrightarrow> two_blocks s b j a i u"
  by (auto simp: two_blocks_def)

lemma read_two:
  assumes s: "bio_inv s" "held s = {}" and n: "a \<noteq> b" "unat a < FSSIZE" "unat b < FSSIZE"
    and room: "card (dirty_blocks s) < NBUF" "b \<in> dirty_blocks s \<or> Suc (card (dirty_blocks s)) < NBUF"
  shows "\<exists>i j t u. bread 1 a s = Ok i t \<and> bframe s t \<and> bread 1 b t = Ok j u \<and> two_blocks s a i b j u"
proof -
  have "bready s a" using s n room by (intro bready_room) auto
  then obtain i t where tr: "bread 1 a s = Ok i t" and "bread_post s a i t" using bready_bread by blast
  note t = bread_postD [OF this(2)]
  have "bready t b" using s n room t by (intro bready_room) (auto simp: t(5,6,12))
  then obtain j u where ur: "bread 1 b t = Ok j u" and "bread_post t b j u" using bready_bread by blast
  note u = bread_postD [OF this(2)]
  have ij: "i \<noteq> j" using u(4) t(5) by auto
  have "bframe s u" using t(2) u(2) by (rule bframe_trans)
  then have "two_blocks s a i b j u"
    unfolding two_blocks_def using ij u(1) by (simp add: u(5-12) t(5-12) s(2) insert_commute)
  with tr ur t(2) show ?thesis by blast
qed

text \<open>Copying one block over the other on the disk, and releasing both.\<close>

lemma copy_two:
  assumes s: "bio_inv s" "held s = {}" "dst \<noteq> src" and u: "two_blocks s dst w src r u"
  shows "\<exists>v x t. bwrite w (with_buf w (\<lambda>b. b\<lparr>b_data := blk s src\<rparr>) u) = Ok () v \<and> brelse r v = Ok () x
    \<and> brelse w x = Ok () t \<and> bwrites s [(dst, blk s src)] t"
proof -
  note u = u [unfolded two_blocks_def]
  let ?d = "blk s src"
  define q where "q = with_buf w (\<lambda>b. b\<lparr>b_data := ?d\<rparr>) u"
  have d: "length ?d = 512" using blk_length [OF s(1)] by blast
  have w: "w \<in> held u" and "w \<noteq> r" using u by auto
  have "bdata_post u w ?d q" using set_data_spec [OF _ w d] u by (simp add: q_def)
  note q = bdata_postD [OF this]
  have "w \<in> held q" using w q(3) by simp
  from bwrite_spec [OF q(1) this] obtain v where vr: "bwrite w q = Ok () v" and v': "bwrite_post q w v" by blast
  note v = bwrite_postD [OF v']
  have rv: "bufs v r = bufs u r" using v(10) q(10) \<open>w \<noteq> r\<close> by simp
  have hv: "held v = {w, r}" using v(3) q(3) u by simp
  have "is_dirty (bufs v r) \<or> b_data (bufs v r) = disk v True (unat (b_blockno (bufs v r)))"
  proof (cases "src \<in> dirty_blocks s")
    case True
    then have "is_dirty (bufs u r)" using dirty_held [of u r] u by simp
    then show ?thesis using rv by simp
  next
    case False
    then have "blk s src = disk s True (unat src)" using blk_clean [OF s(1)] s(2) by simp
    then show ?thesis using rv u s(3) by (simp add: v(7) q(4,5,7) unat_eq_iff_word)
  qed
  then obtain x where xr: "brelse r v = Ok () x" and x': "brelse_post v r x"
    using brelse_spec [of v r] v(1) hv by auto
  note x = brelse_postD [OF x']
  have "b_data (bufs x w) = disk x True (unat (b_blockno (bufs x w)))"
    using x(8) [of w] by (simp add: same_view_def x(5) v(4,5,7))
  moreover have hx: "held x = {w}" using x(3) hv \<open>w \<noteq> r\<close> by auto
  ultimately obtain t where tr: "brelse w x = Ok () t" and t': "brelse_post x w t"
    using brelse_spec [of x w] x(1) by auto
  note t = brelse_postD [OF t']
  have "bframe s t" using u q(2) v(2) x(2) t(2) by (blast intro: bframe_trans)
  then have "bwrites s [(dst, ?d)] t"
    using u by (simp add: bwrites_def t(1,3-7) hx x(4-7) v(6-9) q(4-9))
  with vr xr tr show ?thesis unfolding q_def by blast
qed

lemma bwrites_bframe: "bwrites s ws t \<Longrightarrow> bframe s t" "bwrites s ws t \<Longrightarrow> bio_inv t"
  "bwrites s ws t \<Longrightarrow> held t = {}"
  by (simp_all add: bwrites_def)

text \<open>A loop of copies, none of which overwrites a block that a later one reads.\<close>

lemma copy_loop:
  assumes s: "bio_inv s" "held s = {}"
    and step: "\<And>pre k post t. ks = pre @ k # post \<Longrightarrow> bwrites s (map (\<lambda>k. (dst k, blk s (src k))) pre) t \<Longrightarrow>
      \<exists>u. body k t = Ok () u \<and> bwrites t [(dst k, blk t (src k))] u"
    and sep: "\<And>j k. j \<in> set ks \<Longrightarrow> k \<in> set ks \<Longrightarrow> dst j \<noteq> src k"
  shows "\<exists>t. for_each ks body s = Ok () t \<and> bwrites s (map (\<lambda>k. (dst k, blk s (src k))) ks) t"
proof -
  have "\<exists>t. for_each post body u = Ok () t \<and> bwrites s (map (\<lambda>k. (dst k, blk s (src k))) ks) t"
    if "ks = pre @ post" "bwrites s (map (\<lambda>k. (dst k, blk s (src k))) pre) u" for pre post u
    using that
  proof (induction post arbitrary: pre u)
    case Nil
    then show ?case by simp
  next
    case (Cons k post)
    obtain v where v: "body k u = Ok () v" "bwrites u [(dst k, blk u (src k))] v"
      using step [OF Cons.prems] by blast
    have "src k \<notin> fst ` set (map (\<lambda>k. (dst k, blk s (src k))) pre)"
      using sep [of _ k] Cons.prems(1) by force
    then have "blk u (src k) = blk s (src k)"
      using Cons.prems(2) by (simp add: bwrites_def upds_other)
    with v(2) have "bwrites s (map (\<lambda>k. (dst k, blk s (src k))) (pre @ [k])) v"
      using bwrites_trans [OF Cons.prems(2)] by simp
    from Cons.IH [OF _ this] Cons.prems(1) v(1) show ?case by simp
  qed
  from this [of "[]" ks s] bwrites_Nil [OF s] show ?thesis by simp
qed

section \<open>The header block\<close>

lemma length_put_blocks [simp]: "4 + 4 * k \<le> length d \<Longrightarrow> length (put_blocks f k d) = length d"
  by (induction k) simp_all

lemma get_put_blocks:
  "4 + 4 * k \<le> length d \<Longrightarrow> i < k \<Longrightarrow> get_u32 (4 + 4 * i) (put_blocks f k d) = f i"
proof (induction k)
  case 0
  then show ?case by simp
next
  case (Suc k)
  then show ?case by (cases "i = k") (simp_all add: get_put_u32_other)
qed

lemma get_put_blocks_0: "4 + 4 * k \<le> length d \<Longrightarrow> get_u32 0 (put_blocks f k d) = get_u32 0 d"
  by (induction k) (simp_all add: get_put_u32_other)

definition header_small :: "logheader \<Rightarrow> bool" where
  "header_small lh \<longleftrightarrow> 0 \<le> lh_n lh \<and> lh_n lh \<le> int LOGSIZE"

lemma header_small_nat: "header_small lh \<Longrightarrow> nat (lh_n lh) \<le> 30"
  by (auto simp: header_small_def LOGSIZE_def nat_le_iff)

lemma length_put_header [simp]: "header_small lh \<Longrightarrow> length d = 512 \<Longrightarrow> length (put_header lh d) = 512"
  using header_small_nat [of lh] by (simp add: put_header_def)

lemma get_put_header:
  assumes "header_small lh" and "length d = 512"
  shows "lh_n (get_header (put_header lh d)) = lh_n lh"
    and "i < nat (lh_n lh) \<Longrightarrow> lh_block (get_header (put_header lh d)) i = lh_block lh i"
proof -
  have k: "nat (lh_n lh) \<le> 30" by (rule header_small_nat [OF assms(1)])
  have "sint (word_of_int (lh_n lh) :: uint) = lh_n lh"
    using assms(1) k by (simp add: header_small_def signed_take_bit_int_eq_self signed_of_int LOGSIZE_def)
  then show "lh_n (get_header (put_header lh d)) = lh_n lh"
    using k assms(2) by (simp add: get_header_def put_header_def get_put_blocks_0)
  show "lh_block (get_header (put_header lh d)) i = lh_block lh i" if "i < nat (lh_n lh)"
    using that k assms(2) by (simp add: get_header_def put_header_def get_put_blocks)
qed

lemma tails_small: "header_small lh \<Longrightarrow> i \<in> set (tails lh) \<Longrightarrow> i < LOGSIZE"
  by (auto simp: tails_def header_small_def)

lemma in_header_ok [simp]: "i < LOGSIZE \<Longrightarrow> in_header i = return ()"
  by (simp add: in_header_def panic_if_def)

lemma put_blocks_loop:
  assumes "k \<le> LOGSIZE"
  shows "for_each [0..<k] (\<lambda>i. bind (in_header i) (\<lambda>_. set_buf bp (\<lambda>b. b\<lparr>b_data := put_u32 (4 + 4 * i) (f i) (b_data b)\<rparr>))) s
    = Ok () (with_buf bp (\<lambda>b. b\<lparr>b_data := put_blocks f k (b_data b)\<rparr>) s)"
  using assms
proof (induction k)
  case 0
  then show ?case by (simp add: with_buf_def)
next
  case (Suc k)
  then show ?case by (simp add: for_each_append with_buf_def)
qed

section \<open>The log on the disk\<close>

definition log_area :: "'z log_state_scheme \<Rightarrow> nat set" where
  "log_area s = {unat (log_start s)..<unat (log_start s) + nat (log_size s)}"

definition home :: "'z log_state_scheme \<Rightarrow> uint \<Rightarrow> bool" where
  "home s n \<longleftrightarrow> unat n < FSSIZE \<and> unat n \<notin> log_area s"

definition log_blockno :: "'z log_state_scheme \<Rightarrow> nat \<Rightarrow> uint" where
  "log_blockno s i = log_start s + of_nat i + 1"

definition logged :: "'z log_state_scheme \<Rightarrow> uint list" where
  "logged s = map (lh_block (log_lh s)) (tails (log_lh s))"

definition log_shape :: "'z log_state_scheme \<Rightarrow> bool" where
  "log_shape s \<longleftrightarrow> log_dev s = 1 \<and> 0 < log_size s \<and> log_size s \<le> int LOGSIZE
     \<and> unat (log_start s) + nat (log_size s) \<le> FSSIZE"

definition header_ok :: "'z log_state_scheme \<Rightarrow> bool" where
  "header_ok s \<longleftrightarrow> 0 \<le> lh_n (log_lh s) \<and> lh_n (log_lh s) < log_size s \<and> distinct (logged s)
     \<and> (\<forall>n\<in>set (logged s). home s n)"

lemma header_ok_small: "log_shape s \<Longrightarrow> header_ok s \<Longrightarrow> header_small (log_lh s)"
  by (simp add: header_ok_def header_small_def log_shape_def)

lemma log_blockno_unat:
  assumes "log_shape s" and "header_ok s" and "i \<in> set (tails (log_lh s))"
  shows "unat (log_blockno s i) = unat (log_start s) + i + 1"
proof -
  have i: "unat (log_start s) + i + 1 < 1000"
    using assms by (auto simp: log_shape_def header_ok_def tails_def)
  then have "unat (of_nat i :: uint) = i" by (simp add: unat_of_nat)
  with i show ?thesis by (simp add: log_blockno_def unat_word_ariths)
qed

lemma log_blockno_area:
  assumes "log_shape s" and "header_ok s" and "i \<in> set (tails (log_lh s))"
  shows "unat (log_blockno s i) \<in> log_area s" "unat (log_blockno s i) \<noteq> unat (log_start s)"
    "unat (log_blockno s i) < FSSIZE"
proof -
  have i: "i < nat (lh_n (log_lh s))" using assms(3) by (simp add: tails_def)
  have n: "nat (lh_n (log_lh s)) < nat (log_size s)" using assms(2) by (simp add: header_ok_def)
  have sz: "unat (log_start s) + nat (log_size s) \<le> FSSIZE" using assms(1) by (simp add: log_shape_def)
  note u = log_blockno_unat [OF assms]
  have i1: "i + 1 < nat (log_size s)" using i n by linarith
  then show "unat (log_blockno s i) \<in> log_area s" unfolding u log_area_def by simp
  show "unat (log_blockno s i) \<noteq> unat (log_start s)" unfolding u by simp
  show "unat (log_blockno s i) < FSSIZE" using i1 sz unfolding u by linarith
qed

lemma log_blockno_inj:
  assumes "log_shape s" and "header_ok s"
  shows "inj_on (log_blockno s) (set (tails (log_lh s)))"
proof (rule inj_onI)
  fix i j
  assume ij: "i \<in> set (tails (log_lh s))" "j \<in> set (tails (log_lh s))" and e: "log_blockno s i = log_blockno s j"
  have "unat (log_start s) + i + 1 = unat (log_start s) + j + 1"
    unfolding log_blockno_unat [OF assms ij(1), symmetric] log_blockno_unat [OF assms ij(2), symmetric] e ..
  then show "i = j" by simp
qed

lemma start_area: "log_shape s \<Longrightarrow> unat (log_start s) \<in> log_area s" "log_shape s \<Longrightarrow> unat (log_start s) < FSSIZE"
  by (auto simp: log_area_def log_shape_def)

lemma logged_home:
  assumes "header_ok s" and "i \<in> set (tails (log_lh s))"
  shows "home s (lh_block (log_lh s) i)"
  using assms by (auto simp: header_ok_def logged_def)

lemma home_not_log:
  assumes "log_shape s" and "header_ok s" and "i \<in> set (tails (log_lh s))" and "home s n"
  shows "n \<noteq> log_blockno s i"
  using log_blockno_area(1) [OF assms(1-3)] assms(4) by (auto simp: home_def)

definition log_writes :: "'z log_state_scheme \<Rightarrow> (uint \<times> block) list" where
  "log_writes s = map (\<lambda>i. (log_blockno s i, blk s (lh_block (log_lh s) i))) (tails (log_lh s))"

definition install_writes :: "'z log_state_scheme \<Rightarrow> (uint \<times> block) list" where
  "install_writes s = map (\<lambda>i. (lh_block (log_lh s) i, blk s (log_blockno s i))) (tails (log_lh s))"

text \<open>Room in the cache for copies: the logged blocks are pinned, or nothing is.\<close>

definition copy_room :: "'z log_state_scheme \<Rightarrow> bool" where
  "copy_room s \<longleftrightarrow> dirty_blocks s = {} \<or> set (logged s) \<subseteq> dirty_blocks s \<and> card (dirty_blocks s) < NBUF"

lemma NBUF_2: "Suc 0 < NBUF" by (simp add: NBUF_def)

lemma in_upt_split: "tails lh = pre @ k # post \<Longrightarrow> k \<in> set (tails lh)"
  by simp

lemma write_log_run:
  fixes s :: "'z log_state_scheme"
  assumes s: "bio_inv s" "held s = {}" and l: "log_shape s" "header_ok s"
    and p: "copy_room s" "\<forall>n\<in>dirty_blocks s. home s n"
  shows "\<exists>t. write_log s = Ok () t \<and> bwrites s (log_writes s) t"
proof -
  let ?ks = "tails (log_lh s)" and ?src = "lh_block (log_lh s)"
  have "\<exists>t. for_each ?ks write_log_one s = Ok () t \<and> bwrites s (map (\<lambda>k. (log_blockno s k, blk s (?src k))) ?ks) t"
  proof (rule copy_loop [OF s])
    fix pre k post and t :: "'z log_state_scheme"
    assume ks: "?ks = pre @ k # post" and t: "bwrites s (map (\<lambda>k. (log_blockno s k, blk s (?src k))) pre) t"
    have k: "k \<in> set ?ks" "set pre \<subseteq> set ?ks" using ks by auto
    note fl = bframe_log [OF bwrites_bframe(1) [OF t]]
    have nd: "log_blockno s j \<notin> dirty_blocks s" if "j \<in> set ?ks" for j
      using p(2) home_not_log [OF l that] by blast
    have "dirty_blocks t = dirty_blocks s"
      using t nd k(2) by (force simp: bwrites_def)
    moreover have "?src k \<in> set (logged s)" using k(1) by (auto simp: logged_def)
    ultimately have room: "card (dirty_blocks t) < NBUF"
      "?src k \<in> dirty_blocks t \<or> Suc (card (dirty_blocks t)) < NBUF"
      using p(1) NBUF_2 by (auto simp: copy_room_def)
    have h: "home s (?src k)" by (rule logged_home [OF l(2) k(1)])
    have ne: "log_blockno s k \<noteq> ?src k" using home_not_log [OF l k(1) h] by simp
    have bt: "bio_inv t" "held t = {}" using bwrites_bframe [OF t] by auto
    obtain i j v u where r: "bread 1 (log_blockno s k) t = Ok i v" "bframe t v" "bread 1 (?src k) v = Ok j u"
      and two: "two_blocks t (log_blockno s k) i (?src k) j u"
      using read_two [OF bt ne log_blockno_area(3) [OF l k(1)] _ room] h by (auto simp: home_def)
    obtain x y z where c: "bwrite i (with_buf i (\<lambda>b. b\<lparr>b_data := blk t (?src k)\<rparr>) u) = Ok () x"
      "brelse j x = Ok () y" "brelse i y = Ok () z" "bwrites t [(log_blockno s k, blk t (?src k))] z"
      using copy_two [OF bt ne two] by blast
    have "log_dev t = 1" "b_data (bufs u j) = blk t (?src k)" "lh_block (log_lh v) k = ?src k"
      using l(1) two by (simp_all add: fl bframe_log [OF r(2)] log_shape_def two_blocks_def)
    then have "write_log_one k t = Ok () z"
      using tails_small [OF header_ok_small [OF l] k(1)]
      by (simp add: write_log_one_def fl log_blockno_def [symmetric] r c(1-3))
    with c(4) show "\<exists>u. write_log_one k t = Ok () u \<and> bwrites t [(log_blockno s k, blk t (?src k))] u" by blast
  next
    fix j k
    assume "j \<in> set ?ks" "k \<in> set ?ks"
    then show "log_blockno s j \<noteq> ?src k" using home_not_log [OF l _ logged_home [OF l(2)]] by metis
  qed
  then show ?thesis by (simp add: write_log_def log_writes_def)
qed

lemma install_dirty:
  assumes "header_ok s" and "tails (log_lh s) = pre @ k # post" and "lh_block (log_lh s) k \<in> D"
    and "D' = D - lh_block (log_lh s) ` set pre"
  shows "lh_block (log_lh s) k \<in> D'"
proof -
  have "distinct (map (lh_block (log_lh s)) (pre @ k # post))"
    using assms(1) unfolding header_ok_def logged_def assms(2) by blast
  then have "lh_block (log_lh s) k \<notin> lh_block (log_lh s) ` set pre" by auto
  with assms(3,4) show ?thesis by simp
qed

lemma install_trans_run:
  fixes s :: "'z log_state_scheme"
  assumes s: "bio_inv s" "held s = {}" and l: "log_shape s" "header_ok s" and p: "copy_room s"
  shows "\<exists>t. install_trans s = Ok () t \<and> bwrites s (install_writes s) t"
proof -
  let ?ks = "tails (log_lh s)" and ?dst = "lh_block (log_lh s)"
  have "\<exists>t. for_each ?ks install_one s = Ok () t \<and> bwrites s (map (\<lambda>k. (?dst k, blk s (log_blockno s k))) ?ks) t"
  proof (rule copy_loop [OF s])
    fix pre k post and t :: "'z log_state_scheme"
    assume ks: "?ks = pre @ k # post" and t: "bwrites s (map (\<lambda>k. (?dst k, blk s (log_blockno s k))) pre) t"
    have k: "k \<in> set ?ks" using ks by auto
    note fl = bframe_log [OF bwrites_bframe(1) [OF t]]
    have dt: "dirty_blocks t = dirty_blocks s - ?dst ` set pre"
      using t by (simp add: bwrites_def image_image)
    then have ct: "card (dirty_blocks t) \<le> card (dirty_blocks s)" by (simp add: card_mono)
    have room: "card (dirty_blocks t) < NBUF" "?dst k \<in> dirty_blocks t \<or> Suc (card (dirty_blocks t)) < NBUF"
    proof -
      show "card (dirty_blocks t) < NBUF" using p ct NBUF_2 by (auto simp: copy_room_def)
      show "?dst k \<in> dirty_blocks t \<or> Suc (card (dirty_blocks t)) < NBUF"
      proof (cases "dirty_blocks s = {}")
        case False
        then have "?dst k \<in> dirty_blocks s" using p k by (auto simp: copy_room_def logged_def)
        then show ?thesis using install_dirty [OF l(2) ks _ dt] by blast
      qed (simp add: dt NBUF_2)
    qed
    have h: "home s (?dst k)" by (rule logged_home [OF l(2) k])
    have ne: "log_blockno s k \<noteq> ?dst k" using home_not_log [OF l k h] by simp
    have bt: "bio_inv t" "held t = {}" using bwrites_bframe [OF t] by auto
    obtain i j v u where r: "bread 1 (log_blockno s k) t = Ok i v" "bframe t v" "bread 1 (?dst k) v = Ok j u"
      and two: "two_blocks t (log_blockno s k) i (?dst k) j u"
      using read_two [OF bt ne log_blockno_area(3) [OF l k] _ room] h by (auto simp: home_def)
    obtain x y z where c: "bwrite j (with_buf j (\<lambda>b. b\<lparr>b_data := blk t (log_blockno s k)\<rparr>) u) = Ok () x"
      "brelse i x = Ok () y" "brelse j y = Ok () z" "bwrites t [(?dst k, blk t (log_blockno s k))] z"
      using copy_two [OF bt ne [symmetric] two_blocks_sym [OF two]] by blast
    have "log_dev t = 1" "b_data (bufs u i) = blk t (log_blockno s k)" "lh_block (log_lh v) k = ?dst k"
      using l(1) two by (simp_all add: fl bframe_log [OF r(2)] log_shape_def two_blocks_def)
    then have "install_one k t = Ok () z"
      using tails_small [OF header_ok_small [OF l] k]
      by (simp add: install_one_def fl log_blockno_def [symmetric] r c(1-3))
    with c(4) show "\<exists>u. install_one k t = Ok () u \<and> bwrites t [(?dst k, blk t (log_blockno s k))] u" by blast
  next
    fix j k
    assume "j \<in> set ?ks" "k \<in> set ?ks"
    then show "?dst j \<noteq> log_blockno s k" using home_not_log [OF l _ logged_home [OF l(2)]] by metis
  qed
  then show ?thesis by (simp add: install_trans_def install_writes_def)
qed

lemma write_head_run:
  fixes s :: "'z log_state_scheme"
  assumes s: "bio_inv s" "held s = {}" and l: "log_shape s" "header_small (log_lh s)"
    and room: "card (dirty_blocks s) < NBUF"
  shows "\<exists>t. write_head s = Ok () t \<and> bwrites s [(log_start s, put_header (log_lh s) (blk s (log_start s)))] t"
proof -
  let ?n = "log_start s" and ?lh = "log_lh s"
  have rd: "bready s ?n" using s room start_area(2) [OF l(1)] by (intro bready_room) auto
  then obtain i t where t: "bread 1 ?n s = Ok i t" "bframe s t" using bready_bread bread_postD(2) by metis
  have "length (put_header ?lh (blk s ?n)) = 512" using l(2) blk_length [OF s(1)] by simp
  from write_block_run [of s ?n "put_header ?lh", OF rd this] obtain u
    where u: "write_block ?n (put_header ?lh) s = Ok () u" "bwritten s ?n (put_header ?lh (blk s ?n)) u" by blast
  have d: "log_dev s = 1" using l(1) by (simp add: log_shape_def)
  have k: "nat (lh_n ?lh) \<le> LOGSIZE" using l(2) by (auto simp: header_small_def nat_le_iff)
  have "write_head s = write_block ?n (put_header ?lh) s"
    by (simp add: write_head_def write_block_def d t(1) bframe_log [OF t(2)] tails_def put_blocks_loop [OF k]
        put_header_def with_buf_def)
  with u bwrites_one [OF u(2) s(2)] show ?thesis by simp
qed

section \<open>Commit\<close>

lemma bframe_lh:
  fixes s :: "'z log_state_scheme"
  assumes "bframe s t"
  shows "bframe (s\<lparr>log_lh := x\<rparr>) (t\<lparr>log_lh := x\<rparr>)"
proof -
  obtain pt sl bs a d tr where "t = s\<lparr>ptable := pt, sleeplocks := sl, bufs := bs, ata := a, disk := d, dtrace := tr\<rparr>"
    using assms by (auto simp: bframe_def)
  then have "t\<lparr>log_lh := x\<rparr> = (s\<lparr>log_lh := x\<rparr>)\<lparr>ptable := pt, sleeplocks := sl, bufs := bs, ata := a,
      disk := d, dtrace := tr\<rparr>" by (intro log_state.equality) simp_all
  moreover have "ptable (t\<lparr>log_lh := x\<rparr>) i = (ptable (s\<lparr>log_lh := x\<rparr>) i)\<lparr>p_state := p_state (ptable (t\<lparr>log_lh := x\<rparr>) i)\<rparr>"
    "sleeplocks (t\<lparr>log_lh := x\<rparr>) (SL_inode k) = sleeplocks (s\<lparr>log_lh := x\<rparr>) (SL_inode k)" for i k
    using assms by (simp_all add: bframe_def)
  ultimately show ?thesis unfolding bframe_def by blast
qed

lemma bwrites_lh: "bwrites (s :: 'z log_state_scheme) ws t \<Longrightarrow> bwrites (s\<lparr>log_lh := x\<rparr>) ws (t\<lparr>log_lh := x\<rparr>)"
  by (simp add: bwrites_def bframe_lh)

text \<open>
  Between transactions' commits: the header in memory lists exactly the blocks pinned in
  the cache, and the header on the disk says that nothing is to be installed.
\<close>

definition disk_header :: "'z log_state_scheme \<Rightarrow> logheader" where
  "disk_header s = get_header (disk s True (unat (log_start s)))"

definition log_inv :: "'z log_state_scheme \<Rightarrow> bool" where
  "log_inv s \<longleftrightarrow> bio_inv s \<and> log_shape s \<and> header_ok s \<and> dirty_blocks s = set (logged s)
     \<and> lh_n (disk_header s) = 0"

lemma log_invD:
  assumes "log_inv s"
  shows "bio_inv s" "log_shape s" "header_ok s" "dirty_blocks s = set (logged s)" "lh_n (disk_header s) = 0"
  using assms by (simp_all add: log_inv_def)

lemma logged_card:
  assumes "log_shape s" and "header_ok s"
  shows "card (set (logged s)) = nat (lh_n (log_lh s))" "card (set (logged s)) < NBUF"
proof -
  show c: "card (set (logged s)) = nat (lh_n (log_lh s))"
    using assms(2) by (simp add: header_ok_def distinct_card) (simp add: logged_def tails_def)
  have "nat (lh_n (log_lh s)) < nat (log_size s)" using assms(2) by (simp add: header_ok_def)
  moreover have "nat (log_size s) \<le> NBUF" using assms(1) by (simp add: log_shape_def LOGSIZE_def NBUF_def nat_le_iff)
  ultimately show "card (set (logged s)) < NBUF" unfolding c by (rule less_le_trans)
qed

lemma log_inv_room:
  assumes "log_inv s"
  shows "copy_room s" "\<forall>n\<in>dirty_blocks s. home s n" "card (dirty_blocks s) < NBUF"
  using log_invD(3,4) [OF assms] logged_card(2) [OF log_invD(2,3) [OF assms]]
  by (auto simp: copy_room_def header_ok_def)

definition cleared :: "logheader \<Rightarrow> logheader" where
  "cleared lh = lh\<lparr>lh_n := 0\<rparr>"

definition commit_writes :: "'z log_state_scheme \<Rightarrow> (uint \<times> block) list" where
  "commit_writes s = (let st = log_start s; h = put_header (log_lh s) (blk s st) in
     log_writes s @ (st, h) # map (\<lambda>n. (n, blk s n)) (logged s) @ [(st, put_header (cleared (log_lh s)) h)])"

lemma bwrites_shape:
  assumes "bwrites s ws t"
  shows "log_shape t = log_shape s" "header_ok t = header_ok s" "home t = home s" "logged t = logged s"
    "log_blockno t = log_blockno s"
  using bframe_log [OF bwrites_bframe(1) [OF assms]]
  by (simp_all add: log_shape_def header_ok_def home_def log_area_def logged_def log_blockno_def fun_eq_iff)

lemma set_lh_run [simp]: "set_lh f s = Ok () (s\<lparr>log_lh := f (log_lh s)\<rparr>)"
  by (simp add: set_lh_def)

lemma log_writes_keys: "fst ` set (log_writes s) = log_blockno s ` set (tails (log_lh s))"
  by (simp add: log_writes_def image_image)

lemma log_writes_other:
  assumes "log_shape s" and "header_ok s" and "unat n \<notin> log_area s \<or> n = log_start s"
  shows "n \<notin> fst ` set (log_writes s)"
  using log_blockno_area(1) [OF assms(1,2)] log_blockno_area(2) [OF assms(1,2)] assms(3)
  unfolding log_writes_keys by (metis imageE)

lemma log_writes_distinct:
  assumes "log_shape s" and "header_ok s"
  shows "distinct (map fst (log_writes s))"
  using log_blockno_inj [OF assms] by (simp add: log_writes_def comp_def distinct_map tails_def)

text \<open>After the log is written, installing it writes the blocks' own content.\<close>

lemma install_after_log:
  assumes l: "log_shape s" "header_ok s" and t: "log_lh t = log_lh s" "log_blockno t = log_blockno s"
    and b: "blk t = (upds (log_writes s) (blk s))(log_start s := h)"
  shows "install_writes t = map (\<lambda>n. (n, blk s n)) (logged s)"
proof -
  have "blk t (log_blockno s i) = blk s (lh_block (log_lh s) i)" if i: "i \<in> set (tails (log_lh s))" for i
  proof -
    have "log_blockno s i \<noteq> log_start s" using log_blockno_area(2) [OF l i] by auto
    moreover have "upds (log_writes s) (blk s) (log_blockno s i) = blk s (lh_block (log_lh s) i)"
      using i by (intro upds_mem log_writes_distinct [OF l]) (auto simp: log_writes_def)
    ultimately show ?thesis by (simp add: b)
  qed
  then show ?thesis by (simp add: install_writes_def logged_def t)
qed

lemma commit_run:
  fixes s :: "'z log_state_scheme"
  assumes s: "log_inv s" "held s = {}" and n: "0 < lh_n (log_lh s)"
  shows "\<exists>t. commit s = Ok () t \<and> bwrites (s\<lparr>log_lh := cleared (log_lh s)\<rparr>) (commit_writes s) t"
proof -
  note i = log_invD [OF s(1)] and r = log_inv_room [OF s(1)]
  let ?st = "log_start s" and ?lh = "log_lh s"
  let ?h = "put_header ?lh (blk s ?st)" and ?c = "s\<lparr>log_lh := cleared (log_lh s)\<rparr>"
  obtain t1 where t1: "write_log s = Ok () t1" "bwrites s (log_writes s) t1"
    using write_log_run [OF i(1) s(2) i(2,3) r(1,2)] by blast
  note f1 = bframe_log [OF bwrites_bframe(1) [OF t1(2)]] and s1 = bwrites_shape [OF t1(2)]
  have b1: "blk t1 ?st = blk s ?st"
    using t1(2) log_writes_other [OF i(2,3), of ?st] by (simp add: bwrites_def upds_other)
  have d1: "dirty_blocks t1 = dirty_blocks s"
    using t1(2) r(2) log_writes_other [OF i(2,3)] by (force simp: bwrites_def home_def)
  obtain t2 where t2: "write_head t1 = Ok () t2" "bwrites t1 [(?st, ?h)] t2"
    using write_head_run [OF bwrites_bframe(2,3) [OF t1(2)], unfolded s1 f1 d1 b1] i(2)
      header_ok_small [OF i(2,3)] r(3) by blast
  note w2 = bwrites_trans [OF t1(2) t2(2)]
  note f2 = bframe_log [OF bwrites_bframe(1) [OF w2]] and s2 = bwrites_shape [OF w2]
  have d2: "dirty_blocks t2 = dirty_blocks s"
    using t2(2) d1 r(2) start_area(1) [OF i(2)] by (force simp: bwrites_def home_def)
  have iw: "install_writes t2 = map (\<lambda>n. (n, blk s n)) (logged s)"
    using w2 by (intro install_after_log [OF i(2,3) f2(1) s2(5)]) (simp add: bwrites_def)
  obtain t3 where t3: "install_trans t2 = Ok () t3" "bwrites t2 (map (\<lambda>n. (n, blk s n)) (logged s)) t3"
    using install_trans_run [OF bwrites_bframe(2,3) [OF w2]] i(2,3) r(1)
    by (auto simp: s2 copy_room_def d2 iw)
  note w3 = bwrites_trans [OF w2 t3(2)]
  note w3c = bwrites_lh [OF w3, where x = "cleared ?lh"]
  have "dirty_blocks t3 = {}" using t3(2) d2 i(4) by (simp add: bwrites_def image_image)
  moreover have "?st \<notin> set (logged s)"
    using i(3) start_area(1) [OF i(2)] by (auto simp: header_ok_def home_def)
  then have b3: "blk t3 ?st = ?h"
    using w3 by (simp add: bwrites_def) (subst upds_other, auto)
  moreover note f3 = bframe_log [OF bwrites_bframe(1) [OF w3]]
  ultimately obtain t4 where t4: "write_head (t3\<lparr>log_lh := cleared ?lh\<rparr>) = Ok () t4"
    "bwrites (t3\<lparr>log_lh := cleared ?lh\<rparr>) [(?st, put_header (cleared ?lh) ?h)] t4"
    using write_head_run [OF bwrites_bframe(2,3) [OF w3c]] i(2)
    by (auto simp: log_shape_def header_small_def cleared_def)
  have "commit s = Ok () t4"
    using n t4(1) by (simp add: commit_def t1(1) t2(1) t3(1) f3 cleared_def)
  with bwrites_trans [OF w3c t4(2)] show ?thesis by (auto simp: commit_writes_def Let_def)
qed

lemma commit_empty: "lh_n (log_lh s) \<le> 0 \<Longrightarrow> commit s = Ok () s"
  by (simp add: commit_def)

lemma home_lh [simp]: "home (s\<lparr>log_lh := x\<rparr>) = home s" "log_shape (s\<lparr>log_lh := x\<rparr>) = log_shape s"
  "log_blockno (s\<lparr>log_lh := x\<rparr>) = log_blockno s"
  by (simp_all add: home_def log_area_def log_shape_def log_blockno_def fun_eq_iff)

section \<open>Logging a block\<close>

lemma log_slot_found:
  assumes "n \<in> set (logged s)"
  shows "log_slot n (log_lh s) \<in> set (tails (log_lh s))" "lh_block (log_lh s) (log_slot n (log_lh s)) = n"
proof -
  from assms obtain i where "find (\<lambda>i. lh_block (log_lh s) i = n) (tails (log_lh s)) = Some i"
    by (cases "find (\<lambda>i. lh_block (log_lh s) i = n) (tails (log_lh s))") (auto simp: logged_def find_None_iff)
  with find_SomeD [OF this] show "log_slot n (log_lh s) \<in> set (tails (log_lh s))"
    "lh_block (log_lh s) (log_slot n (log_lh s)) = n" by (simp_all add: log_slot_def)
qed

lemma log_slot_new:
  assumes "n \<notin> set (logged s)"
  shows "log_slot n (log_lh s) = nat (lh_n (log_lh s))"
proof -
  have "find (\<lambda>i. lh_block (log_lh s) i = n) (tails (log_lh s)) = None"
    using assms by (auto simp: logged_def find_None_iff)
  then show ?thesis by (simp add: log_slot_def)
qed

text \<open>The header after a block was logged: absorbed if it was there, appended otherwise.\<close>

definition logged_header :: "uint \<Rightarrow> logheader \<Rightarrow> logheader" where
  "logged_header n lh = (let i = log_slot n lh; lh' = lh\<lparr>lh_block := (lh_block lh)(i := n)\<rparr>
     in if int i = lh_n lh' then lh'\<lparr>lh_n := lh_n lh' + 1\<rparr> else lh')"

lemma log_write_run:
  fixes s :: "'z log_state_scheme"
  assumes "in_kernel s" and "lh_n (log_lh s) < int LOGSIZE" and "lh_n (log_lh s) < log_size s - 1"
    and "1 \<le> log_outstanding s"
  shows "log_write i s = Ok () (with_buf i (\<lambda>b. b\<lparr>b_flags := b_flags b OR B_DIRTY\<rparr>)
    (s\<lparr>log_lh := logged_header (b_blockno (bufs s i)) (log_lh s)\<rparr>))"
  using assms by (simp add: log_write_def logged_header_def Let_def)

lemma logged_header_found:
  assumes "header_ok s" and "n \<in> set (logged s)"
  shows "logged_header n (log_lh s) = log_lh s"
proof -
  have "(lh_block (log_lh s))(log_slot n (log_lh s) := n) = lh_block (log_lh s)"
    using log_slot_found(2) [OF assms(2)] by (metis fun_upd_triv)
  moreover have "int (log_slot n (log_lh s)) \<noteq> lh_n (log_lh s)"
    using log_slot_found(1) [OF assms(2)] by (auto simp: tails_def)
  ultimately show ?thesis by (simp add: logged_header_def Let_def)
qed

lemma logged_header_new:
  assumes "header_ok s" and "n \<notin> set (logged s)"
  shows "lh_n (logged_header n (log_lh s)) = lh_n (log_lh s) + 1"
    and "logged (s\<lparr>log_lh := logged_header n (log_lh s)\<rparr>) = logged s @ [n]"
proof -
  have e: "logged_header n (log_lh s) = (log_lh s)\<lparr>lh_n := lh_n (log_lh s) + 1,
      lh_block := (lh_block (log_lh s))(nat (lh_n (log_lh s)) := n)\<rparr>"
    using assms by (simp add: logged_header_def log_slot_new Let_def header_ok_def)
  show "lh_n (logged_header n (log_lh s)) = lh_n (log_lh s) + 1" by (simp add: e)
  have "nat (lh_n (log_lh s) + 1) = Suc (nat (lh_n (log_lh s)))"
    using assms(1) unfolding header_ok_def by linarith
  then show "logged (s\<lparr>log_lh := logged_header n (log_lh s)\<rparr>) = logged s @ [n]"
    by (simp add: e logged_def tails_def)
qed

text \<open>Space left in the log for blocks that are not yet part of the transaction.\<close>

definition log_space :: "'z log_state_scheme \<Rightarrow> nat" where
  "log_space s = nat (log_size s - 1 - lh_n (log_lh s))"

definition log_post :: "'z log_state_scheme \<Rightarrow> nat \<Rightarrow> 'z log_state_scheme \<Rightarrow> bool" where
  "log_post s i t \<longleftrightarrow> log_inv t \<and> bframe (s\<lparr>log_lh := log_lh t\<rparr>) t \<and> held t = held s \<and> blk t = blk s
     \<and> b_blockno (bufs t i) = b_blockno (bufs s i) \<and> b_data (bufs t i) = b_data (bufs s i)
     \<and> is_dirty (bufs t i) \<and> (\<forall>j. j \<noteq> i \<longrightarrow> bufs t j = bufs s j) \<and> disk t = disk s \<and> dtrace t = dtrace s
     \<and> logged t = (if b_blockno (bufs s i) \<in> set (logged s) then logged s else logged s @ [b_blockno (bufs s i)])"

lemma log_write_spec:
  fixes s :: "'z log_state_scheme"
  assumes s: "log_inv s" and i: "i \<in> held s" and n: "home s (b_blockno (bufs s i))"
    and room: "0 < log_space s" and op: "1 \<le> log_outstanding s"
  shows "\<exists>t. log_write i s = Ok () t \<and> log_post s i t"
proof -
  note inv = log_invD [OF s]
  let ?n = "b_blockno (bufs s i)"
  let ?u = "s\<lparr>log_lh := logged_header ?n (log_lh s)\<rparr>"
  let ?t = "with_buf i (\<lambda>b. b\<lparr>b_flags := b_flags b OR B_DIRTY\<rparr>) ?u"
  have lt: "lh_n (log_lh s) < log_size s - 1" "lh_n (log_lh s) < int LOGSIZE"
    using room inv(2) by (auto simp: log_space_def log_shape_def)
  have run: "log_write i s = Ok () ?t" by (rule log_write_run [OF bio_invD(1) [OF inv(1)] lt(2,1) op])
  have lu: "logged ?u = (if ?n \<in> set (logged s) then logged s else logged s @ [?n])"
    using logged_header_found [OF inv(3)] logged_header_new(2) [OF inv(3)] by auto
  have "lh_n (logged_header ?n (log_lh s)) \<in> {lh_n (log_lh s), lh_n (log_lh s) + 1}"
    using logged_header_found [OF inv(3)] logged_header_new(1) [OF inv(3)] by (cases "?n \<in> set (logged s)") simp_all
  then have hu: "header_ok ?u"
    using inv(3) lt n unfolding header_ok_def lu by (auto simp: home_lh)
  have "bdirty_post ?u i ?t" using set_dirty_spec [of ?u i] inv(1) i by simp
  note p = bdirty_postD [OF this]
  have lt': "logged ?t = logged ?u" "log_shape ?t = log_shape s" "header_ok ?t = header_ok ?u"
    "disk_header ?t = disk_header s"
    using bframe_log [OF p(2)] p(7)
    by (simp_all add: logged_def log_shape_def header_ok_def home_def log_area_def disk_header_def)
  have "dirty_blocks ?t = set (logged ?t)" using p(9) inv(4) by (auto simp: lt' lu)
  then have "log_inv ?t" using p(1) inv(2,5) hu by (simp add: log_inv_def lt')
  moreover have "bframe (s\<lparr>log_lh := log_lh ?t\<rparr>) ?t" using p(2) by simp
  ultimately have "log_post s i ?t"
    using p(3-8,10,11) by (simp add: log_post_def lt' lu)
  with run show ?thesis by blast
qed

lemma log_postD:
  assumes "log_post s i t"
  shows "log_inv t" "bframe (s\<lparr>log_lh := log_lh t\<rparr>) t" "held t = held s" "blk t = blk s"
    "b_blockno (bufs t i) = b_blockno (bufs s i)" "b_data (bufs t i) = b_data (bufs s i)"
    "is_dirty (bufs t i)" "\<And>j. j \<noteq> i \<Longrightarrow> bufs t j = bufs s j" "disk t = disk s" "dtrace t = dtrace s"
    "logged t = (if b_blockno (bufs s i) \<in> set (logged s) then logged s else logged s @ [b_blockno (bufs s i)])"
  using assms unfolding log_post_def by blast+

section \<open>Inside a transaction\<close>

lemma log_unchanged:
  fixes s :: "'z log_state_scheme"
  assumes "bframe s t"
  shows "logged t = logged s" "log_shape t = log_shape s" "header_ok t = header_ok s" "home t = home s"
    "log_space t = log_space s"
  by (simp_all add: logged_def log_shape_def header_ok_def home_def log_area_def log_space_def fun_eq_iff
      bframe_log [OF assms])

lemma log_inv_frame:
  fixes s :: "'z log_state_scheme"
  assumes "log_inv s" and "bframe s t" and "bio_inv t" and "dirty_blocks t = dirty_blocks s" and "disk t = disk s"
  shows "log_inv t"
  using log_invD [OF assms(1)] assms(3-5)
  by (simp add: log_inv_def disk_header_def log_unchanged [OF assms(2)] bframe_log [OF assms(2)])

text \<open>
  The step of a transaction as its client sees it: some blocks get new contents and are
  recorded in the log, the disk is not touched.
\<close>

abbreviation tframe :: "'z log_state_scheme \<Rightarrow> 'z log_state_scheme \<Rightarrow> bool" where
  "tframe s t \<equiv> bframe (s\<lparr>log_lh := log_lh t\<rparr>) t"

definition tx :: "'z log_state_scheme \<Rightarrow> uint set \<Rightarrow> (uint \<Rightarrow> block) \<Rightarrow> 'z log_state_scheme \<Rightarrow> bool" where
  "tx s N g t \<longleftrightarrow> log_inv t \<and> tframe s t \<and> held t = held s \<and> (\<forall>i\<in>held s. same_view (bufs t i) (bufs s i))
     \<and> blk t = g \<and> disk t = disk s \<and> dtrace t = dtrace s \<and> set (logged t) = set (logged s) \<union> N"

lemma txD:
  assumes "tx s N g t"
  shows "log_inv t" "tframe s t" "held t = held s" "blk t = g" "disk t = disk s" "dtrace t = dtrace s"
    "set (logged t) = set (logged s) \<union> N" "i \<in> held s \<Longrightarrow> same_view (bufs t i) (bufs s i)"
  using assms by (simp_all add: tx_def)

lemma tframe_trans: "tframe s t \<Longrightarrow> tframe t u \<Longrightarrow> tframe s u"
  using bframe_lh [of "s\<lparr>log_lh := log_lh t\<rparr>" t "log_lh u"] by (auto intro: bframe_trans)

lemma same_view_trans: "same_view x y \<Longrightarrow> same_view y z \<Longrightarrow> same_view x z"
  by (simp add: same_view_def)

lemma tx_trans:
  assumes "tx s N g t" and "tx t M h u"
  shows "tx s (N \<union> M) h u"
proof -
  note p = txD [OF assms(1)] and q = txD [OF assms(2)]
  have "tframe s u" using p(2) q(2) by (rule tframe_trans)
  moreover have "\<forall>i\<in>held s. same_view (bufs u i) (bufs s i)"
  proof
    fix i
    assume "i \<in> held s"
    then show "same_view (bufs u i) (bufs s i)" using p(3,8) q(8) by (metis same_view_trans)
  qed
  ultimately show ?thesis using p q by (auto simp: tx_def)
qed

lemma tx_refl: "log_inv s \<Longrightarrow> tx s {} (blk s) s"
  by (simp add: tx_def)

lemma tframe_log:
  assumes "tframe (s :: 'z log_state_scheme) t"
  shows "log_size t = log_size s" "log_outstanding t = log_outstanding s" "log_committing t = log_committing s"
    "log_dev t = log_dev s" "log_start t = log_start s" "log_state.more t = log_state.more s"
    "home t = home s" "log_blockno t = log_blockno s" "log_area t = log_area s"
  using bframe_log [OF assms] by (simp_all add: home_def log_area_def log_blockno_def fun_eq_iff)

lemma bsame_tx:
  fixes s :: "'z log_state_scheme"
  assumes s: "log_inv s" and t: "bsame s t"
  shows "tx s {} (blk s) t"
proof -
  have f: "bframe s t" using t by (simp add: bsame_def)
  have "log_inv t" using t by (intro log_inv_frame [OF s f]) (simp_all add: bsame_def)
  then show ?thesis using t f by (simp add: tx_def bsame_def log_unchanged [OF f] bframe_log [OF f])
qed

lemma log_space_logged:
  assumes "log_inv s"
  shows "int (log_space s) = log_size s - 1 - int (card (set (logged s)))"
    "card (dirty_blocks s) + log_space s < NBUF"
proof -
  note inv = log_invD [OF assms]
  have c: "int (card (set (logged s))) = lh_n (log_lh s)"
    using logged_card(1) [OF inv(2,3)] inv(3) by (simp add: header_ok_def)
  show e: "int (log_space s) = log_size s - 1 - int (card (set (logged s)))"
    using inv(3) unfolding c by (simp add: log_space_def header_ok_def)
  have "log_size s \<le> int NBUF" using inv(2) by (simp add: log_shape_def LOGSIZE_def NBUF_def)
  then show "card (dirty_blocks s) + log_space s < NBUF" using e unfolding inv(4) by linarith
qed

lemma tx_space:
  assumes "log_inv s" and "tx s N g t" and "finite N"
  shows "log_space s \<le> log_space t + card N"
proof -
  have "card (set (logged t)) \<le> card (set (logged s)) + card N"
    using txD(7) [OF assms(2)] card_Un_le [of "set (logged s)" N] by simp
  then show ?thesis
    using log_space_logged(1) [OF assms(1)] log_space_logged(1) [OF txD(1) [OF assms(2)]]
      tframe_log(1) [OF txD(2) [OF assms(2)]] by linarith
qed

text \<open>A block of the file system that can be read inside a transaction.\<close>

lemma tx_ready:
  assumes "log_inv s" and "unat n < FSSIZE" and "\<forall>i\<in>held s. b_blockno (bufs s i) \<noteq> n"
    and "card (held s) \<le> log_space s"
  shows "bready s n"
  using log_space_logged(2) [OF assms(1)] assms by (intro bready_room) (auto simp: log_inv_def)

lemma with_buf_data: "b_data (bufs s i) = d \<Longrightarrow>
    with_buf i (\<lambda>b. b\<lparr>b_data := f (b_data b)\<rparr>) s = with_buf i (\<lambda>b. b\<lparr>b_data := f d\<rparr>) s"
  by (simp add: with_buf_def)

lemma log_update_chain:
  fixes s :: "'z log_state_scheme"
  assumes s: "log_inv s" and n: "home s n" "\<forall>i\<in>held s. b_blockno (bufs s i) \<noteq> n"
    and room: "card (held s) \<le> log_space s" "0 < log_space s" and op: "1 \<le> log_outstanding s"
    and d: "length d = 512"
  shows "\<exists>i t u v. bread 1 n s = Ok i t \<and> bread_post s n i t
    \<and> log_write i (with_buf i (\<lambda>b. b\<lparr>b_data := d\<rparr>) t) = Ok () u \<and> brelse i u = Ok () v
    \<and> tframe s u \<and> tx s {n} ((blk s)(n := d)) v"
proof -
  have nf: "unat n < FSSIZE" using n(1) by (simp add: home_def)
  note rd = tx_ready [OF s nf n(2) room(1)]
  obtain i t where t: "bread 1 n s = Ok i t" "bread_post s n i t" using bready_bread [OF rd] by blast
  note p = bread_postD [OF t(2)] 
  define w where "w = with_buf i (\<lambda>b. b\<lparr>b_data := d\<rparr>) t"
  have "bdata_post t i d w" unfolding w_def using p(1,5) d by (intro set_data_spec) auto
  note w = bdata_postD [OF this]
  have fw: "bframe s w" using p(2) w(2) by (rule bframe_trans)
  note e = log_unchanged [OF fw]
  have iw: "log_inv w" using w(1,7,9) p(9,12) by (intro log_inv_frame [OF s fw]) simp_all
  have hw: "i \<in> held w" "b_blockno (bufs w i) = n" using w(3,4) p(5,6) by auto
  obtain u where ur: "log_write i w = Ok () u" and "log_post w i u"
    using log_write_spec [OF iw hw(1)] n(1) room(2) op by (auto simp: hw(2) e bframe_log [OF fw])
  note u = log_postD [OF this(2)]
  have hu: "i \<in> held u" using u(3) hw by simp
  obtain v where vr: "brelse i u = Ok () v" and "brelse_post u i v"
    using brelse_spec [OF log_invD(1) [OF u(1)] hu] u(7) by blast
  note v = brelse_postD [OF this(2)]
  have fu: "tframe s u" using bframe_lh [OF fw] u(2) by (rule bframe_trans)
  have "log_inv v" by (rule log_inv_frame [OF u(1) v(2,1,7,5)])
  moreover have "tframe s v" using fu v(2) unfolding bframe_log(1) [OF v(2)] by (rule bframe_trans)
  moreover have "held v = held s" using v(3) u(3) w(3) p(4,5) by auto
  moreover have "\<forall>j\<in>held s. same_view (bufs v j) (bufs s j)"
  proof
    fix j
    assume "j \<in> held s"
    then have "j \<noteq> i" using p(4) by blast
    then have "bufs u j = bufs s j" using u(8) w(10) p(11) by simp
    then show "same_view (bufs v j) (bufs s j)" using v(8) by metis
  qed
  moreover have "blk v = (blk s)(n := d)" using v(4) u(4) w(6) p(6,8) by simp
  moreover have "set (logged v) = set (logged s) \<union> {n}" by (auto simp: log_unchanged [OF v(2)] u(11) hw(2) e(1))
  moreover have "disk v = disk s" "dtrace v = dtrace s"
    using v(5,6) u(9,10) w(7,8) p(9,10) by simp_all
  ultimately have "tx s {n} ((blk s)(n := d)) v" by (simp add: tx_def)
  with t ur vr fu show ?thesis unfolding w_def by blast
qed

section \<open>Transactions\<close>

lemma woken_more [simp]: "log_state.more (woken ch s) = log_state.more s"
  by (simp add: woken_def)

lemma woken_bio [simp]:
  "bio_inv (woken ch s) = bio_inv s" "held (woken ch s) = held s" "dirty_blocks (woken ch s) = dirty_blocks s"
  by (simp_all add: bio_inv_def held_def dirty_blocks_def)

lemma woken_blk [simp]: "blk (woken ch s) = blk s"
  by (simp add: fun_eq_iff blk_def cong: option.case_cong)

lemma woken_log [simp]: "log_inv (woken ch s) = log_inv s" "home (woken ch s) = home s" "logged (woken ch s) = logged s"
  by (simp_all add: log_inv_def log_shape_def header_ok_def logged_def disk_header_def home_def log_area_def fun_eq_iff)

lemma counter_log [simp]:
  "log_inv (s\<lparr>log_outstanding := k\<rparr>) = log_inv s" "home (s\<lparr>log_outstanding := k\<rparr>) = home s"
  "log_inv (s\<lparr>log_committing := c\<rparr>) = log_inv s" "home (s\<lparr>log_committing := c\<rparr>) = home s"
  by (simp_all add: log_inv_def log_shape_def header_ok_def logged_def disk_header_def home_def log_area_def fun_eq_iff)

lemma begin_op_run:
  assumes "in_kernel s" and "\<not> log_committing s"
    and "lh_n (log_lh s) + (log_outstanding s + 1) * int MAXOPBLOCKS \<le> int LOGSIZE"
  shows "begin_op s = Ok () (s\<lparr>log_outstanding := log_outstanding s + 1\<rparr>)"
  using assms by (simp add: begin_op_def)

lemma begin_op_sleeps:
  assumes "in_kernel s" and "c_ncli (this_cpu s) = 0" and "this_proc s = Some p"
    and "log_committing s \<or> int LOGSIZE < lh_n (log_lh s) + (log_outstanding s + 1) * int MAXOPBLOCKS"
  shows "begin_op s = Sleep ChLog (acquired L_ptable (asleep ChLog p s))"
  using assms sleep_run [of s L_log p ChLog] by (auto simp: begin_op_def)

lemma end_op_other:
  assumes "in_kernel s" and "\<not> log_committing s" and "log_outstanding s \<noteq> 1"
  shows "end_op s = Ok () (woken ChLog (s\<lparr>log_outstanding := log_outstanding s - 1\<rparr>))"
  using assms by (simp add: end_op_def)

lemma end_op_last:
  assumes "in_kernel s" and "\<not> log_committing s" and "log_outstanding s = 1"
    and "commit (s\<lparr>log_outstanding := 0, log_committing := True\<rparr>) = Ok () t" and "in_kernel t"
  shows "end_op s = Ok () (woken ChLog (t\<lparr>log_committing := False\<rparr>))"
  using assms by (simp add: end_op_def)

section \<open>Recovery\<close>

lemma read_head_loop:
  assumes "k \<le> LOGSIZE"
  shows "for_each [0..<k] (\<lambda>i. bind (in_header i) (\<lambda>_. set_lh (\<lambda>lh. lh\<lparr>lh_block := (lh_block lh)(i := g i)\<rparr>))) s
    = Ok () (s\<lparr>log_lh := (log_lh s)\<lparr>lh_block := (\<lambda>i. if i < k then g i else lh_block (log_lh s) i)\<rparr>\<rparr>)"
  using assms
proof (induction k)
  case 0
  then show ?case by simp
next
  case (Suc k)
  then show ?case
    by (simp add: for_each_append fun_upd_def)
      (rule arg_cong [where f = "\<lambda>x. s\<lparr>log_lh := (log_lh s)\<lparr>lh_block := x\<rparr>\<rparr>"], auto simp: fun_eq_iff less_Suc_eq)
qed

text \<open>The header in memory after reading a header block.\<close>

definition loaded :: "block \<Rightarrow> logheader \<Rightarrow> logheader" where
  "loaded d lh = (let h = get_header d in
     \<lparr>lh_n = lh_n h, lh_block = (\<lambda>i. if i < nat (lh_n h) then lh_block h i else lh_block lh i)\<rparr>)"

lemma loaded_simps [simp]:
  "lh_n (loaded d lh) = lh_n (get_header d)" "tails (loaded d lh) = tails (get_header d)"
  "i < nat (lh_n (get_header d)) \<Longrightarrow> lh_block (loaded d lh) i = lh_block (get_header d) i"
  by (simp_all add: loaded_def Let_def tails_def)

lemma bsame_bwrites: "bsame s t \<Longrightarrow> held s = {} \<Longrightarrow> bwrites s [] t"
  by (simp add: bsame_def bwrites_def)

lemma read_head_run:
  fixes s :: "'z log_state_scheme"
  assumes s: "bio_inv s" "held s = {}" "dirty_blocks s = {}" and l: "log_shape s"
    and h: "lh_n (disk_header s) \<le> int LOGSIZE"
  shows "\<exists>t. read_head s = Ok () t \<and> bwrites (s\<lparr>log_lh := loaded (blk s (log_start s)) (log_lh s)\<rparr>) [] t"
proof -
  let ?n = "log_start s" and ?lh = "loaded (blk s (log_start s)) (log_lh s)"
  have "bready s ?n" using s start_area(2) [OF l] by (intro bready_room) auto
  then obtain i t where t: "bread 1 ?n s = Ok i t" "bread_post s ?n i t" using bready_bread by blast
  note p = bread_postD [OF t(2)] and f = bframe_log [OF bread_postD(2) [OF t(2)]]
  let ?t = "t\<lparr>log_lh := ?lh\<rparr>"
  have b: "blk s ?n = disk s True (unat ?n)" using blk_clean [OF s(1)] s(2,3) by simp
  have "b_data (bufs ?t i) = disk ?t True (unat (b_blockno (bufs ?t i)))" using p(6,7,9) b by simp
  then obtain u where u: "brelse i ?t = Ok () u" "brelse_post ?t i u"
    using brelse_spec [of ?t i] p(1,5) by auto
  have k: "nat (lh_n (get_header (blk s ?n))) \<le> LOGSIZE" using h by (simp add: disk_header_def b nat_le_iff)
  have "log_dev s = 1" using l by (simp add: log_shape_def)
  moreover have "(log_lh s)\<lparr>lh_n := lh_n (get_header (blk s ?n)), lh_block := (\<lambda>i. if i < nat (lh_n (get_header (blk s ?n)))
      then lh_block (get_header (blk s ?n)) i else lh_block (log_lh s) i)\<rparr> = ?lh"
    by (simp add: loaded_def Let_def)
  ultimately have "read_head s = Ok () u"
    using u(1) by (simp add: read_head_def t(1) p(7) tails_def f read_head_loop [OF k] cong: if_cong)
  moreover have "bwrites (s\<lparr>log_lh := ?lh\<rparr>) [] u"
    using brelse_postD [OF u(2)] bframe_trans [OF bframe_lh [OF p(2)] brelse_postD(2) [OF u(2)]] s p(4,5,8-12)
    by (simp add: bwrites_def)
  ultimately show ?thesis by blast
qed

definition recover_writes :: "'z log_state_scheme \<Rightarrow> (uint \<times> block) list" where
  "recover_writes s = install_writes s @ [(log_start s, put_header (cleared (log_lh s)) (blk s (log_start s)))]"

lemma recover_run:
  fixes s :: "'z log_state_scheme"
  defines "r \<equiv> s\<lparr>log_lh := loaded (blk s (log_start s)) (log_lh s)\<rparr>"
  assumes s: "bio_inv s" "held s = {}" "dirty_blocks s = {}" and l: "log_shape s" "header_ok r"
  shows "\<exists>t. recover_from_log s = Ok () t
    \<and> bwrites (r\<lparr>log_lh := cleared (log_lh r)\<rparr>) (recover_writes r) t"
proof -
  have lr: "log_shape r" "bio_inv r" "held r = {}" "dirty_blocks r = {}" "log_start r = log_start s" "blk r = blk s"
    using l(1) s by (simp_all add: r_def log_shape_def)
  have b: "blk s (log_start s) = disk s True (unat (log_start s))" using blk_clean [OF s(1)] s(2,3) by simp
  have "lh_n (log_lh r) < log_size r" "log_size r \<le> int LOGSIZE" using l(2) lr(1) by (auto simp: header_ok_def log_shape_def)
  then have "lh_n (disk_header s) \<le> int LOGSIZE" by (simp add: disk_header_def r_def b [symmetric])
  then obtain t1 where t1: "read_head s = Ok () t1" "bwrites r [] t1"
    using read_head_run [OF s l(1)] unfolding r_def by blast
  note f1 = bframe_log [OF bwrites_bframe(1) [OF t1(2)]] and s1 = bwrites_shape [OF t1(2)]
  have i1: "install_writes t1 = install_writes r"
    using t1(2) by (simp add: install_writes_def f1 s1 bwrites_def)
  obtain t2 where t2: "install_trans t1 = Ok () t2" "bwrites t1 (install_writes r) t2"
    using install_trans_run [OF bwrites_bframe(2,3) [OF t1(2)]] l(2) lr t1(2)
    by (auto simp: s1 i1 copy_room_def bwrites_def)
  note w2 = bwrites_trans [OF t1(2) t2(2)]
  note w2c = bwrites_lh [OF w2, where x = "cleared (log_lh r)"]
  have "log_start s \<notin> fst ` set (install_writes r)"
    using start_area(1) [OF lr(1)] logged_home [OF l(2)] lr(5) by (auto simp: install_writes_def home_def)
  then have b2: "blk t2 (log_start s) = blk r (log_start s)" using w2 by (simp add: bwrites_def upds_other)
  note f2 = bframe_log [OF bwrites_bframe(1) [OF w2]] and s2 = bwrites_shape [OF w2]
  have "dirty_blocks t2 = {}" using w2 lr by (simp add: bwrites_def)
  then obtain t3 where t3: "write_head (t2\<lparr>log_lh := cleared (log_lh r)\<rparr>) = Ok () t3"
    "bwrites (t2\<lparr>log_lh := cleared (log_lh r)\<rparr>) [(log_start s, put_header (cleared (log_lh r)) (blk r (log_start s)))] t3"
    using write_head_run [OF bwrites_bframe(2,3) [OF w2c]] lr b2
    by (auto simp: log_shape_def header_small_def cleared_def f2)
  have "recover_from_log s = Ok () t3"
    using t3(1) by (simp add: recover_from_log_def t1(1) t2(1) f2 cleared_def)
  with bwrites_trans [OF w2c t3(2)] show ?thesis by (auto simp: recover_writes_def lr(5))
qed

end
