(* ===== verification/Crash.thy ===== *)
theory Crash
  imports Log
begin

text \<open>
  What survives a power failure. A disk write of one sector is atomic, and \<open>dtrace\<close> records
  the writes in the order in which the disk performs them; a crash during \<open>commit\<close> or
  during recovery leaves the disk as some prefix of these writes makes it.
\<close>

section \<open>Crashes\<close>

lemma on_disk_other: "n \<notin> fst ` set ws \<Longrightarrow> upds (on_disk ws) f (unat n) = f (unat n)"
  by (rule upds_other) (force simp: unat_eq_iff_word)

lemma on_disk_mem:
  assumes "distinct (map fst ws)" and "(n, d) \<in> set ws"
  shows "upds (on_disk ws) f (unat n) = d"
proof (rule upds_mem)
  have "map fst (on_disk ws) = map unat (map fst ws)" by (simp add: case_prod_unfold)
  then show "distinct (map fst (on_disk ws))"
    using assms(1) by (simp only:) (simp add: distinct_map inj_on_def unat_eq_iff_word)
  show "(unat n, d) \<in> set (on_disk ws)" using assms(2) by force
qed

text \<open>The machine comes up again on what the disk holds, with an empty cache.\<close>

definition rebooted :: "'z log_state_scheme \<Rightarrow> (nat \<Rightarrow> block) \<Rightarrow> 'z log_state_scheme \<Rightarrow> bool" where
  "rebooted s d b \<longleftrightarrow> bio_inv b \<and> held b = {} \<and> dirty_blocks b = {} \<and> disk b True = d
     \<and> log_start b = log_start s \<and> log_size b = log_size s \<and> log_dev b = log_dev s"

lemma rebooted_blk: "rebooted s d b \<Longrightarrow> blk b n = d (unat n)"
  using blk_clean [of b n] by (simp add: rebooted_def)

lemma rebooted_shape:
  assumes "rebooted s d b"
  shows "log_shape b = log_shape s" "home b = home s" "log_blockno b = log_blockno s" "log_area b = log_area s"
    "log_start b = log_start s"
  using assms by (simp_all add: rebooted_def log_shape_def home_def log_area_def log_blockno_def fun_eq_iff)

text \<open>A header on the disk that recovery can follow.\<close>

definition sound_header :: "'z log_state_scheme \<Rightarrow> logheader \<Rightarrow> bool" where
  "sound_header s h \<longleftrightarrow> header_ok (s\<lparr>log_lh := h\<rparr>)"

lemma sound_header_empty: "log_shape s \<Longrightarrow> lh_n h = 0 \<Longrightarrow> sound_header s h"
  by (simp add: sound_header_def header_ok_def logged_def tails_def log_shape_def)

lemma logged_loaded:
  "logged (s\<lparr>log_lh := loaded d lh\<rparr>) = map (lh_block (get_header d)) (tails (get_header d))"
  by (simp add: logged_def tails_def loaded_def Let_def)

definition disk_installs :: "'z log_state_scheme \<Rightarrow> (nat \<Rightarrow> block) \<Rightarrow> (uint \<times> block) list" where
  "disk_installs s d = (let h = get_header (d (unat (log_start s))) in
     map (\<lambda>i. (lh_block h i, d (unat (log_blockno s i)))) (tails h))"

definition disk_recovers :: "'z log_state_scheme \<Rightarrow> (nat \<Rightarrow> block) \<Rightarrow> (uint \<times> block) list" where
  "disk_recovers s d = disk_installs s d @ [(log_start s,
     put_header (cleared (get_header (d (unat (log_start s))))) (d (unat (log_start s))))]"

lemma put_cleared [simp]: "put_header (cleared (loaded d lh)) = put_header (cleared h)"
  by (simp add: put_header_def cleared_def fun_eq_iff)

lemma recover_disk:
  fixes b :: "'z log_state_scheme"
  assumes b: "rebooted s d b" and l: "log_shape s" and ok: "sound_header s (get_header (d (unat (log_start s))))"
  shows "\<exists>t lh. recover_from_log b = Ok () t \<and> bwrites (b\<lparr>log_lh := lh\<rparr>) (disk_recovers s d) t \<and> lh_n lh = 0"
proof -
  let ?d = "d (unat (log_start s))" and ?r = "b\<lparr>log_lh := loaded (d (unat (log_start s))) (log_lh b)\<rparr>"
  note sh = rebooted_shape [OF b] and bk = rebooted_blk [OF b]
  have bb: "bio_inv b" "held b = {}" "dirty_blocks b = {}" "log_size b = log_size s"
    using b by (simp_all add: rebooted_def)
  have "header_ok ?r"
    using ok by (simp add: sound_header_def header_ok_def logged_loaded sh bb(4)) (simp add: logged_def)
  then obtain t where t: "recover_from_log b = Ok () t"
    "bwrites (?r\<lparr>log_lh := cleared (log_lh ?r)\<rparr>) (recover_writes ?r) t"
    using recover_run [OF bb(1-3)] l by (auto simp: sh bk)
  have "install_writes ?r = disk_installs s d"
    by (simp add: install_writes_def disk_installs_def Let_def bk sh tails_def)
  then have "recover_writes ?r = disk_recovers s d"
    by (simp add: recover_writes_def disk_recovers_def bk sh)
      (simp add: put_header_def cleared_def)
  with t show ?thesis by (intro exI [of _ t] exI [of _ "cleared (loaded ?d (log_lh b))"]) (simp add: cleared_def)
qed

lemma disk_installs_keys: "fst ` set (disk_installs s d) =
    (let h = get_header (d (unat (log_start s))) in lh_block h ` set (tails h))"
  by (simp add: disk_installs_def Let_def image_image)

lemma disk_installs_distinct:
  "sound_header s (get_header (d (unat (log_start s)))) \<Longrightarrow> distinct (map fst (disk_installs s d))"
  by (simp add: sound_header_def header_ok_def logged_def disk_installs_def Let_def comp_def)

text \<open>
  What the disk holds outside the log's area after recovery: a block the header lists has
  the logged content, any other block is as it was.
\<close>

definition recovered :: "'z log_state_scheme \<Rightarrow> (nat \<Rightarrow> block) \<Rightarrow> uint \<Rightarrow> block" where
  "recovered s d n = (case map_of (disk_installs s d) n of Some x \<Rightarrow> x | None \<Rightarrow> d (unat n))"

lemma recover_home:
  assumes l: "log_shape s" and ok: "sound_header s (get_header (d (unat (log_start s))))" and n: "home s n"
  shows "upds (on_disk (disk_recovers s d)) d (unat n) = recovered s d n"
proof -
  have "n \<noteq> log_start s" using n start_area(1) [OF l] by (auto simp: home_def)
  then have e: "upds (on_disk (disk_recovers s d)) d (unat n) = upds (on_disk (disk_installs s d)) d (unat n)"
    by (simp add: disk_recovers_def unat_eq_iff_word)
  show ?thesis
  proof (cases "map_of (disk_installs s d) n")
    case None
    then have "n \<notin> fst ` set (disk_installs s d)" by (simp add: map_of_eq_None_iff)
    then show ?thesis unfolding e using None by (simp add: recovered_def on_disk_other)
  next
    case (Some x)
    then show ?thesis unfolding e
      using on_disk_mem [OF disk_installs_distinct [of s d, OF ok] map_of_SomeD [OF Some]] by (simp add: recovered_def)
  qed
qed

definition crash_disk :: "'z log_state_scheme \<Rightarrow> nat \<Rightarrow> nat \<Rightarrow> block" where
  "crash_disk s k = upds (on_disk (take k (commit_writes s))) (disk s True)"

lemma recovered_empty: "lh_n (get_header (d (unat (log_start s)))) = 0 \<Longrightarrow> recovered s d n = d (unat n)"
  by (simp add: recovered_def disk_installs_def Let_def tails_def)

lemma length_log_writes [simp]: "length (log_writes s) = length (logged s)"
  by (simp add: log_writes_def logged_def)

text \<open>A crash before the header is written: the transaction never happened.\<close>

lemma crash_before:
  assumes s: "log_inv s" and k: "k \<le> length (logged s)"
  shows "crash_disk s k (unat (log_start s)) = disk s True (unat (log_start s))"
    and "home s n \<Longrightarrow> crash_disk s k (unat n) = disk s True (unat n)"
proof -
  note i = log_invD [OF s]
  have ws: "take k (commit_writes s) = take k (log_writes s)" using k by (simp add: commit_writes_def Let_def)
  have sub: "n \<notin> fst ` set (take k (log_writes s))" if "unat n \<notin> log_area s \<or> n = log_start s" for n
    using log_writes_other [OF i(2,3) that] by (auto dest: in_set_takeD)
  show "crash_disk s k (unat (log_start s)) = disk s True (unat (log_start s))"
    using sub [of "log_start s"] by (simp add: crash_disk_def ws on_disk_other)
  show "crash_disk s k (unat n) = disk s True (unat n)" if "home s n"
    using sub [of n] that by (simp add: crash_disk_def ws on_disk_other home_def)
qed

text \<open>A crash after the header is written, while blocks are being installed.\<close>

lemma start_not_logged: "log_shape s \<Longrightarrow> header_ok s \<Longrightarrow> log_start s \<notin> set (logged s)"
  using start_area(1) [of s] by (auto simp: header_ok_def home_def)

lemma crash_during:
  assumes s: "log_inv s" and held: "held s = {}" and ws: "take k (commit_writes s) =
      log_writes s @ (log_start s, h) # take j (map (\<lambda>n. (n, blk s n)) (logged s))"
  shows "crash_disk s k (unat (log_start s)) = h"
    and "i \<in> set (tails (log_lh s)) \<Longrightarrow> crash_disk s k (unat (log_blockno s i)) = blk s (lh_block (log_lh s) i)"
    and "home s n \<Longrightarrow> n \<notin> set (logged s) \<Longrightarrow> crash_disk s k (unat n) = blk s n"
proof -
  note inv = log_invD [OF s]
  let ?I = "take j (map (\<lambda>n. (n, blk s n)) (logged s))"
  let ?d = "(upds (on_disk (log_writes s)) (disk s True))(unat (log_start s) := h)"
  have keys: "fst ` set ?I \<subseteq> set (logged s)" by (auto dest: in_set_takeD)
  have cd: "crash_disk s k = upds (on_disk ?I) ?d" by (simp add: crash_disk_def ws)
  have e: "crash_disk s k (unat n) = ?d (unat n)" if "n \<notin> set (logged s)" for n
    unfolding cd using keys that by (intro on_disk_other) blast
  show "crash_disk s k (unat (log_start s)) = h"
    using e [OF start_not_logged [OF inv(2,3)]] by simp
  show "crash_disk s k (unat (log_blockno s i)) = blk s (lh_block (log_lh s) i)" if i: "i \<in> set (tails (log_lh s))"
  proof -
    have "log_blockno s i \<notin> set (logged s)"
      using log_blockno_area(1) [OF inv(2,3) i] inv(3) by (auto simp: header_ok_def home_def)
    moreover have "upds (on_disk (log_writes s)) (disk s True) (unat (log_blockno s i)) = blk s (lh_block (log_lh s) i)"
      using i by (intro on_disk_mem log_writes_distinct [OF inv(2,3)]) (auto simp: log_writes_def)
    ultimately show ?thesis using e log_blockno_area(2) [OF inv(2,3) i] by simp
  qed
  show "crash_disk s k (unat n) = blk s n" if n: "home s n" "n \<notin> set (logged s)"
  proof -
    have "unat n \<noteq> unat (log_start s)" using n(1) start_area(1) [OF inv(2)] by (auto simp: home_def)
    moreover have "upds (on_disk (log_writes s)) (disk s True) (unat n) = disk s True (unat n)"
      using log_writes_other [OF inv(2,3), of n] n(1) by (intro on_disk_other) (simp add: home_def)
    moreover have "blk s n = disk s True (unat n)"
      using n(2) inv(4) blk_clean [OF inv(1)] held by simp
    ultimately show ?thesis using e [OF n(2)] by simp
  qed
qed

lemma header_written:
  assumes s: "log_inv s"
  defines "h \<equiv> put_header (log_lh s) (blk s (log_start s))"
  shows "tails (get_header h) = tails (log_lh s)"
    and "i \<in> set (tails (log_lh s)) \<Longrightarrow> lh_block (get_header h) i = lh_block (log_lh s) i"
    and "sound_header s (get_header h)"
proof -
  note inv = log_invD [OF s]
  note g = get_put_header [OF header_ok_small [OF inv(2,3)], of "blk s (log_start s)"]
  have len: "length (blk s (log_start s)) = 512" using blk_length [OF inv(1)] by blast
  show t: "tails (get_header h) = tails (log_lh s)" using g(1) len by (simp add: h_def tails_def)
  show b: "lh_block (get_header h) i = lh_block (log_lh s) i" if "i \<in> set (tails (log_lh s))" for i
    using g(2) len that by (simp add: h_def tails_def)
  have "map (lh_block (get_header h)) (tails (log_lh s)) = logged s" by (simp add: logged_def b)
  then have "logged (s\<lparr>log_lh := get_header h\<rparr>) = logged s" by (simp add: logged_def t)
  then show "sound_header s (get_header h)"
    using inv(3) g(1) len by (simp add: sound_header_def header_ok_def) (simp add: h_def)
qed

lemma recovered_during:
  assumes s: "log_inv s" and held: "held s = {}" and ws: "take k (commit_writes s) =
      log_writes s @ (log_start s, put_header (log_lh s) (blk s (log_start s)))
        # take j (map (\<lambda>n. (n, blk s n)) (logged s))"
    and n: "home s n"
  shows "recovered s (crash_disk s k) n = blk s n"
proof -
  note c = crash_during [OF s held ws] and h = header_written [OF s]
  have di: "disk_installs s (crash_disk s k) = map (\<lambda>n. (n, blk s n)) (logged s)"
    by (simp add: disk_installs_def Let_def c(1) h(1,2) logged_def c(2))
  show ?thesis
  proof (cases "n \<in> set (logged s)")
    case True
    then show ?thesis by (simp add: recovered_def di map_of_map_restrict)
  next
    case False
    then show ?thesis using c(3) [OF n False] by (simp add: recovered_def di map_of_map_restrict)
  qed
qed

text \<open>A crash after the last write, which clears the header: everything is installed.\<close>

lemma crash_after:
  assumes s: "log_inv s" and held: "held s = {}" and k: "2 * length (logged s) + 2 \<le> k"
  shows "lh_n (get_header (crash_disk s k (unat (log_start s)))) = 0"
    and "home s n \<Longrightarrow> crash_disk s k (unat n) = blk s n"
proof -
  note inv = log_invD [OF s]
  let ?h = "put_header (log_lh s) (blk s (log_start s))" and ?I = "map (\<lambda>n. (n, blk s n)) (logged s)"
  let ?m = "2 * length (logged s) + 1"
  have ws: "take ?m (commit_writes s) = log_writes s @ (log_start s, ?h) # take (length (logged s)) ?I"
    by (simp add: commit_writes_def Let_def)
  have "length (commit_writes s) = Suc ?m" by (simp add: commit_writes_def Let_def)
  then have "take k (commit_writes s) = commit_writes s" using k by simp
  then have e: "crash_disk s k = (crash_disk s ?m)(unat (log_start s) := put_header (cleared (log_lh s)) ?h)"
    unfolding crash_disk_def ws by (simp add: commit_writes_def Let_def)
  have "length ?h = 512" using blk_length [OF inv(1)] header_ok_small [OF inv(2,3)] by simp
  then show "lh_n (get_header (crash_disk s k (unat (log_start s)))) = 0"
    using get_put_header(1) [of "cleared (log_lh s)" ?h] by (simp add: e header_small_def cleared_def)
  show "crash_disk s k (unat n) = blk s n" if n: "home s n"
  proof -
    have "unat n \<noteq> unat (log_start s)" using n start_area(1) [OF inv(2)] by (auto simp: home_def)
    then have "crash_disk s k (unat n) = crash_disk s ?m (unat n)" by (simp add: e)
    also have "\<dots> = blk s n"
    proof (cases "n \<in> set (logged s)")
      case True
      have "distinct (map fst ?I)" using inv(3) by (simp add: comp_def header_ok_def)
      then have "upds (on_disk ?I) f (unat n) = blk s n" for f using True by (intro on_disk_mem) auto
      then show ?thesis unfolding crash_disk_def ws by simp
    next
      case False
      then show ?thesis using crash_during(3) [OF s held ws n] by simp
    qed
    finally show ?thesis .
  qed
qed

lemma commit_crash:
  assumes s: "log_inv s" and held: "held s = {}"
  shows "sound_header s (get_header (crash_disk s k (unat (log_start s))))"
    and "home s n \<Longrightarrow> recovered s (crash_disk s k) n =
      (if k \<le> length (logged s) then disk s True (unat n) else blk s n)"
proof -
  note inv = log_invD [OF s]
  consider "k \<le> length (logged s)" | "length (logged s) < k" "k < 2 * length (logged s) + 2"
    | "2 * length (logged s) + 2 \<le> k" by linarith
  then have "sound_header s (get_header (crash_disk s k (unat (log_start s)))) \<and> (home s n \<longrightarrow>
     recovered s (crash_disk s k) n = (if k \<le> length (logged s) then disk s True (unat n) else blk s n))"
  proof cases
    case 1
    note c = crash_before [OF s 1]
    have "lh_n (get_header (crash_disk s k (unat (log_start s)))) = 0"
      using inv(5) by (simp add: c(1) disk_header_def)
    then show ?thesis using sound_header_empty [OF inv(2)] c(2) 1 by (simp add: recovered_empty)
  next
    case 2
    have ws: "take k (commit_writes s) = log_writes s @ (log_start s, put_header (log_lh s) (blk s (log_start s)))
        # take (k - length (logged s) - 1) (map (\<lambda>n. (n, blk s n)) (logged s))"
      using 2 by (simp add: commit_writes_def Let_def take_Cons')
    show ?thesis
      using header_written(3) [OF s] crash_during(1) [OF s held ws] recovered_during [OF s held ws] 2 by simp
  next
    case 3
    note c = crash_after [OF s held 3]
    show ?thesis using sound_header_empty [OF inv(2) c(1)] c 3 by (simp add: recovered_empty)
  qed
  then show "sound_header s (get_header (crash_disk s k (unat (log_start s))))"
    "home s n \<Longrightarrow> recovered s (crash_disk s k) n =
      (if k \<le> length (logged s) then disk s True (unat n) else blk s n)" by blast+
qed

section \<open>Commit as a whole\<close>

lemma bwrites_disk:
  assumes "bwrites s ws t"
  shows "disk t True = upds (on_disk ws) (disk s True)" "dtrace t = dtrace s @ map (\<lambda>w. (True, w)) (on_disk ws)"
    "dirty_blocks t = dirty_blocks s - fst ` set ws"
  using assms by (simp_all add: bwrites_def)

lemma logged_cleared: "logged (s\<lparr>log_lh := cleared lh\<rparr>) = []" "lh_n (cleared lh) = 0"
  by (simp_all add: logged_def tails_def cleared_def)

lemma log_inv_cleared:
  assumes "log_shape s" and "bio_inv s" and "dirty_blocks s = {}" and "lh_n (log_lh s) = 0" and "lh_n (disk_header s) = 0"
  shows "log_inv s"
  using assms by (simp add: log_inv_def header_ok_def log_shape_def logged_def tails_def)

lemma commit_full:
  fixes s :: "'z log_state_scheme"
  assumes s: "log_inv s" "held s = {}" and n: "0 < lh_n (log_lh s)"
  shows "\<exists>t. commit s = Ok () t \<and> log_inv t \<and> lh_n (log_lh t) = 0 \<and> held t = {} \<and> tframe s t
    \<and> dtrace t = dtrace s @ map (\<lambda>w. (True, w)) (on_disk (commit_writes s))
    \<and> (\<forall>n. home s n \<longrightarrow> disk t True (unat n) = blk s n)"
proof -
  note inv = log_invD [OF s(1)]
  let ?c = "s\<lparr>log_lh := cleared (log_lh s)\<rparr>" and ?k = "2 * length (logged s) + 2"
  obtain t where t: "commit s = Ok () t" "bwrites ?c (commit_writes s) t" using commit_run [OF s n] by blast
  note b = bwrites_bframe [OF t(2)] and d = bwrites_disk [OF t(2)]
  note l = bframe_log [OF b(1)] and sh = bwrites_shape [OF t(2)]
  have "length (commit_writes s) = ?k" by (simp add: commit_writes_def Let_def)
  then have e: "disk t True = crash_disk s ?k" using d(1) by (simp add: crash_disk_def)
  note c = crash_after [OF s order_refl]
  have "dirty_blocks t = {}" using d(3) inv(4) by (auto simp: commit_writes_def Let_def image_image image_Un)
  moreover have "log_shape t" using inv(2) sh(1) by simp
  moreover have "lh_n (disk_header t) = 0" using c(1) l(6) by (simp add: disk_header_def e)
  moreover have z: "lh_n (log_lh t) = 0" using l(1) by (simp add: cleared_def)
  ultimately have "log_inv t" by (intro log_inv_cleared) (use b in auto)
  moreover have "tframe s t" using b(1) l(1) by simp
  ultimately show ?thesis using t(1) b(3) d(2) c(2) e z by auto
qed

lemma commit_spec:
  fixes s :: "'z log_state_scheme"
  assumes s: "log_inv s" "held s = {}"
  shows "\<exists>t. commit s = Ok () t \<and> log_inv t \<and> lh_n (log_lh t) = 0 \<and> held t = {} \<and> tframe s t
    \<and> (\<forall>n. home s n \<longrightarrow> disk t True (unat n) = blk s n \<and> blk t n = blk s n)"
proof (cases "0 < lh_n (log_lh s)")
  case True
  then obtain t where t: "commit s = Ok () t" "log_inv t" "lh_n (log_lh t) = 0" "held t = {}" "tframe s t"
    "\<forall>n. home s n \<longrightarrow> disk t True (unat n) = blk s n" using commit_full [OF s] by blast
  have "dirty_blocks t = {}" using log_invD(4) [OF t(2)] t(3) by (simp add: logged_def tails_def)
  then have "blk t n = disk t True (unat n)" for n using blk_clean [OF log_invD(1) [OF t(2)]] t(4) by simp
  with t show ?thesis by auto
next
  case False
  then have z: "lh_n (log_lh s) = 0" using log_invD(3) [OF s(1)] by (simp add: header_ok_def)
  then have "dirty_blocks s = {}" using log_invD(4) [OF s(1)] by (simp add: logged_def tails_def)
  then have "blk s n = disk s True (unat n)" for n using blk_clean [OF log_invD(1) [OF s(1)]] s(2) by simp
  with z s show ?thesis by (simp add: commit_empty)
qed

lemma end_op_spec:
  fixes s :: "'z log_state_scheme"
  assumes s: "log_inv s" "held s = {}" and o: "log_outstanding s = 1" "\<not> log_committing s"
  shows "\<exists>t. end_op s = Ok () t \<and> log_inv t \<and> lh_n (log_lh t) = 0 \<and> held t = {} \<and> log_outstanding t = 0
    \<and> \<not> log_committing t \<and> log_state.more t = log_state.more s
    \<and> (\<forall>n. home s n \<longrightarrow> disk t True (unat n) = blk s n \<and> blk t n = blk s n)"
proof -
  let ?s = "s\<lparr>log_outstanding := 0, log_committing := True\<rparr>"
  obtain t where t: "commit ?s = Ok () t" "log_inv t" "lh_n (log_lh t) = 0" "held t = {}" "tframe ?s t"
    "\<forall>n. home ?s n \<longrightarrow> disk t True (unat n) = blk ?s n \<and> blk t n = blk ?s n"
    using commit_spec [of ?s] s by auto
  have k: "in_kernel s" "in_kernel t" using s(1) t(2) by (simp_all add: bio_invD log_invD)
  show ?thesis
    using end_op_last [OF k(1) o(2,1) t(1) k(2)] t tframe_log [OF t(5)] by simp
qed

section \<open>Example machine\<close>

text \<open>A machine inside a file system operation, with a log of 30 blocks at block 2.\<close>

definition txn_boot :: "(nat \<Rightarrow> block) \<Rightarrow> 'z \<Rightarrow> 'z log_state_scheme" where
  "txn_boot d z = cache_boot d (log_state_ext 2 30 1 False 1 empty_header z)"

lemma txn_boot_simps [simp]:
  "log_start (txn_boot d z) = 2" "log_size (txn_boot d z) = 30" "log_outstanding (txn_boot d z) = 1"
  "log_committing (txn_boot d z) = False" "log_dev (txn_boot d z) = 1" "log_lh (txn_boot d z) = empty_header"
  "log_state.more (txn_boot d z) = z"
  by (simp_all add: txn_boot_def cache_boot_def ide_state.defs)

lemma txn_boot_cache [simp]:
  "held (txn_boot d z) = {}" "dirty_blocks (txn_boot d z) = {}" "blk (txn_boot d z) n = d (unat n)"
  "disk (txn_boot d z) = (\<lambda>_. d)" "dtrace (txn_boot d z) = []" "in_kernel (txn_boot d z)"
  by (simp_all add: txn_boot_def)

lemma from_le_zeros [simp]: "from_le (replicate n 0) = 0"
  by (induction n) simp_all

lemma get_u32_zero_block [simp]: "k + 4 \<le> 512 \<Longrightarrow> get_u32 k zero_block = 0"
  by (simp add: get_u32_def zero_block_def slice_def min_def)

lemma txn_boot_inv:
  assumes "\<And>n. length (d n) = 512" and "get_u32 0 (d 2) = 0"
  shows "log_inv (txn_boot d z)"
proof -
  have "bio_inv (txn_boot d z)" using assms(1) by (simp add: txn_boot_def cache_boot_inv)
  then show ?thesis
    using assms(2) by (intro log_inv_cleared) (simp_all add: log_shape_def LOGSIZE_def empty_header_def disk_header_def get_header_def)
qed

lemma txn_boot_rebooted:
  assumes "\<And>n. length (d n) = 512" and "log_start s = 2" "log_size s = 30" "log_dev s = 1"
  shows "rebooted s d (txn_boot d z)"
proof -
  have "bio_inv (txn_boot d z)" using assms(1) by (simp add: txn_boot_def cache_boot_inv)
  then show ?thesis using assms by (simp add: rebooted_def)
qed

lemma commit_writes_length:
  assumes "log_inv s" and "w \<in> set (commit_writes s)"
  shows "length (snd w) = 512"
proof -
  note inv = log_invD [OF assms(1)]
  have h: "header_small (log_lh s)" "header_small (cleared (log_lh s))"
    using header_ok_small [OF inv(2,3)] by (simp_all add: header_small_def cleared_def)
  show ?thesis using assms(2) h blk_length [OF inv(1)]
    by (auto simp: commit_writes_def log_writes_def Let_def)
qed

lemma upds_all:
  assumes "\<And>n. P (f n)" and "\<And>w. w \<in> set ws \<Longrightarrow> P (snd w)"
  shows "P (upds ws f n)"
  using assms
proof (induction ws arbitrary: f)
  case Nil
  then show ?case by simp
next
  case (Cons w ws)
  obtain a b where w: "w = (a, b)" by (cases w)
  have "P b" using Cons.prems(2) [of w] w by simp
  then have "P ((f(a := b)) m)" for m using Cons.prems(1) by simp
  moreover have "P (snd v)" if "v \<in> set ws" for v using Cons.prems(2) [of v] that by simp
  ultimately show ?case unfolding w upds_simps by (rule Cons.IH)
qed

lemma crash_disk_length:
  assumes "log_inv s"
  shows "length (crash_disk s k n) = 512"
  unfolding crash_disk_def
proof (rule upds_all)
  show "length (disk s True n) = 512" for n by (rule bio_invD(8) [OF log_invD(1) [OF assms]])
  fix w
  assume "w \<in> set (on_disk (take k (commit_writes s)))"
  then obtain v where "v \<in> set (commit_writes s)" "snd w = snd v" by (auto dest: in_set_takeD)
  then show "length (snd w) = 512" using commit_writes_length [OF assms] by simp
qed

section \<open>Interrupted recovery\<close>

lemma installs_home:
  assumes "sound_header s (get_header (d (unat (log_start s))))" and "n \<in> fst ` set (disk_installs s d)"
  shows "home s n"
  using assms by (auto simp: disk_installs_keys Let_def sound_header_def header_ok_def logged_def)

lemma partial_installs:
  fixes k :: nat
  assumes l: "log_shape s" and ok: "sound_header s (get_header (d (unat (log_start s))))"
  defines "e \<equiv> upds (on_disk (take k (disk_installs s d))) d"
  shows "e (unat (log_start s)) = d (unat (log_start s))" and "disk_installs s e = disk_installs s d"
    and "n \<notin> fst ` set (disk_installs s d) \<Longrightarrow> e (unat n) = d (unat n)"
proof -
  let ?h = "get_header (d (unat (log_start s)))"
  have other: "e (unat n) = d (unat n)" if "n \<notin> fst ` set (disk_installs s d)" for n
    unfolding e_def using that by (intro on_disk_other) (auto dest: in_set_takeD)
  show st: "e (unat (log_start s)) = d (unat (log_start s))"
    using installs_home [of s d, OF ok] start_area(1) [OF l] by (intro other) (auto simp: home_def)
  have "e (unat (log_blockno s i)) = d (unat (log_blockno s i))" if i: "i \<in> set (tails ?h)" for i
  proof (rule other)
    have "unat (log_blockno s i) \<in> log_area s"
      using log_blockno_area(1) [of "s\<lparr>log_lh := ?h\<rparr>" i] l ok i by (simp add: sound_header_def log_area_def)
    then show "log_blockno s i \<notin> fst ` set (disk_installs s d)"
      using installs_home [of s d, OF ok] by (auto simp: home_def)
  qed
  then show "disk_installs s e = disk_installs s d" by (simp add: disk_installs_def st Let_def)
  show "e (unat n) = d (unat n)" if "n \<notin> fst ` set (disk_installs s d)" by (rule other [OF that])
qed

lemma recovered_again:
  fixes k :: nat
  assumes l: "log_shape s" and ok: "sound_header s (get_header (d (unat (log_start s))))"
    and len: "length (d (unat (log_start s))) = 512"
  defines "e \<equiv> upds (on_disk (take k (disk_recovers s d))) d"
  shows "sound_header s (get_header (e (unat (log_start s)))) \<and> (home s n \<longrightarrow> recovered s e n = recovered s d n)"
proof (cases "k \<le> length (disk_installs s d)")
  case True
  then have e: "e = upds (on_disk (take k (disk_installs s d))) d" by (simp add: e_def disk_recovers_def)
  note p = partial_installs [where s = s and d = d and k = k, OF l ok, folded e]
  have "recovered s e n = recovered s d n"
    using p(3) [of n, folded map_of_eq_None_iff]
    by (cases "map_of (disk_installs s d) n") (simp_all add: recovered_def p(2))
  then show ?thesis using ok by (simp add: p(1))
next
  case False
  let ?h = "put_header (cleared (get_header (d (unat (log_start s))))) (d (unat (log_start s)))"
  have e: "e = (upds (on_disk (disk_installs s d)) d)(unat (log_start s) := ?h)"
    using False by (simp add: e_def disk_recovers_def)
  have z: "lh_n (get_header (e (unat (log_start s)))) = 0"
    using get_put_header(1) [OF _ len, of "cleared (get_header (d (unat (log_start s))))"]
    by (simp add: e header_small_def cleared_def)
  moreover have "e = upds (on_disk (disk_recovers s d)) d" using e by (simp add: disk_recovers_def)
  ultimately show ?thesis
    using sound_header_empty [OF l z] recovered_empty [of e s n, OF z] recover_home [of s d n, OF l ok] by simp
qed

section \<open>Crash atomicity\<close>

text \<open>
  C1: A transaction is atomic under power failure. \<open>commit\<close> returns, and whatever prefix
  of its disk writes has reached the disk when the machine stops, the machine that comes
  up on that disk recovers from the log without panic, and then every block outside the
  log holds what it held before the transaction if the header had not been written, and
  the transaction's content otherwise: all blocks are old, or all blocks are new.
\<close>

theorem commit_crash_atomic:
  assumes "log_inv s" and "held s = {}" and "0 < lh_n (log_lh s)"
  shows "\<exists>t. commit s = Ok () t \<and> dtrace t = dtrace s @ map (\<lambda>w. (True, w)) (on_disk (commit_writes s))
    \<and> (\<forall>k b. rebooted s (crash_disk s k) b \<longrightarrow> (\<exists>u. recover_from_log b = Ok () u \<and>
        (\<forall>n. home s n \<longrightarrow> disk u True (unat n) =
           (if k \<le> length (logged s) then disk s True (unat n) else blk s n))))"
proof -
  note inv = log_invD [OF assms(1)] and c = commit_crash [OF assms(1,2)]
  have "\<exists>u. recover_from_log b = Ok () u \<and> (\<forall>n. home s n \<longrightarrow> disk u True (unat n) =
      (if k \<le> length (logged s) then disk s True (unat n) else blk s n))"
    if b: "rebooted s (crash_disk s k) b" for k b
  proof -
    obtain u lh where u: "recover_from_log b = Ok () u"
      "bwrites (b\<lparr>log_lh := lh\<rparr>) (disk_recovers s (crash_disk s k)) u"
      using recover_disk [OF b inv(2) c(1)] by blast
    have "disk u True = upds (on_disk (disk_recovers s (crash_disk s k))) (crash_disk s k)"
      using bwrites_disk(1) [OF u(2)] b by (simp add: rebooted_def)
    then have "disk u True (unat n) = recovered s (crash_disk s k) n" if "home s n" for n
      using recover_home [of s "crash_disk s k" n, OF inv(2) c(1) that] by simp
    then show ?thesis using u(1) c(2) by auto
  qed
  then show ?thesis using commit_full [OF assms] by blast
qed

text \<open>
  C2: Recovery can itself be interrupted: after any prefix of the writes of
  \<open>recover_from_log\<close>, recovering again leaves the same contents outside the log as the
  uninterrupted recovery.
\<close>

theorem recovery_idempotent:
  assumes "log_shape s" and "rebooted s d b" and "sound_header s (get_header (d (unat (log_start s))))"
  shows "\<exists>t. recover_from_log b = Ok () t \<and> dtrace t = dtrace b @ map (\<lambda>w. (True, w)) (on_disk (disk_recovers s d))
    \<and> (\<forall>k c. rebooted s (upds (on_disk (take k (disk_recovers s d))) d) c \<longrightarrow>
        (\<exists>u. recover_from_log c = Ok () u \<and> (\<forall>n. home s n \<longrightarrow> disk u True (unat n) = disk t True (unat n))))"
proof -
  have run: "\<exists>t. recover_from_log b = Ok () t \<and> dtrace t = dtrace b @ map (\<lambda>w. (True, w)) (on_disk (disk_recovers s d))
      \<and> (\<forall>n. home s n \<longrightarrow> disk t True (unat n) = recovered s d n)"
    if b: "rebooted s d b" and ok: "sound_header s (get_header (d (unat (log_start s))))" for d and b
  proof -
    obtain t lh where t: "recover_from_log b = Ok () t" "bwrites (b\<lparr>log_lh := lh\<rparr>) (disk_recovers s d) t"
      using recover_disk [of s d b, OF b assms(1) ok] by blast
    have "disk t True = upds (on_disk (disk_recovers s d)) d"
      using bwrites_disk(1) [OF t(2)] b by (simp add: rebooted_def)
    then show ?thesis
      using t(1) bwrites_disk(2) [OF t(2)] recover_home [of s d, OF assms(1) ok] by auto
  qed
  have len: "length (d (unat (log_start s))) = 512"
    using assms(2) bio_invD(8) [of b] by (auto simp: rebooted_def)
  obtain t where t: "recover_from_log b = Ok () t"
    "dtrace t = dtrace b @ map (\<lambda>w. (True, w)) (on_disk (disk_recovers s d))"
    "\<forall>n. home s n \<longrightarrow> disk t True (unat n) = recovered s d n" using run [of d b, OF assms(2,3)] by blast
  have "\<exists>u. recover_from_log c = Ok () u \<and> (\<forall>n. home s n \<longrightarrow> disk u True (unat n) = disk t True (unat n))"
    if c: "rebooted s (upds (on_disk (take k (disk_recovers s d))) d) c" for k c
    using run [OF c] recovered_again [where s = s and d = d and k = k, OF assms(1,3) len] t(3) by auto
  with t(1,2) show ?thesis by blast
qed

text \<open>The example: one block of a transaction on an empty disk.\<close>

lemma sample_txn:
  "\<exists>s :: log_state. log_inv s \<and> held s = {} \<and> lh_n (log_lh s) = 1 \<and> logged s = [100] \<and> log_outstanding s = 1
    \<and> \<not> log_committing s \<and> log_start s = 2 \<and> log_size s = 30 \<and> log_dev s = 1 \<and> disk s True 100 = zero_block
    \<and> blk s 100 = replicate 512 42"
proof -
  let ?b = "txn_boot (\<lambda>_. zero_block) () :: log_state"
  have b: "log_inv ?b" by (intro txn_boot_inv) simp_all
  have "home ?b 100" "log_space ?b = 29" by (simp_all add: home_def log_area_def log_space_def empty_header_def)
  then obtain s where s: "tx ?b {100} ((blk ?b)(100 := replicate 512 42)) s"
    using log_update_chain [OF b, of 100 "replicate 512 42"] by auto
  note t = txD [OF s] and f = tframe_log [OF txD(2) [OF s]]
  have set: "set (logged s) = {100}" using t(7) by (simp add: logged_def tails_def empty_header_def)
  have h: "distinct (logged s)" using log_invD(3) [OF t(1)] by (simp add: header_ok_def)
  then have l: "logged s = [100]" using set by (cases "logged s") (auto simp: subset_singleton_iff)
  have "nat (lh_n (log_lh s)) = 1" using logged_card(1) [OF log_invD(2,3) [OF t(1)]] set by simp
  then have "lh_n (log_lh s) = 1" by simp
  then show ?thesis using t l f by (intro exI [of _ s]) simp
qed

theorem commit_crash_atomic_witness:
  "\<exists>s t. \<exists>b1 b2 :: log_state. \<exists>u1 u2. commit s = Ok () t \<and> length (dtrace t) = length (dtrace s) + 4
     \<and> rebooted s (crash_disk s 1) b1 \<and> recover_from_log b1 = Ok () u1 \<and> disk u1 True 100 = zero_block
     \<and> rebooted s (crash_disk s 2) b2 \<and> recover_from_log b2 = Ok () u2 \<and> disk u2 True 100 = replicate 512 42"
proof -
  obtain s :: log_state where s: "log_inv s" "held s = {}" "lh_n (log_lh s) = 1" "logged s = [100]"
    "log_start s = 2" "log_size s = 30" "log_dev s = 1" "disk s True 100 = zero_block"
    "blk s 100 = replicate 512 42" using sample_txn by blast
  have "0 < lh_n (log_lh s)" using s by simp
  from commit_crash_atomic [OF s(1,2) this] obtain t where t: "commit s = Ok () t"
    "dtrace t = dtrace s @ map (\<lambda>w. (True, w)) (on_disk (commit_writes s))"
    and r: "\<And>k b. rebooted s (crash_disk s k) b \<Longrightarrow> \<exists>u. recover_from_log b = Ok () u \<and> (\<forall>n. home s n \<longrightarrow>
        disk u True (unat n) = (if k \<le> length (logged s) then disk s True (unat n) else blk s n))" by blast
  have b: "rebooted s (crash_disk s k) (txn_boot (crash_disk s k) ())" for k
    using crash_disk_length [OF s(1)] s by (intro txn_boot_rebooted) auto
  have "home s 100" using s by (simp add: home_def log_area_def)
  then obtain u1 u2 where
    "recover_from_log (txn_boot (crash_disk s 1) ()) = Ok () u1" "disk u1 True 100 = zero_block"
    "recover_from_log (txn_boot (crash_disk s 2) ()) = Ok () u2" "disk u2 True 100 = replicate 512 42"
    using r [OF b [of 1]] r [OF b [of 2]] s(4,8,9) by fastforce
  moreover have "length (dtrace t) = length (dtrace s) + 4"
    using t(2) s(4) by (simp add: commit_writes_def Let_def)
  ultimately show ?thesis using t(1) b by blast
qed

theorem recovery_idempotent_witness:
  "\<exists>s d b t c. \<exists>u :: log_state. rebooted s d b \<and> recover_from_log b = Ok () t
    \<and> rebooted s (upds (on_disk (take 1 (disk_recovers s d))) d) c \<and> recover_from_log c = Ok () u
    \<and> disk u True 100 = disk t True 100 \<and> dtrace t \<noteq> dtrace b"
proof -
  obtain s :: log_state where s: "log_inv s" "held s = {}" "log_start s = 2" "log_size s = 30" "log_dev s = 1"
    using sample_txn by blast
  let ?d = "crash_disk s 2"
  let ?e = "upds (on_disk (take 1 (disk_recovers s ?d))) ?d"
  note ok = commit_crash(1) [OF s(1,2), of 2] and len = crash_disk_length [OF s(1), of 2]
  have b: "rebooted s ?d (txn_boot ?d ())" using len s by (intro txn_boot_rebooted) auto
  have "length (?e n) = 512" for n
  proof (rule upds_all)
    fix w
    assume "w \<in> set (on_disk (take 1 (disk_recovers s ?d)))"
    then have "snd w \<in> snd ` set (disk_recovers s ?d)" by (force dest: in_set_takeD)
    then show "length (snd w) = 512"
      using len by (auto simp: disk_recovers_def disk_installs_def Let_def header_small_def cleared_def)
  qed (rule len)
  then have c: "rebooted s ?e (txn_boot ?e ())" using s by (intro txn_boot_rebooted) auto
  obtain t where t: "recover_from_log (txn_boot ?d ()) = Ok () t"
    "dtrace t = dtrace (txn_boot ?d ()) @ map (\<lambda>w. (True, w)) (on_disk (disk_recovers s ?d))"
    and r: "\<And>k c. rebooted s (upds (on_disk (take k (disk_recovers s ?d))) ?d) c \<Longrightarrow>
        \<exists>u. recover_from_log c = Ok () u \<and> (\<forall>n. home s n \<longrightarrow> disk u True (unat n) = disk t True (unat n))"
    using recovery_idempotent [of s ?d, OF log_invD(2) [OF s(1)] b ok] by blast
  obtain u where u: "recover_from_log (txn_boot ?e ()) = Ok () u"
    "\<forall>n. home s n \<longrightarrow> disk u True (unat n) = disk t True (unat n)" using r [OF c] by blast
  have "home s 100" using s by (simp add: home_def log_area_def)
  then have "disk u True 100 = disk t True 100" using u(2) [rule_format, of 100] by simp
  moreover have "dtrace t \<noteq> dtrace (txn_boot ?d ())" unfolding t(2) by (simp add: disk_recovers_def)
  ultimately show ?thesis using b c t(1) u(1) by blast
qed

section \<open>Transactions and log space\<close>

text \<open>
  C16: The \<open>end_op\<close> of the last running operation makes its transaction durable: it
  returns with an empty log, and every block outside the log has, on the disk and
  through the cache, the content the operation gave it.
\<close>

theorem end_op_durable:
  assumes "log_inv s" and "held s = {}" and "log_outstanding s = 1" and "\<not> log_committing s"
  shows "\<exists>t. end_op s = Ok () t \<and> log_inv t \<and> lh_n (log_lh t) = 0 \<and> log_outstanding t = 0 \<and> \<not> log_committing t
    \<and> (\<forall>n. home s n \<longrightarrow> disk t True (unat n) = blk s n \<and> blk t n = blk s n)"
  using end_op_spec [OF assms] by blast

theorem end_op_durable_witness:
  "\<exists>s t :: log_state. end_op s = Ok () t \<and> disk s True 100 = zero_block \<and> disk t True 100 = replicate 512 42"
proof -
  obtain s :: log_state where s: "log_inv s" "held s = {}" "log_outstanding s = 1" "\<not> log_committing s"
    "log_start s = 2" "log_size s = 30" "disk s True 100 = zero_block" "blk s 100 = replicate 512 42"
    using sample_txn by blast
  have "home s 100" using s by (simp add: home_def log_area_def)
  then show ?thesis using end_op_durable [OF s(1-4)] s(7,8) by fastforce
qed

text \<open>
  C17: Reading a block, changing its buffer, \<open>log_write\<close> and \<open>brelse\<close> inside an operation
  return, change that block and no other as seen by all later readers, leave the disk
  untouched, and take at most one entry of the log.
\<close>

theorem log_write_transaction:
  assumes "log_inv s" and "held s = {}" and "home s n" and "1 \<le> log_outstanding s" and "0 < log_space s"
    and "length d = 512"
  shows "\<exists>t. bind (bread 1 n) (\<lambda>i. bind (set_buf i (\<lambda>b. b\<lparr>b_data := d\<rparr>)) (\<lambda>_.
      bind (log_write i) (\<lambda>_. brelse i))) s = Ok () t \<and> log_inv t \<and> blk t = (blk s)(n := d) \<and> disk t = disk s
    \<and> dtrace t = dtrace s \<and> set (logged t) = insert n (set (logged s)) \<and> log_space s \<le> log_space t + 1"
proof -
  obtain i t u v where r: "bread 1 n s = Ok i t" "log_write i (with_buf i (\<lambda>b. b\<lparr>b_data := d\<rparr>) t) = Ok () u"
    "brelse i u = Ok () v" "tx s {n} ((blk s)(n := d)) v"
    using log_update_chain [of s n d] assms by auto
  then show ?thesis
    using txD [OF r(4)] tx_space [OF assms(1) r(4)] by (intro exI [of _ v]) simp
qed

theorem log_write_transaction_witness:
  "\<exists>t :: log_state. bind (bread 1 100) (\<lambda>i. bind (set_buf i (\<lambda>b. b\<lparr>b_data := replicate 512 42\<rparr>)) (\<lambda>_.
      bind (log_write i) (\<lambda>_. brelse i))) (txn_boot (\<lambda>_. zero_block) ()) = Ok () t
    \<and> blk t 100 = replicate 512 42 \<and> disk t True 100 = zero_block \<and> set (logged t) = {100}"
proof -
  let ?b = "txn_boot (\<lambda>_. zero_block) () :: log_state"
  have "log_inv ?b" "home ?b 100" "log_space ?b = 29"
    by (auto intro: txn_boot_inv simp: home_def log_area_def log_space_def empty_header_def)
  then show ?thesis
    using log_write_transaction [of ?b 100 "replicate 512 42"]
    by (auto simp: logged_def tails_def empty_header_def)
qed

text \<open>
  C21: The space that \<open>begin_op\<close> reserves is not what \<open>log_write\<close> grants. With the log of
  30 blocks that the file system has, \<open>begin_op\<close> admits three operations at once, each
  promised \<open>MAXOPBLOCKS\<close> = 10 blocks, but the 30th block they log panics: \<open>log_write\<close>
  refuses as soon as 29 blocks are logged, even a block that is already in the log.
\<close>

theorem log_reservation_short:
  assumes "in_kernel s" and "\<not> log_committing s" and "log_size s = 30" and "lh_n (log_lh s) = 0"
    and "log_outstanding s = 0"
  shows "\<exists>t. bind begin_op (\<lambda>_. bind begin_op (\<lambda>_. begin_op)) s = Ok () t \<and> log_outstanding t = 3
    \<and> log_outstanding t * int MAXOPBLOCKS = 30 \<and> log_size t = 30
    \<and> (\<forall>u b. log_size u = log_size t \<longrightarrow> lh_n (log_lh u) = 29 \<longrightarrow> log_write b u = Panic ''too big a transaction'')"
  using assms by (simp add: begin_op_run LOGSIZE_def) (simp add: log_write_def)

theorem log_reservation_short_witness:
  "\<exists>t :: log_state. bind begin_op (\<lambda>_. bind begin_op (\<lambda>_. begin_op))
      ((txn_boot (\<lambda>_. zero_block) ())\<lparr>log_outstanding := 0\<rparr>) = Ok () t \<and> log_outstanding t = 3 \<and> log_size t = 30"
proof -
  show ?thesis
    using log_reservation_short [of "(txn_boot (\<lambda>_. zero_block) () :: log_state)\<lparr>log_outstanding := 0\<rparr>"]
    by (auto simp: empty_header_def)
qed

end
