(* ===== verification/Inode.thy ===== *)
theory Inode
  imports Crash
begin

text \<open>
  Blocks and inodes of \<open>fs.c\<close>: the block bitmap, the inode cache, inodes on the disk and
  the map from a file's blocks to disk blocks. An inode pointer is an index into the inode
  cache, so the tests for a null pointer have no counterpart. \<open>short\<close> fields are 16-bit words.
\<close>

section \<open>State\<close>

record inode =
  i_dev :: uint
  i_inum :: uint
  i_ref :: int
  i_flags :: uint
  i_type :: ushort
  i_major :: ushort
  i_minor :: ushort
  i_nlink :: ushort
  i_size :: uint
  i_addrs :: "uint list"

definition I_VALID :: uint where "I_VALID = 0x2"

record inode_state = log_state +
  sb :: superblock
  inodes :: "nat \<Rightarrow> inode"

definition with_inode :: "nat \<Rightarrow> (inode \<Rightarrow> inode) \<Rightarrow> 'z inode_state_scheme \<Rightarrow> 'z inode_state_scheme" where
  "with_inode ip f s = s\<lparr>inodes := (inodes s)(ip := f (inodes s ip))\<rparr>"

abbreviation set_inode :: "nat \<Rightarrow> (inode \<Rightarrow> inode) \<Rightarrow> ('z inode_state_scheme, unit) op" where
  "set_inode ip f \<equiv> modify (with_inode ip f)"

abbreviation get_inode :: "nat \<Rightarrow> ('z inode_state_scheme, inode) op" where
  "get_inode ip \<equiv> gets (\<lambda>s. inodes s ip)"

section \<open>Blocks\<close>

definition bzero :: "uint \<Rightarrow> uint \<Rightarrow> ('z inode_state_scheme, unit) op" where
  "bzero dev bno =
     bind (bread dev bno) (\<lambda>bp.
     bind (set_buf bp (\<lambda>b. b\<lparr>b_data := replicate BSIZE 0\<rparr>)) (\<lambda>_.
     bind (log_write bp) (\<lambda>_.
     brelse bp)))"

text \<open>Bit \<open>bi\<close> of a bitmap block; the inner loop of \<open>balloc\<close> from block \<open>b\<close> on.\<close>

definition bitmap_bit :: "block \<Rightarrow> nat \<Rightarrow> bool" where
  "bitmap_bit d bi = (d ! (bi div 8) AND push_bit (bi mod 8) 1 \<noteq> 0)"

definition bitmap_set :: "nat \<Rightarrow> block \<Rightarrow> block" where
  "bitmap_set bi d = d[bi div 8 := d ! (bi div 8) OR push_bit (bi mod 8) 1]"

definition bitmap_clear :: "nat \<Rightarrow> block \<Rightarrow> block" where
  "bitmap_clear bi d = d[bi div 8 := d ! (bi div 8) AND NOT (push_bit (bi mod 8) 1)]"

definition balloc_scan :: "nat \<Rightarrow> nat \<Rightarrow> block \<Rightarrow> nat option" where
  "balloc_scan b sz d = find (\<lambda>bi. \<not> bitmap_bit d bi) (takeWhile (\<lambda>bi. b + bi < sz) [0..<BPB])"

primrec balloc_from :: "uint \<Rightarrow> nat list \<Rightarrow> ('z inode_state_scheme, uint) op" where
  "balloc_from dev [] = panic ''balloc: out of blocks''"
| "balloc_from dev (b # bs) =
     bind (gets sb) (\<lambda>sb.
     bind (bread dev (BBLOCK (of_nat b) sb)) (\<lambda>bp.
     bind (get_buf bp) (\<lambda>bf.
     case balloc_scan b (unat (sb_size sb)) (b_data bf) of
       Some bi \<Rightarrow>
         bind (set_buf bp (\<lambda>x. x\<lparr>b_data := bitmap_set bi (b_data x)\<rparr>)) (\<lambda>_.
         bind (log_write bp) (\<lambda>_.
         bind (brelse bp) (\<lambda>_.
         bind (bzero dev (of_nat (b + bi))) (\<lambda>_.
         return (of_nat (b + bi))))))
     | None \<Rightarrow> bind (brelse bp) (\<lambda>_. balloc_from dev bs))))"

text \<open>The values of the outer loop's counter: multiples of \<open>BPB\<close> below the size.\<close>

definition bitmap_starts :: "nat \<Rightarrow> nat list" where
  "bitmap_starts sz = map (\<lambda>k. k * BPB) [0..<(sz + BPB - 1) div BPB]"

definition balloc :: "uint \<Rightarrow> ('z inode_state_scheme, uint) op" where
  "balloc dev = bind (gets sb) (\<lambda>sb. balloc_from dev (bitmap_starts (unat (sb_size sb))))"

definition bfree :: "uint \<Rightarrow> uint \<Rightarrow> ('z inode_state_scheme, unit) op" where
  "bfree dev b =
     bind (readsb dev) (\<lambda>nsb.
     bind (modify (\<lambda>s. s\<lparr>sb := nsb\<rparr>)) (\<lambda>_.
     bind (bread dev (BBLOCK b nsb)) (\<lambda>bp.
     bind (get_buf bp) (\<lambda>bf.
     bind (panic_if (\<not> bitmap_bit (b_data bf) (unat b mod BPB)) ''freeing free block'') (\<lambda>_.
     bind (set_buf bp (\<lambda>x. x\<lparr>b_data := bitmap_clear (unat b mod BPB) (b_data x)\<rparr>)) (\<lambda>_.
     bind (log_write bp) (\<lambda>_.
     brelse bp)))))))"

section \<open>Inodes\<close>

definition iinit :: "uint \<Rightarrow> ('z inode_state_scheme, unit) op" where
  "iinit dev =
     bind (initlock L_icache) (\<lambda>_.
     bind (for_each [0..<NINODE] (\<lambda>i. initsleeplock (SL_inode i))) (\<lambda>_.
     bind (readsb dev) (\<lambda>nsb.
     modify (\<lambda>s. s\<lparr>sb := nsb\<rparr>))))"

text \<open>The bytes of disk inode \<open>inum\<close> inside its block.\<close>

definition dinode_at :: "uint \<Rightarrow> block \<Rightarrow> dinode" where
  "dinode_at inum d = dinode_of (slice (64 * (unat inum mod IPB)) 64 d)"

definition put_dinode :: "uint \<Rightarrow> dinode \<Rightarrow> block \<Rightarrow> block" where
  "put_dinode inum di d = splice (64 * (unat inum mod IPB)) (dinode_bytes di) d"

definition zero_dinode :: dinode where
  "zero_dinode = \<lparr>d_type = 0, d_major = 0, d_minor = 0, d_nlink = 0, d_size = 0, d_addrs = replicate 13 0\<rparr>"

definition icache_hit :: "uint \<Rightarrow> uint \<Rightarrow> inode \<Rightarrow> bool" where
  "icache_hit dev inum ip \<longleftrightarrow> 0 < i_ref ip \<and> i_dev ip = dev \<and> i_inum ip = inum"

definition iget :: "uint \<Rightarrow> uint \<Rightarrow> ('z inode_state_scheme, nat) op" where
  "iget dev inum =
     bind (acquire L_icache) (\<lambda>_.
     bind (gets inodes) (\<lambda>ic.
     case find (\<lambda>i. icache_hit dev inum (ic i)) [0..<NINODE] of
       Some ip \<Rightarrow>
         bind (set_inode ip (\<lambda>i. i\<lparr>i_ref := i_ref i + 1\<rparr>)) (\<lambda>_.
         bind (release L_icache) (\<lambda>_.
         return ip))
     | None \<Rightarrow>
         (case find (\<lambda>i. i_ref (ic i) = 0) [0..<NINODE] of
            None \<Rightarrow> panic ''iget: no inodes''
          | Some ip \<Rightarrow>
              bind (set_inode ip (\<lambda>i. i\<lparr>i_dev := dev, i_inum := inum, i_ref := 1, i_flags := 0\<rparr>)) (\<lambda>_.
              bind (release L_icache) (\<lambda>_.
              return ip)))))"

primrec ialloc_from :: "uint \<Rightarrow> ushort \<Rightarrow> uint list \<Rightarrow> ('z inode_state_scheme, nat) op" where
  "ialloc_from dev type [] = panic ''ialloc: no inodes''"
| "ialloc_from dev type (inum # inums) =
     bind (gets sb) (\<lambda>sb.
     bind (bread dev (IBLOCK inum sb)) (\<lambda>bp.
     bind (get_buf bp) (\<lambda>bf.
     if d_type (dinode_at inum (b_data bf)) = 0 then
       bind (set_buf bp (\<lambda>x. x\<lparr>b_data := put_dinode inum (zero_dinode\<lparr>d_type := type\<rparr>) (b_data x)\<rparr>)) (\<lambda>_.
       bind (log_write bp) (\<lambda>_.
       bind (brelse bp) (\<lambda>_.
       iget dev inum)))
     else bind (brelse bp) (\<lambda>_. ialloc_from dev type inums))))"

definition ialloc :: "uint \<Rightarrow> ushort \<Rightarrow> ('z inode_state_scheme, nat) op" where
  "ialloc dev type = bind (gets sb) (\<lambda>sb. ialloc_from dev type (map of_nat [1..<unat (sb_ninodes sb)]))"

definition dinode_of_inode :: "inode \<Rightarrow> dinode" where
  "dinode_of_inode i = \<lparr>d_type = i_type i, d_major = i_major i, d_minor = i_minor i, d_nlink = i_nlink i,
     d_size = i_size i, d_addrs = i_addrs i\<rparr>"

definition iupdate :: "nat \<Rightarrow> ('z inode_state_scheme, unit) op" where
  "iupdate ip =
     bind (get_inode ip) (\<lambda>i.
     bind (gets sb) (\<lambda>sb.
     bind (bread (i_dev i) (IBLOCK (i_inum i) sb)) (\<lambda>bp.
     bind (set_buf bp (\<lambda>x. x\<lparr>b_data := put_dinode (i_inum i) (dinode_of_inode i) (b_data x)\<rparr>)) (\<lambda>_.
     bind (log_write bp) (\<lambda>_.
     brelse bp)))))"

definition idup :: "nat \<Rightarrow> ('z inode_state_scheme, nat) op" where
  "idup ip =
     bind (acquire L_icache) (\<lambda>_.
     bind (set_inode ip (\<lambda>i. i\<lparr>i_ref := i_ref i + 1\<rparr>)) (\<lambda>_.
     bind (release L_icache) (\<lambda>_.
     return ip)))"

definition load_dinode :: "dinode \<Rightarrow> inode \<Rightarrow> inode" where
  "load_dinode di i = i\<lparr>i_type := d_type di, i_major := d_major di, i_minor := d_minor di,
     i_nlink := d_nlink di, i_size := d_size di, i_addrs := d_addrs di\<rparr>"

definition ilock :: "nat \<Rightarrow> ('z inode_state_scheme, unit) op" where
  "ilock ip =
     bind (get_inode ip) (\<lambda>i.
     bind (panic_if (i_ref i < 1) ''ilock'') (\<lambda>_.
     bind (acquiresleep (SL_inode ip)) (\<lambda>_.
     bind (get_inode ip) (\<lambda>i.
     if i_flags i AND I_VALID = 0 then
       bind (gets sb) (\<lambda>sb.
       bind (bread (i_dev i) (IBLOCK (i_inum i) sb)) (\<lambda>bp.
       bind (get_buf bp) (\<lambda>bf.
       bind (set_inode ip (load_dinode (dinode_at (i_inum i) (b_data bf)))) (\<lambda>_.
       bind (brelse bp) (\<lambda>_.
       bind (set_inode ip (\<lambda>i. i\<lparr>i_flags := i_flags i OR I_VALID\<rparr>)) (\<lambda>_.
       bind (get_inode ip) (\<lambda>i.
       panic_if (i_type i = 0) ''ilock: no type'')))))))
     else return ()))))"

definition iunlock :: "nat \<Rightarrow> ('z inode_state_scheme, unit) op" where
  "iunlock ip =
     bind (holdingsleep (SL_inode ip)) (\<lambda>r.
     bind (get_inode ip) (\<lambda>i.
     bind (panic_if (r = 0 \<or> i_ref i < 1) ''iunlock'') (\<lambda>_.
     releasesleep (SL_inode ip))))"

section \<open>Inode content\<close>

definition bmap :: "nat \<Rightarrow> uint \<Rightarrow> ('z inode_state_scheme, uint) op" where
  "bmap ip bn =
     bind (get_inode ip) (\<lambda>i.
     if unat bn < NDIRECT then
       (if i_addrs i ! unat bn = 0 then
          bind (balloc (i_dev i)) (\<lambda>addr.
          bind (set_inode ip (\<lambda>i. i\<lparr>i_addrs := (i_addrs i)[unat bn := addr]\<rparr>)) (\<lambda>_.
          return addr))
        else return (i_addrs i ! unat bn))
     else if unat bn - NDIRECT < NINDIRECT then
       (let k = unat bn - NDIRECT in
        bind (if i_addrs i ! NDIRECT = 0 then
                bind (balloc (i_dev i)) (\<lambda>addr.
                bind (set_inode ip (\<lambda>i. i\<lparr>i_addrs := (i_addrs i)[NDIRECT := addr]\<rparr>)) (\<lambda>_.
                return addr))
              else return (i_addrs i ! NDIRECT)) (\<lambda>addr.
        bind (bread (i_dev i) addr) (\<lambda>bp.
        bind (get_buf bp) (\<lambda>bf.
        bind (if get_u32 (4 * k) (b_data bf) = 0 then
                bind (balloc (i_dev i)) (\<lambda>addr.
                bind (set_buf bp (\<lambda>x. x\<lparr>b_data := put_u32 (4 * k) addr (b_data x)\<rparr>)) (\<lambda>_.
                bind (log_write bp) (\<lambda>_.
                return addr)))
              else return (get_u32 (4 * k) (b_data bf))) (\<lambda>addr.
        bind (brelse bp) (\<lambda>_.
        return addr))))))
     else panic ''bmap: out of range'')"

definition itrunc_direct :: "nat \<Rightarrow> nat \<Rightarrow> ('z inode_state_scheme, unit) op" where
  "itrunc_direct ip k =
     bind (get_inode ip) (\<lambda>i.
     if i_addrs i ! k \<noteq> 0 then
       bind (bfree (i_dev i) (i_addrs i ! k)) (\<lambda>_.
       set_inode ip (\<lambda>i. i\<lparr>i_addrs := (i_addrs i)[k := 0]\<rparr>))
     else return ())"

definition itrunc :: "nat \<Rightarrow> ('z inode_state_scheme, unit) op" where
  "itrunc ip =
     bind (for_each [0..<NDIRECT] (itrunc_direct ip)) (\<lambda>_.
     bind (get_inode ip) (\<lambda>i.
     bind (if i_addrs i ! NDIRECT \<noteq> 0 then
             bind (bread (i_dev i) (i_addrs i ! NDIRECT)) (\<lambda>bp.
             bind (for_each [0..<NINDIRECT] (\<lambda>j.
               bind (get_buf bp) (\<lambda>bf.
               if get_u32 (4 * j) (b_data bf) \<noteq> 0 then bfree (i_dev i) (get_u32 (4 * j) (b_data bf))
               else return ()))) (\<lambda>_.
             bind (brelse bp) (\<lambda>_.
             bind (bfree (i_dev i) (i_addrs i ! NDIRECT)) (\<lambda>_.
             set_inode ip (\<lambda>i. i\<lparr>i_addrs := (i_addrs i)[NDIRECT := 0]\<rparr>)))))
           else return ()) (\<lambda>_.
     bind (set_inode ip (\<lambda>i. i\<lparr>i_size := 0\<rparr>)) (\<lambda>_.
     iupdate ip))))"

definition iput :: "nat \<Rightarrow> ('z inode_state_scheme, unit) op" where
  "iput ip =
     bind (acquire L_icache) (\<lambda>_.
     bind (get_inode ip) (\<lambda>i.
     bind (if i_ref i = 1 \<and> i_flags i AND I_VALID \<noteq> 0 \<and> i_nlink i = 0 then
             bind (release L_icache) (\<lambda>_.
             bind (itrunc ip) (\<lambda>_.
             bind (set_inode ip (\<lambda>i. i\<lparr>i_type := 0\<rparr>)) (\<lambda>_.
             bind (iupdate ip) (\<lambda>_.
             bind (acquire L_icache) (\<lambda>_.
             set_inode ip (\<lambda>i. i\<lparr>i_flags := 0\<rparr>))))))
           else return ()) (\<lambda>_.
     bind (set_inode ip (\<lambda>i. i\<lparr>i_ref := i_ref i - 1\<rparr>)) (\<lambda>_.
     release L_icache))))"

definition iunlockput :: "nat \<Rightarrow> ('z inode_state_scheme, unit) op" where
  "iunlockput ip = bind (iunlock ip) (\<lambda>_. iput ip)"

record stat =
  st_type :: ushort
  st_dev :: uint
  st_ino :: uint
  st_nlink :: ushort
  st_size :: uint

definition stati :: "nat \<Rightarrow> ('z inode_state_scheme, stat) op" where
  "stati ip =
     bind (get_inode ip) (\<lambda>i.
     return \<lparr>st_type = i_type i, st_dev = i_dev i, st_ino = i_inum i, st_nlink = i_nlink i, st_size = i_size i\<rparr>)"

section \<open>Example machine\<close>

definition empty_inode :: inode where
  "empty_inode = \<lparr>i_dev = 0, i_inum = 0, i_ref = 0, i_flags = 0, i_type = 0, i_major = 0, i_minor = 0,
     i_nlink = 0, i_size = 0, i_addrs = replicate 13 0\<rparr>"

text \<open>The super block that \<open>mkfs\<close> writes.\<close>

definition mkfs_sb :: superblock where
  "mkfs_sb = \<lparr>sb_size = 1000, sb_nblocks = 941, sb_ninodes = 200, sb_nlog = 30, sb_logstart = 2,
     sb_inodestart = 32, sb_bmapstart = 58\<rparr>"

definition inode_boot :: "(nat \<Rightarrow> block) \<Rightarrow> 'z \<Rightarrow> 'z inode_state_scheme" where
  "inode_boot d z = txn_boot d (inode_state_ext mkfs_sb (\<lambda>_. empty_inode) z)"

lemma inode_boot_simps [simp]:
  "sb (inode_boot d z) = mkfs_sb" "inodes (inode_boot d z) = (\<lambda>_. empty_inode)"
  "inode_state.more (inode_boot d z) = z"
  by (simp_all add: inode_boot_def txn_boot_def cache_boot_def ide_state.defs)

lemma inode_boot_kernel [simp]: "in_kernel (inode_boot d z)"
  by (simp add: inode_boot_def)

end
