(* ===== verification/Console.thy ===== *)
theory Console
  imports Inode
begin

text \<open>
  The console: the serial port of \<open>uart.c\<close>, the keyboard of \<open>kbd.c\<close> and \<open>kbd.h\<close>, and the
  line discipline, the screen and formatted output of \<open>console.c\<close>. The bytes the serial
  port and the keyboard controller hold for the kernel are queues, the bytes sent to the
  serial port a list; the screen is an array of cells and a cursor register.
\<close>

section \<open>State\<close>

definition INPUT_BUF :: nat where "INPUT_BUF = 128"
definition BACKSPACE :: int where "BACKSPACE = 0x100"

datatype devfn = Dev_console

record cons_state = inode_state +
  panicked :: bool
  cons_locking :: bool
  crt :: "nat \<Rightarrow> ushort"
  crt_pos :: ushort
  uart :: bool
  uart_in :: "uchar list"
  uart_out :: "uchar list"
  kbd_in :: "uchar list"
  kbd_shift :: uint
  idt_null :: bool
  input_buf :: "nat \<Rightarrow> uchar"
  input_r :: uint
  input_w :: uint
  input_e :: uint
  devsw_read :: "nat \<Rightarrow> devfn option"
  devsw_write :: "nat \<Rightarrow> devfn option"

abbreviation chars :: "string \<Rightarrow> uchar list" where
  "chars \<equiv> map of_char"

section \<open>Serial port\<close>

text \<open>
  The wait for the transmitter gives up after 128 tries and sends the byte in any case, so
  the status it polls does not matter.
\<close>

definition uartputc :: "uchar \<Rightarrow> ('z cons_state_scheme, unit) op" where
  "uartputc c = modify (\<lambda>s. if uart s then s\<lparr>uart_out := uart_out s @ [c]\<rparr> else s)"

definition uartgetc :: "('z cons_state_scheme, int) op" where
  "uartgetc =
     bind (gets (\<lambda>s. (uart s, uart_in s))) (\<lambda>(u, q).
     if \<not> u then return (-1)
     else case q of
       [] \<Rightarrow> return (-1)
     | c # q' \<Rightarrow> bind (modify (\<lambda>s. s\<lparr>uart_in := q'\<rparr>)) (\<lambda>_. return (uint c)))"

text \<open>\<open>status\<close> is what the port's status register reads; 0xFF when there is no port.\<close>

definition uartearlyinit :: "uchar \<Rightarrow> ('z cons_state_scheme, unit) op" where
  "uartearlyinit status =
     (if status = 0xFF then return ()
      else bind (modify (\<lambda>s. s\<lparr>uart := True\<rparr>)) (\<lambda>_.
           for_each (chars ''xv6...'' @ [10]) uartputc))"

section \<open>Screen\<close>

definition cgaputc :: "int \<Rightarrow> ('z cons_state_scheme, unit) op" where
  "cgaputc c =
     bind (gets (\<lambda>s. unat (crt_pos s))) (\<lambda>pos.
     bind (if c = 10 then return (pos + 80 - pos mod 80)
           else if c = BACKSPACE then return (if pos > 0 then pos - 1 else pos)
           else bind (modify (\<lambda>s. s\<lparr>crt := (crt s)(pos := word_of_int c AND 0xff OR 0x0700)\<rparr>)) (\<lambda>_.
                return (pos + 1))) (\<lambda>pos.
     bind (if pos div 80 \<ge> 24 then
             bind (modify (\<lambda>s. s\<lparr>crt := (\<lambda>i. if i < 23 * 80 then crt s (i + 80) else crt s i)\<rparr>)) (\<lambda>_.
             bind (panic_if (pos - 80 > 24 * 80) ''undefined'') (\<lambda>_.
             bind (modify (\<lambda>s. s\<lparr>crt := (\<lambda>i. if pos - 80 \<le> i \<and> i < 24 * 80 then 0 else crt s i)\<rparr>)) (\<lambda>_.
             return (pos - 80))))
           else return pos) (\<lambda>pos.
     bind (modify (\<lambda>s. s\<lparr>crt_pos := of_nat pos\<rparr>)) (\<lambda>_.
     modify (\<lambda>s. s\<lparr>crt := (crt s)(pos := 0x20 OR 0x0700)\<rparr>)))))"

definition consputc :: "int \<Rightarrow> ('z cons_state_scheme, unit) op" where
  "consputc c =
     bind (gets panicked) (\<lambda>p.
     if p then (\<lambda>s. Diverge)
     else
       bind (if c = BACKSPACE then
               bind (uartputc 8) (\<lambda>_. bind (uartputc 0x20) (\<lambda>_. uartputc 8))
             else uartputc (word_of_int c)) (\<lambda>_.
       cgaputc c))"

section \<open>Formatted output\<close>

definition digits :: "uchar list" where
  "digits = chars ''0123456789abcdef''"

primrec print_x_loop :: "nat \<Rightarrow> 'w::len word \<Rightarrow> ('z cons_state_scheme, unit) op" where
  "print_x_loop 0 x = return ()"
| "print_x_loop (Suc n) x =
     bind (consputc (uint (digits ! unat (drop_bit (LENGTH('w) - 4) x)))) (\<lambda>_.
     print_x_loop n (push_bit 4 x))"

definition print_x64 :: "addr_t \<Rightarrow> ('z cons_state_scheme, unit) op" where
  "print_x64 x = print_x_loop 16 x"

definition print_x32 :: "uint \<Rightarrow> ('z cons_state_scheme, unit) op" where
  "print_x32 x = print_x_loop 8 x"

text \<open>The do-while loop of \<open>print_d\<close> fills the buffer from the last digit on.\<close>

fun dec_digits :: "nat \<Rightarrow> uchar list" where
  "dec_digits x = digits ! (x mod 10) # (if x div 10 = 0 then [] else dec_digits (x div 10))"

declare dec_digits.simps [simp del]

definition print_d_buf :: "int \<Rightarrow> uchar list" where
  "print_d_buf v = dec_digits (nat \<bar>v\<bar>) @ (if v < 0 then [of_char CHR ''-''] else [])"

definition print_d :: "int \<Rightarrow> ('z cons_state_scheme, unit) op" where
  "print_d v = for_each (rev (print_d_buf v)) (\<lambda>c. consputc (uint c))"

text \<open>
  The arguments of \<open>cprintf\<close> after the format. Fetching an argument that is not there, or
  of another type, is undefined.
\<close>

datatype fmt_arg = Arg_int int | Arg_uint uint | Arg_addr addr_t | Arg_str "uchar list option"

fun cprintf_loop :: "uchar list \<Rightarrow> fmt_arg list \<Rightarrow> ('z cons_state_scheme, unit) op" where
  "cprintf_loop [] args = return ()"
| "cprintf_loop [c] args = (if c = of_char CHR ''%'' then return () else consputc (uint c))"
| "cprintf_loop (c # d # fmt) args =
     (if c \<noteq> of_char CHR ''%'' then bind (consputc (uint c)) (\<lambda>_. cprintf_loop (d # fmt) args)
      else if d = of_char CHR ''d'' then
        (case args of Arg_int v # args' \<Rightarrow> bind (print_d v) (\<lambda>_. cprintf_loop fmt args')
         | _ \<Rightarrow> panic ''undefined'')
      else if d = of_char CHR ''x'' then
        (case args of Arg_uint v # args' \<Rightarrow> bind (print_x32 v) (\<lambda>_. cprintf_loop fmt args')
         | _ \<Rightarrow> panic ''undefined'')
      else if d = of_char CHR ''p'' then
        (case args of Arg_addr v # args' \<Rightarrow> bind (print_x64 v) (\<lambda>_. cprintf_loop fmt args')
         | _ \<Rightarrow> panic ''undefined'')
      else if d = of_char CHR ''s'' then
        (case args of
           Arg_str t # args' \<Rightarrow>
             bind (for_each (case t of None \<Rightarrow> chars ''(null)'' | Some xs \<Rightarrow> xs) (\<lambda>c. consputc (sint c))) (\<lambda>_.
             cprintf_loop fmt args')
         | _ \<Rightarrow> panic ''undefined'')
      else if d = of_char CHR ''%'' then
        bind (consputc (uint d)) (\<lambda>_. cprintf_loop fmt args)
      else
        bind (consputc (of_char CHR ''%'')) (\<lambda>_. bind (consputc (uint d)) (\<lambda>_. cprintf_loop fmt args)))"

definition cprintf :: "string \<Rightarrow> fmt_arg list \<Rightarrow> ('z cons_state_scheme, unit) op" where
  "cprintf fmt args =
     bind (gets cons_locking) (\<lambda>locking.
     bind (if locking then acquire L_cons else return ()) (\<lambda>_.
     bind (cprintf_loop (chars fmt) args) (\<lambda>_.
     if locking then release L_cons else return ())))"

definition state_name :: "procstate \<Rightarrow> uchar list" where
  "state_name st = chars (case st of UNUSED \<Rightarrow> ''unused'' | EMBRYO \<Rightarrow> ''embryo'' | SLEEPING \<Rightarrow> ''sleep ''
     | RUNNABLE \<Rightarrow> ''runble'' | RUNNING \<Rightarrow> ''run   '' | ZOMBIE \<Rightarrow> ''zombie'')"

text \<open>A saved context is six registers and the return address; \<open>rbp\<close> is the one before it.\<close>

definition context_rbp :: addr_t where "context_rbp = 40"

definition procdump_one :: "nat \<Rightarrow> ('z cons_state_scheme, unit) op" where
  "procdump_one i =
     bind (gets (\<lambda>s. ptable s i)) (\<lambda>p.
     if p_state p = UNUSED then return ()
     else
       bind (cprintf ''%d %s %s'' [Arg_int (sint (p_pid p)), Arg_str (Some (state_name (p_state p))),
               Arg_str (Some (takeWhile (\<lambda>c. c \<noteq> 0) (p_name p)))]) (\<lambda>_.
       bind (if p_state p = SLEEPING then
               bind (gets mem) (\<lambda>m.
               for_each (takeWhile (\<lambda>pc. pc \<noteq> 0) (getstackpcs (read64 m (p_context p + context_rbp) + 16) m))
                 (\<lambda>pc. cprintf '' %p'' [Arg_addr pc]))
             else return ()) (\<lambda>_.
       cprintf [CHR 0x0A] [])))"

definition procdump :: "('z cons_state_scheme, unit) op" where
  "procdump = for_each [0..<NPROC] procdump_one"

section \<open>Console input\<close>

definition set_input_e :: "uint \<Rightarrow> ('z cons_state_scheme, unit) op" where
  "set_input_e e = modify (\<lambda>s. s\<lparr>input_e := e\<rparr>)"

text \<open>\<open>Control-U\<close>: the loop ends because the edit index reaches the write index.\<close>

fun kill_line :: "nat \<Rightarrow> ('z cons_state_scheme, unit) op" where
  "kill_line 0 = (\<lambda>s. Diverge)"
| "kill_line (Suc k) =
     bind (gets (\<lambda>s. (input_e s, input_w s, input_buf s))) (\<lambda>(e, w, buf).
     if e \<noteq> w \<and> buf (unat (e - 1) mod INPUT_BUF) \<noteq> 10 then
       bind (set_input_e (e - 1)) (\<lambda>_. bind (consputc BACKSPACE) (\<lambda>_. kill_line k))
     else return ())"

definition consoleintr_char :: "int \<Rightarrow> ('z cons_state_scheme, unit) op" where
  "consoleintr_char c =
     (if c = 26 then modify (\<lambda>s. s\<lparr>idt_null := True\<rparr>)
      else if c = 16 then procdump
      else if c = 21 then bind (gets (\<lambda>s. unat (input_e s - input_w s))) (\<lambda>k. kill_line (Suc k))
      else if c = 8 \<or> c = 0x7f then
        bind (gets (\<lambda>s. (input_e s, input_w s))) (\<lambda>(e, w).
        if e \<noteq> w then bind (set_input_e (e - 1)) (\<lambda>_. consputc BACKSPACE) else return ())
      else
        bind (gets (\<lambda>s. (input_e s, input_r s))) (\<lambda>(e, r).
        if c \<noteq> 0 \<and> unat (e - r) < INPUT_BUF then
          (let c = (if c = 13 then 10 else c) in
           bind (modify (\<lambda>s. s\<lparr>input_buf := (input_buf s)(unat e mod INPUT_BUF := word_of_int c)\<rparr>)) (\<lambda>_.
           bind (set_input_e (e + 1)) (\<lambda>_.
           bind (consputc c) (\<lambda>_.
           if c = 10 \<or> c = 4 \<or> e + 1 = r + of_nat INPUT_BUF then
             bind (modify (\<lambda>s. s\<lparr>input_w := input_e s\<rparr>)) (\<lambda>_. wakeup ChInput)
           else return ()))))
        else return ()))"

primrec consoleintr_loop :: "nat \<Rightarrow> ('z cons_state_scheme, int) op \<Rightarrow> ('z cons_state_scheme, unit) op" where
  "consoleintr_loop 0 getc = (\<lambda>s. Diverge)"
| "consoleintr_loop (Suc k) getc =
     bind getc (\<lambda>c.
     if c \<ge> 0 then bind (consoleintr_char c) (\<lambda>_. consoleintr_loop k getc) else return ())"

text \<open>
  Each character that \<open>getc\<close> returns is one that a device held, so the number of them
  bounds the loop.
\<close>

definition consoleintr :: "('z cons_state_scheme, int) op \<Rightarrow> ('z cons_state_scheme, unit) op" where
  "consoleintr getc =
     bind (acquire L_input) (\<lambda>_.
     bind (gets (\<lambda>s. length (uart_in s) + length (kbd_in s))) (\<lambda>k.
     bind (consoleintr_loop (Suc k) getc) (\<lambda>_.
     release L_input)))"

definition uartintr :: "('z cons_state_scheme, unit) op" where
  "uartintr = consoleintr uartgetc"

section \<open>Reading and writing the console\<close>

text \<open>
  The bytes for the caller's buffer are returned. A process that finds no input goes to
  sleep inside the loop; when it is woken it continues there with what it has read.
\<close>

definition consoleread_end :: "nat \<Rightarrow> int \<Rightarrow> uchar list \<Rightarrow> ('z cons_state_scheme, int \<times> uchar list) op" where
  "consoleread_end ip r got =
     bind (release L_input) (\<lambda>_.
     bind (ilock ip) (\<lambda>_.
     return (r, got)))"

primrec consoleread_loop :: "nat \<Rightarrow> nat \<Rightarrow> nat \<Rightarrow> uchar list \<Rightarrow> ('z cons_state_scheme, int \<times> uchar list) op" where
  "consoleread_loop ip target 0 got = consoleread_end ip (int target) got"
| "consoleread_loop ip target (Suc n) got =
     bind (gets (\<lambda>s. (input_r s, input_w s, input_buf s))) (\<lambda>(r, w, buf).
     if r = w then
       bind (gets this_proc) (\<lambda>cp. deref cp (\<lambda>p.
       bind (gets (\<lambda>s. p_killed (ptable s p))) (\<lambda>killed.
       if killed \<noteq> 0 then consoleread_end ip (-1) got
       else sleep ChInput L_input)))
     else
       (let c = buf (unat r mod INPUT_BUF) in
        bind (modify (\<lambda>s. s\<lparr>input_r := r + 1\<rparr>)) (\<lambda>_.
        if c = 4 then
          bind (if Suc n < target then modify (\<lambda>s. s\<lparr>input_r := input_r s - 1\<rparr>) else return ()) (\<lambda>_.
          consoleread_end ip (int target - int (Suc n)) got)
        else if c = 10 then consoleread_end ip (int target - int n) (got @ [c])
        else consoleread_loop ip target n (got @ [c]))))"

definition consoleread :: "nat \<Rightarrow> int \<Rightarrow> ('z cons_state_scheme, int \<times> uchar list) op" where
  "consoleread ip n =
     bind (iunlock ip) (\<lambda>_.
     bind (acquire L_input) (\<lambda>_.
     consoleread_loop ip (nat n) (nat n) []))"

definition consolewrite :: "nat \<Rightarrow> uchar list \<Rightarrow> int \<Rightarrow> ('z cons_state_scheme, int) op" where
  "consolewrite ip buf n =
     bind (iunlock ip) (\<lambda>_.
     bind (acquire L_cons) (\<lambda>_.
     bind (for_each (take (nat n) buf) (\<lambda>c. consputc (uint c))) (\<lambda>_.
     bind (release L_cons) (\<lambda>_.
     bind (ilock ip) (\<lambda>_.
     return n)))))"

definition CONSOLE :: nat where "CONSOLE = 1"

definition consoleinit :: "('z cons_state_scheme, unit) op" where
  "consoleinit =
     bind (initlock L_cons) (\<lambda>_.
     bind (initlock L_input) (\<lambda>_.
     bind (modify (\<lambda>s. s\<lparr>devsw_write := (devsw_write s)(CONSOLE := Some Dev_console)\<rparr>)) (\<lambda>_.
     bind (modify (\<lambda>s. s\<lparr>devsw_read := (devsw_read s)(CONSOLE := Some Dev_console)\<rparr>)) (\<lambda>_.
     modify (\<lambda>s. s\<lparr>cons_locking := True\<rparr>)))))"

section \<open>Keyboard\<close>

definition SHIFT :: uint where "SHIFT = 1"
definition CTL :: uint where "CTL = 2"
definition ALT :: uint where "ALT = 4"
definition CAPSLOCK :: uint where "CAPSLOCK = 8"
definition NUMLOCK :: uint where "NUMLOCK = 16"
definition SCROLLLOCK :: uint where "SCROLLLOCK = 32"
definition E0ESC :: uint where "E0ESC = 64"

definition shiftcode :: "nat \<Rightarrow> uint" where
  "shiftcode k = (if k = 0x1D \<or> k = 0x9D then CTL else if k = 0x2A \<or> k = 0x36 then SHIFT
     else if k = 0x38 \<or> k = 0xB8 then ALT else 0)"

definition togglecode :: "nat \<Rightarrow> uint" where
  "togglecode k = (if k = 0x3A then CAPSLOCK else if k = 0x45 then NUMLOCK
     else if k = 0x46 then SCROLLLOCK else 0)"

text \<open>The keys after the letters: cursor keys, and two keys of the keypad given apart.\<close>

definition special_keys :: "uchar \<Rightarrow> uchar \<Rightarrow> (nat \<times> uchar) list" where
  "special_keys enter slash = [(0x9C, enter), (0xB5, slash), (0xC8, 0xE2), (0xD0, 0xE3), (0xC9, 0xE6),
     (0xD1, 0xE7), (0xCB, 0xE4), (0xCD, 0xE5), (0x97, 0xE0), (0xCF, 0xE1), (0xD2, 0xE8), (0xD3, 0xE9)]"

definition keymap :: "uchar list \<Rightarrow> (nat \<times> uchar) list \<Rightarrow> nat \<Rightarrow> uchar" where
  "keymap row special k = (if k < length row then row ! k
     else case map_of special k of Some c \<Rightarrow> c | None \<Rightarrow> 0)"

definition normalmap :: "nat \<Rightarrow> uchar" where
  "normalmap = keymap ([0, 0x1B] @ chars ''1234567890-='' @ [8, 9] @ chars ''qwertyuiop[]'' @ [10, 0] @
     chars ''asdfghjkl;'' @ [0x27] @ [0x60] @ [0] @ [0x5C] @ chars ''zxcvbnm,./'' @ [0] @ chars ''*'' @
     [0] @ chars '' '' @ replicate 13 0 @ chars ''789-456+1230.'') (special_keys 10 0x2F)"

definition shiftmap :: "nat \<Rightarrow> uchar" where
  "shiftmap = keymap ([0, 0x1B] @ chars ''!@#$%^&*()_+'' @ [8, 9] @ chars ''QWERTYUIOP{}'' @ [10, 0] @
     chars ''ASDFGHJKL:'' @ [0x22] @ chars ''~'' @ [0] @ chars ''|ZXCVBNM<>?'' @ [0] @ chars ''*'' @
     [0] @ chars '' '' @ replicate 13 0 @ chars ''789-456+1230.'') (special_keys 10 0x2F)"

abbreviation ctl_chars :: "string \<Rightarrow> uchar list" where
  "ctl_chars \<equiv> map (\<lambda>c. of_char c - 0x40)"

definition ctlmap :: "nat \<Rightarrow> uchar" where
  "ctlmap = keymap (replicate 16 0 @ ctl_chars ''QWERTYUIOP'' @ [0, 0, 13, 0] @ ctl_chars ''ASDFGHJKL'' @
     [0, 0, 0, 0] @ [0x5C - 0x40] @ ctl_chars ''ZXCVBNM'' @ [0, 0] @ ctl_chars ''/'' @ [0, 0])
     (special_keys 13 (0x2F - 0x40))"

definition charcode :: "uint \<Rightarrow> nat \<Rightarrow> uchar" where
  "charcode m = (if m = 0 then normalmap else if m = 1 then shiftmap else ctlmap)"

definition kbd_decode :: "uint \<Rightarrow> nat \<Rightarrow> int" where
  "kbd_decode shift data =
     (let c = uint (charcode (shift AND (CTL OR SHIFT)) data) in
      if shift AND CAPSLOCK \<noteq> 0 then
        (if 97 \<le> c \<and> c \<le> 122 then c - 32 else if 65 \<le> c \<and> c \<le> 90 then c + 32 else c)
      else c)"

definition kbdgetc :: "('z cons_state_scheme, int) op" where
  "kbdgetc =
     bind (gets (\<lambda>s. (kbd_in s, kbd_shift s))) (\<lambda>(q, shift).
     case q of
       [] \<Rightarrow> return (-1)
     | data # q' \<Rightarrow>
         bind (modify (\<lambda>s. s\<lparr>kbd_in := q'\<rparr>)) (\<lambda>_.
         if data = 0xE0 then
           bind (modify (\<lambda>s. s\<lparr>kbd_shift := shift OR E0ESC\<rparr>)) (\<lambda>_. return 0)
         else if data AND 0x80 \<noteq> 0 then
           (let data = (if shift AND E0ESC \<noteq> 0 then data else data AND 0x7F) in
            bind (modify (\<lambda>s. s\<lparr>kbd_shift := shift AND NOT (shiftcode (unat data) OR E0ESC)\<rparr>)) (\<lambda>_. return 0))
         else
           (let (data, shift) = (if shift AND E0ESC \<noteq> 0 then (data OR 0x80, shift AND NOT E0ESC) else (data, shift));
                shift = (shift OR shiftcode (unat data)) XOR togglecode (unat data) in
            bind (modify (\<lambda>s. s\<lparr>kbd_shift := shift\<rparr>)) (\<lambda>_.
            return (kbd_decode shift (unat data))))))"

definition kbdintr :: "('z cons_state_scheme, unit) op" where
  "kbdintr = consoleintr kbdgetc"

section \<open>Example machine\<close>

definition cons_boot :: "(nat \<Rightarrow> block) \<Rightarrow> 'z \<Rightarrow> 'z cons_state_scheme" where
  "cons_boot d z = inode_boot d (cons_state_ext False True (\<lambda>_. 0) 0 True [] [] [] 0 False (\<lambda>_. 0) 0 0 0
     (\<lambda>_. None) (\<lambda>_. None) z)"

lemma cons_boot_kernel [simp]: "in_kernel (cons_boot d z)"
  by (simp add: cons_boot_def)

lemma cons_boot_simps [simp]:
  "panicked (cons_boot d z) = False" "cons_locking (cons_boot d z) = True" "crt_pos (cons_boot d z) = 0"
  "uart_in (cons_boot d z) = []" "uart_out (cons_boot d z) = []" "kbd_in (cons_boot d z) = []"
  "input_r (cons_boot d z) = 0" "input_w (cons_boot d z) = 0" "input_e (cons_boot d z) = 0"
  "cons_state.more (cons_boot d z) = z"
  by (simp_all add: cons_boot_def inode_boot_def txn_boot_def cache_boot_def ide_state.defs)

end
