(* ===== verification/CString.thy ===== *)
theory CString
  imports Memory
begin

text \<open>
  The string routines of \<open>string.c\<close> and \<open>ulib.c\<close>. A C string is read as a function from
  offsets to bytes (\<open>s i\<close> is \<open>s[i]\<close>), so that reading past the terminator is visible; the
  routines that fill an array return its new content as a list.
\<close>

type_synonym cstr = "nat \<Rightarrow> uchar"

section \<open>Routines\<close>

fun strncmp :: "cstr \<Rightarrow> cstr \<Rightarrow> nat \<Rightarrow> int" where
  "strncmp p q 0 = 0"
| "strncmp p q (Suc n) =
     (if p 0 \<noteq> 0 \<and> p 0 = q 0 then strncmp (\<lambda>i. p (Suc i)) (\<lambda>i. q (Suc i)) n
      else uint (p 0) - uint (q 0))"

text \<open>
  \<open>strncpy\<close> copies up to and including the terminator and fills the rest with zeros;
  \<open>safestrcpy\<close> copies at most \<open>n - 1\<close> bytes and then terminates; what it does not write of
  the destination \<open>s\<close> stays.
\<close>

fun strncpy :: "cstr \<Rightarrow> nat \<Rightarrow> uchar list" where
  "strncpy t 0 = []"
| "strncpy t (Suc n) =
     (if t 0 \<noteq> 0 then t 0 # strncpy (\<lambda>i. t (Suc i)) n else replicate (Suc n) 0)"

fun safestrcpy :: "uchar list \<Rightarrow> cstr \<Rightarrow> nat \<Rightarrow> uchar list" where
  "safestrcpy s t 0 = s"
| "safestrcpy s t (Suc 0) = 0 # tl s"
| "safestrcpy s t (Suc (Suc n)) =
     (if t 0 \<noteq> 0 then t 0 # safestrcpy (tl s) (\<lambda>i. t (Suc i)) (Suc n)
      else 0 # 0 # tl (tl s))"

text \<open>
  The loops that look for the terminator take the number of bytes they may look at; a
  string without a terminator among them is the result \<open>None\<close>.
\<close>

fun strlen :: "nat \<Rightarrow> cstr \<Rightarrow> nat option" where
  "strlen 0 s = None"
| "strlen (Suc k) s = (if s 0 = 0 then Some 0 else map_option Suc (strlen k (\<lambda>i. s (Suc i))))"

fun strcmp :: "nat \<Rightarrow> cstr \<Rightarrow> cstr \<Rightarrow> int option" where
  "strcmp 0 p q = None"
| "strcmp (Suc k) p q =
     (if p 0 \<noteq> 0 \<and> p 0 = q 0 then strcmp k (\<lambda>i. p (Suc i)) (\<lambda>i. q (Suc i))
      else Some (uint (p 0) - uint (q 0)))"

fun strchr :: "nat \<Rightarrow> cstr \<Rightarrow> uchar \<Rightarrow> nat option option" where
  "strchr 0 s c = None"
| "strchr (Suc k) s c =
     (if s 0 = 0 then Some None
      else if s 0 = c then Some (Some 0)
      else map_option (map_option Suc) (strchr k (\<lambda>i. s (Suc i)) c))"

fun strcpy :: "nat \<Rightarrow> uchar list \<Rightarrow> cstr \<Rightarrow> uchar list option" where
  "strcpy 0 s t = None"
| "strcpy (Suc k) s t =
     (if t 0 = 0 then Some (0 # tl s) else map_option ((#) (t 0)) (strcpy k (tl s) (\<lambda>i. t (Suc i))))"

text \<open>
  \<open>gets\<close> on standard input \<open>inp\<close>: \<open>room\<close> is how many bytes still fit before the
  terminator. The results are the bytes stored and the input that is left.
\<close>

fun gets_loop :: "nat \<Rightarrow> uchar list \<Rightarrow> uchar list \<times> uchar list" where
  "gets_loop 0 inp = ([], inp)"
| "gets_loop (Suc room) [] = ([], [])"
| "gets_loop (Suc room) (c # inp) =
     (if c = 10 \<or> c = 13 then ([c], inp)
      else (case gets_loop room inp of (line, rest) \<Rightarrow> (c # line, rest)))"

definition ulib_gets :: "nat \<Rightarrow> uchar list \<Rightarrow> uchar list \<times> uchar list" where
  "ulib_gets mx inp = (case gets_loop (mx - 1) inp of (line, rest) \<Rightarrow> (line @ [0], rest))"

text \<open>
  \<open>atoi\<close> computes in \<open>int\<close>, here as a 32-bit word; a string that is not ended by a
  character other than a digit is \<open>None\<close>.
\<close>

fun atoi_loop :: "nat \<Rightarrow> cstr \<Rightarrow> uint \<Rightarrow> uint option" where
  "atoi_loop 0 s n = None"
| "atoi_loop (Suc k) s n =
     (if 48 \<le> s 0 \<and> s 0 \<le> 57 then atoi_loop k (\<lambda>i. s (Suc i)) (n * 10 + ucast (s 0) - 48) else Some n)"

definition atoi :: "nat \<Rightarrow> cstr \<Rightarrow> uint option" where
  "atoi k s = atoi_loop k s 0"

section \<open>What they compute\<close>

text \<open>The C string with the given bytes before the terminator.\<close>

definition cstr_of :: "uchar list \<Rightarrow> cstr" where
  "cstr_of xs = (\<lambda>i. if i < length xs then xs ! i else 0)"

lemma cstr_of_simps [simp]:
  "cstr_of [] = (\<lambda>_. 0)" "cstr_of (x # xs) 0 = x" "(\<lambda>i. cstr_of (x # xs) (Suc i)) = cstr_of xs"
  by (simp_all add: cstr_of_def fun_eq_iff)

lemma uint_eq_uchar [simp]: "uint (a :: uchar) = uint b \<longleftrightarrow> a = b" "uint a = 0 \<longleftrightarrow> a = 0"
  by (simp_all add: word_uint_eq_iff)

lemma length_strncpy [simp]: "length (strncpy t n) = n"
  by (induction t n rule: strncpy.induct) simp_all

lemma strncpy_list: "0 \<notin> set xs \<Longrightarrow> strncpy (cstr_of xs) n = take n xs @ replicate (n - length xs) 0"
proof (induction xs arbitrary: n)
  case Nil
  then show ?case by (cases n) simp_all
next
  case (Cons x xs)
  then show ?case by (cases n) auto
qed

lemma strncmp_strncpy: "strncmp p q n = 0 \<longleftrightarrow> strncpy p n = strncpy q n"
proof (induction p q n rule: strncmp.induct)
  case (1 p q)
  then show ?case by simp
next
  case (2 p q n)
  show ?case
  proof (cases "p 0 \<noteq> 0 \<and> p 0 = q 0")
    case True
    with 2 show ?thesis by simp
  next
    case False
    then show ?thesis by (cases "q 0 = 0") auto
  qed
qed

lemma length_safestrcpy [simp]: "n \<le> length s \<Longrightarrow> length (safestrcpy s t n) = length s"
  by (induction s t n rule: safestrcpy.induct) auto

lemma safestrcpy_terminated: "0 < n \<Longrightarrow> n \<le> length s \<Longrightarrow> 0 \<in> set (take n (safestrcpy s t n))"
  by (induction s t n rule: safestrcpy.induct) auto

lemma safestrcpy_prefix:
  "0 \<notin> set xs \<Longrightarrow> length xs < n \<Longrightarrow> n \<le> length s \<Longrightarrow>
   take (Suc (length xs)) (safestrcpy s (cstr_of xs) n) = xs @ [0]"
proof (induction xs arbitrary: s n)
  case Nil
  then show ?case by (cases "(s, \<lambda>_::nat. 0::uchar, n)" rule: safestrcpy.cases) simp_all
next
  case (Cons x xs)
  from Cons.prems obtain m where n: "n = Suc (Suc m)" by (cases n rule: nat.exhaust; cases "n - 1") auto
  then have "take (Suc (length xs)) (safestrcpy (tl s) (cstr_of xs) (Suc m)) = xs @ [0]"
    using Cons.prems by (intro Cons.IH) auto
  with n Cons.prems(1) show ?case by simp
qed

lemma strlen_list: "0 \<notin> set xs \<Longrightarrow> length xs < k \<Longrightarrow> strlen k (cstr_of xs) = Some (length xs)"
proof (induction xs arbitrary: k)
  case Nil
  then show ?case by (cases k) simp_all
next
  case (Cons x xs)
  then show ?case by (cases k) auto
qed

lemma strcmp_list:
  "0 \<notin> set xs \<Longrightarrow> 0 \<notin> set ys \<Longrightarrow> length xs < k \<Longrightarrow>
   \<exists>d. strcmp k (cstr_of xs) (cstr_of ys) = Some d \<and> (d = 0 \<longleftrightarrow> xs = ys)"
proof (induction xs arbitrary: ys k)
  case Nil
  then show ?case by (cases k; cases ys) auto
next
  case (Cons x xs)
  then obtain m where k: "k = Suc m" by (cases k) auto
  show ?case
  proof (cases ys)
    case Nil
    with Cons.prems k show ?thesis by auto
  next
    case (Cons y ys')
    with Cons.prems k Cons.IH [of ys' m] show ?thesis by auto
  qed
qed

lemma gets_loop_split:
  "gets_loop room inp = (line, rest) \<Longrightarrow> inp = line @ rest \<and> length line \<le> room"
proof (induction room inp arbitrary: line rule: gets_loop.induct)
  case (3 room c inp)
  then show ?case by (auto split: if_splits prod.splits)
qed auto

end
