(* ===== verification/Fs.thy ===== *)
theory Fs
  imports Console CString
begin

text \<open>
  Files, directories and path names of \<open>fs.c\<close>. The bytes that \<open>readi\<close> copies to its
  caller's buffer are returned as a list, and \<open>writei\<close> takes the bytes at its source
  pointer as one. A path is the list of its characters before the terminating zero.
\<close>

section \<open>Reading and writing\<close>

definition block_rest :: "uint \<Rightarrow> nat \<Rightarrow> nat" where
  "block_rest off r = min r (BSIZE - unat off mod BSIZE)"

lemma block_rest_pos: "0 < r \<Longrightarrow> 0 < block_rest off r"
  by (simp add: block_rest_def)

function readi_loop :: "nat \<Rightarrow> uint \<Rightarrow> nat \<Rightarrow> ('z cons_state_scheme, uchar list) op" where
  "readi_loop ip off r =
     (if r = 0 then return []
      else
        bind (bmap ip (off div 512)) (\<lambda>bno.
        bind (get_inode ip) (\<lambda>i.
        bind (bread (i_dev i) bno) (\<lambda>bp.
        bind (get_buf bp) (\<lambda>bf.
        bind (brelse bp) (\<lambda>_.
        bind (readi_loop ip (off + of_nat (block_rest off r)) (r - block_rest off r)) (\<lambda>rest.
        return (slice (unat off mod BSIZE) (block_rest off r) (b_data bf) @ rest))))))))"
  by pat_completeness auto
termination
  by (relation "measure (\<lambda>(ip, off, r). r)") (auto simp: block_rest_pos)

declare readi_loop.simps [simp del]

definition readi :: "nat \<Rightarrow> uint \<Rightarrow> uint \<Rightarrow> ('z cons_state_scheme, int \<times> uchar list) op" where
  "readi ip off n =
     bind (get_inode ip) (\<lambda>i.
     if i_type i = T_DEV then
       bind (gets devsw_read) (\<lambda>rd.
       if sint (i_major i) < 0 \<or> sint (i_major i) \<ge> int NDEV \<or> rd (nat (sint (i_major i))) = None
       then return (-1, [])
       else consoleread ip (sint n))
     else if off > i_size i \<or> off + n < off then return (-1, [])
     else
       (let n = (if off + n > i_size i then i_size i - off else n) in
        bind (readi_loop ip off (unat n)) (\<lambda>bs.
        return (sint n, bs))))"

function writei_loop :: "nat \<Rightarrow> uint \<Rightarrow> nat \<Rightarrow> uchar list \<Rightarrow> ('z cons_state_scheme, uint) op" where
  "writei_loop ip off r src =
     (if r = 0 then return off
      else
        bind (bmap ip (off div 512)) (\<lambda>bno.
        bind (get_inode ip) (\<lambda>i.
        bind (bread (i_dev i) bno) (\<lambda>bp.
        bind (set_buf bp (\<lambda>b. b\<lparr>b_data := splice (unat off mod BSIZE) (take (block_rest off r) src) (b_data b)\<rparr>)) (\<lambda>_.
        bind (log_write bp) (\<lambda>_.
        bind (brelse bp) (\<lambda>_.
        writei_loop ip (off + of_nat (block_rest off r)) (r - block_rest off r) (drop (block_rest off r) src))))))))"
  by pat_completeness auto
termination
  by (relation "measure (\<lambda>(ip, off, r, src). r)") (auto simp: block_rest_pos)

declare writei_loop.simps [simp del]

definition writei :: "nat \<Rightarrow> uchar list \<Rightarrow> uint \<Rightarrow> uint \<Rightarrow> ('z cons_state_scheme, int) op" where
  "writei ip src off n =
     bind (get_inode ip) (\<lambda>i.
     if i_type i = T_DEV then
       bind (gets devsw_write) (\<lambda>wr.
       if sint (i_major i) < 0 \<or> sint (i_major i) \<ge> int NDEV \<or> wr (nat (sint (i_major i))) = None
       then return (-1)
       else consolewrite ip src (sint n))
     else if off > i_size i \<or> off + n < off then return (-1)
     else if off + n > of_nat (MAXFILE * BSIZE) then return (-1)
     else
       bind (writei_loop ip off (unat n) src) (\<lambda>off.
       bind (get_inode ip) (\<lambda>i.
       bind (if n > 0 \<and> off > i_size i then
               bind (set_inode ip (\<lambda>i. i\<lparr>i_size := off\<rparr>)) (\<lambda>_. iupdate ip)
             else return ()) (\<lambda>_.
       return (sint n)))))"

section \<open>Directories\<close>

definition namecmp :: "uchar list \<Rightarrow> uchar list \<Rightarrow> int" where
  "namecmp s t = strncmp (cstr_of s) (cstr_of t) DIRSIZ"

text \<open>The values of the loop counter over a directory of the given size.\<close>

definition dirent_offs :: "uint \<Rightarrow> uint list" where
  "dirent_offs sz = map (\<lambda>k. of_nat (16 * k)) [0..<(unat sz + 15) div 16]"

primrec dirlookup_from :: "nat \<Rightarrow> uchar list \<Rightarrow> uint list \<Rightarrow> ('z cons_state_scheme, (nat \<times> uint) option) op" where
  "dirlookup_from dp name [] = return None"
| "dirlookup_from dp name (off # offs) =
     bind (readi dp off 16) (\<lambda>(r, bs).
     bind (panic_if (r \<noteq> 16) ''dirlookup read'') (\<lambda>_.
     (let de = dirent_of bs in
      if de_inum de = 0 then dirlookup_from dp name offs
      else if namecmp name (de_name de) = 0 then
        bind (get_inode dp) (\<lambda>d.
        bind (iget (i_dev d) (ucast (de_inum de))) (\<lambda>ip.
        return (Some (ip, off))))
      else dirlookup_from dp name offs)))"

definition dirlookup :: "nat \<Rightarrow> uchar list \<Rightarrow> ('z cons_state_scheme, (nat \<times> uint) option) op" where
  "dirlookup dp name =
     bind (get_inode dp) (\<lambda>d.
     bind (panic_if (i_type d \<noteq> T_DIR) ''dirlookup not DIR'') (\<lambda>_.
     dirlookup_from dp name (dirent_offs (i_size d))))"

primrec dirlink_slot :: "nat \<Rightarrow> uint list \<Rightarrow> uint \<Rightarrow> ('z cons_state_scheme, uint) op" where
  "dirlink_slot dp [] end = return end"
| "dirlink_slot dp (off # offs) end =
     bind (readi dp off 16) (\<lambda>(r, bs).
     bind (panic_if (r \<noteq> 16) ''dirlink read'') (\<lambda>_.
     if de_inum (dirent_of bs) = 0 then return off else dirlink_slot dp offs end))"

definition dirlink :: "nat \<Rightarrow> uchar list \<Rightarrow> uint \<Rightarrow> ('z cons_state_scheme, int) op" where
  "dirlink dp name inum =
     bind (dirlookup dp name) (\<lambda>found.
     case found of
       Some (ip, _) \<Rightarrow> bind (iput ip) (\<lambda>_. return (-1))
     | None \<Rightarrow>
         bind (get_inode dp) (\<lambda>d.
         bind (dirlink_slot dp (dirent_offs (i_size d)) (of_nat (16 * ((unat (i_size d) + 15) div 16)))) (\<lambda>off.
         bind (writei dp (dirent_bytes \<lparr>de_inum = ucast inum, de_name = strncpy (cstr_of name) DIRSIZ\<rparr>) off 16) (\<lambda>r.
         bind (panic_if (r \<noteq> 16) ''dirlink'') (\<lambda>_.
         return 0)))))"

section \<open>Paths\<close>

abbreviation slash :: uchar where "slash \<equiv> 0x2F"

text \<open>
  \<open>name\<close> is the caller's buffer of \<open>DIRSIZ\<close> bytes: a long element fills it, a shorter one
  is followed by a zero and leaves the bytes after it.
\<close>

definition skipelem :: "uchar list \<Rightarrow> uchar list \<Rightarrow> (uchar list \<times> uchar list) option" where
  "skipelem path name =
     (let p = dropWhile (\<lambda>c. c = slash) path in
      if p = [] then None
      else
        let s = takeWhile (\<lambda>c. c \<noteq> slash) p;
            name' = (if length s \<ge> DIRSIZ then splice 0 (take DIRSIZ s) name else splice 0 (s @ [0]) name)
        in Some (dropWhile (\<lambda>c. c = slash) (dropWhile (\<lambda>c. c \<noteq> slash) p), name'))"

lemma skipelem_shorter:
  assumes "skipelem path name = Some (path', name')"
  shows "length path' < length path"
proof -
  let ?p = "dropWhile (\<lambda>c. c = slash) path"
  have p: "?p \<noteq> []" "path' = dropWhile (\<lambda>c. c = slash) (dropWhile (\<lambda>c. c \<noteq> slash) ?p)"
    using assms by (auto simp: skipelem_def Let_def split: if_splits)
  obtain c q where q: "?p = c # q" using p(1) by (cases ?p) auto
  then have "c \<noteq> slash" using hd_dropWhile [of "\<lambda>c. c = slash" path] p(1) by simp
  then have "length path' \<le> length q"
    using p(2) q length_dropWhile_le [of "\<lambda>c. c = slash" "dropWhile (\<lambda>c. c \<noteq> slash) q"]
      length_dropWhile_le [of "\<lambda>c. c \<noteq> slash" q] by simp
  moreover have "length ?p \<le> length path" by (rule length_dropWhile_le)
  ultimately show ?thesis using q by simp
qed

function namex_loop :: "nat \<Rightarrow> uchar list \<Rightarrow> bool \<Rightarrow> uchar list \<Rightarrow> ('z cons_state_scheme, (nat \<times> uchar list) option) op" where
  "namex_loop ip path nameiparent name =
     (case skipelem path name of
        None \<Rightarrow>
          if nameiparent then bind (iput ip) (\<lambda>_. return None)
          else return (Some (ip, name))
      | Some (path', name') \<Rightarrow>
          bind (ilock ip) (\<lambda>_.
          bind (get_inode ip) (\<lambda>i.
          if i_type i \<noteq> T_DIR then bind (iunlockput ip) (\<lambda>_. return None)
          else if nameiparent \<and> path' = [] then bind (iunlock ip) (\<lambda>_. return (Some (ip, name')))
          else
            bind (dirlookup ip name') (\<lambda>next.
            case next of
              None \<Rightarrow> bind (iunlockput ip) (\<lambda>_. return None)
            | Some (nip, _) \<Rightarrow>
                bind (iunlockput ip) (\<lambda>_.
                namex_loop nip path' nameiparent name')))))"
  by pat_completeness auto
termination
  by (relation "measure (\<lambda>(ip, path, np, name). length path)") (auto dest: skipelem_shorter)

declare namex_loop.simps [simp del]

definition namex :: "uchar list \<Rightarrow> bool \<Rightarrow> uchar list \<Rightarrow> ('z cons_state_scheme, (nat \<times> uchar list) option) op" where
  "namex path nameiparent name =
     bind (case path of
             c # _ \<Rightarrow> if c = slash then iget ROOTDEV ROOTINO
                      else bind (gets (\<lambda>s. map_option (\<lambda>p. p_cwd (ptable s p)) (this_proc s))) (\<lambda>cwd.
                           deref cwd (\<lambda>c. deref c idup))
           | [] \<Rightarrow> bind (gets (\<lambda>s. map_option (\<lambda>p. p_cwd (ptable s p)) (this_proc s))) (\<lambda>cwd.
                   deref cwd (\<lambda>c. deref c idup))) (\<lambda>ip.
     namex_loop ip path nameiparent name)"

text \<open>The callers' name buffers are uninitialised; their bytes are a parameter.\<close>

definition namei :: "uchar list \<Rightarrow> uchar list \<Rightarrow> ('z cons_state_scheme, nat option) op" where
  "namei junk path = bind (namex path False junk) (\<lambda>r. return (map_option fst r))"

definition nameiparent :: "uchar list \<Rightarrow> uchar list \<Rightarrow> ('z cons_state_scheme, (nat \<times> uchar list) option) op" where
  "nameiparent path name = namex path True name"

end
