(* ===== verification/Pipe.thy ===== *)
theory Pipe
  imports Fs
begin

text \<open>
  Pipes, \<open>pipe.c\<close>. A pipe lives in a page from the page allocator and is named by its
  address; its fields are a record of their own beside the byte memory. The counters of
  bytes read and written are 32-bit words that wrap around.
\<close>

section \<open>State\<close>

definition PIPESIZE :: nat where "PIPESIZE = 512"

record pipe =
  pi_data :: "nat \<Rightarrow> uchar"
  pi_nread :: uint
  pi_nwrite :: uint
  pi_readopen :: bool
  pi_writeopen :: bool

record pipe_state = cons_state +
  pipes :: "addr_t \<Rightarrow> pipe"

definition with_pipe :: "addr_t \<Rightarrow> (pipe \<Rightarrow> pipe) \<Rightarrow> 'z pipe_state_scheme \<Rightarrow> 'z pipe_state_scheme" where
  "with_pipe p f s = s\<lparr>pipes := (pipes s)(p := f (pipes s p))\<rparr>"

abbreviation set_pipe :: "addr_t \<Rightarrow> (pipe \<Rightarrow> pipe) \<Rightarrow> ('z pipe_state_scheme, unit) op" where
  "set_pipe p f \<equiv> modify (with_pipe p f)"

abbreviation get_pipe :: "addr_t \<Rightarrow> ('z pipe_state_scheme, pipe) op" where
  "get_pipe p \<equiv> gets (\<lambda>s. pipes s p)"

section \<open>Operations\<close>

text \<open>One byte in, unless the pipe is full; one byte out, unless it is empty.\<close>

definition pipe_put :: "uchar \<Rightarrow> pipe \<Rightarrow> pipe option" where
  "pipe_put c p =
     (if pi_nwrite p = pi_nread p + of_nat PIPESIZE then None
      else Some (p\<lparr>pi_data := (pi_data p)(unat (pi_nwrite p) mod PIPESIZE := c), pi_nwrite := pi_nwrite p + 1\<rparr>))"

definition pipe_get :: "pipe \<Rightarrow> (uchar \<times> pipe) option" where
  "pipe_get p =
     (if pi_nread p = pi_nwrite p then None
      else Some (pi_data p (unat (pi_nread p) mod PIPESIZE), p\<lparr>pi_nread := pi_nread p + 1\<rparr>))"

definition is_killed :: "('z pipe_state_scheme, bool) op" where
  "is_killed = bind (gets this_proc) (\<lambda>cp. deref cp (\<lambda>p. gets (\<lambda>s. p_killed (ptable s p) \<noteq> 0)))"

definition pipeclose :: "addr_t \<Rightarrow> bool \<Rightarrow> ('z pipe_state_scheme, unit) op" where
  "pipeclose p writable =
     bind (acquire (L_pipe p)) (\<lambda>_.
     bind (if writable then
             bind (set_pipe p (\<lambda>x. x\<lparr>pi_writeopen := False\<rparr>)) (\<lambda>_. wakeup (ChPipeRead p))
           else
             bind (set_pipe p (\<lambda>x. x\<lparr>pi_readopen := False\<rparr>)) (\<lambda>_. wakeup (ChPipeWrite p))) (\<lambda>_.
     bind (get_pipe p) (\<lambda>x.
     if \<not> pi_readopen x \<and> \<not> pi_writeopen x then
       bind (release (L_pipe p)) (\<lambda>_. kfree p)
     else release (L_pipe p))))"

text \<open>
  The loop of \<open>pipewrite\<close> with the bytes that are still to be written. A process that
  finds the pipe full goes to sleep and, when woken, continues with the same byte.
\<close>

primrec pipewrite_loop :: "addr_t \<Rightarrow> int \<Rightarrow> uchar list \<Rightarrow> ('z pipe_state_scheme, int) op" where
  "pipewrite_loop p n [] =
     bind (wakeup (ChPipeRead p)) (\<lambda>_.
     bind (release (L_pipe p)) (\<lambda>_.
     return n))"
| "pipewrite_loop p n (c # cs) =
     bind (get_pipe p) (\<lambda>x.
     case pipe_put c x of
       None \<Rightarrow>
         bind is_killed (\<lambda>killed.
         if \<not> pi_readopen x \<or> killed then
           bind (release (L_pipe p)) (\<lambda>_. return (-1))
         else
           bind (wakeup (ChPipeRead p)) (\<lambda>_.
           sleep (ChPipeWrite p) (L_pipe p)))
     | Some y \<Rightarrow> bind (set_pipe p (\<lambda>_. y)) (\<lambda>_. pipewrite_loop p n cs))"

definition pipewrite :: "addr_t \<Rightarrow> uchar list \<Rightarrow> int \<Rightarrow> ('z pipe_state_scheme, int) op" where
  "pipewrite p addr n = bind (acquire (L_pipe p)) (\<lambda>_. pipewrite_loop p n (take (nat n) addr))"

primrec pipe_get_many :: "nat \<Rightarrow> pipe \<Rightarrow> uchar list \<times> pipe" where
  "pipe_get_many 0 x = ([], x)"
| "pipe_get_many (Suc n) x =
     (case pipe_get x of None \<Rightarrow> ([], x)
      | Some (c, y) \<Rightarrow> (case pipe_get_many n y of (cs, z) \<Rightarrow> (c # cs, z)))"

definition piperead :: "addr_t \<Rightarrow> int \<Rightarrow> ('z pipe_state_scheme, int \<times> uchar list) op" where
  "piperead p n =
     bind (acquire (L_pipe p)) (\<lambda>_.
     bind (get_pipe p) (\<lambda>x.
     if pi_nread x = pi_nwrite x \<and> pi_writeopen x then
       bind is_killed (\<lambda>killed.
       if killed then bind (release (L_pipe p)) (\<lambda>_. return (-1, []))
       else sleep (ChPipeRead p) (L_pipe p))
     else
       (case pipe_get_many (nat n) x of
          (cs, y) \<Rightarrow>
            bind (set_pipe p (\<lambda>_. y)) (\<lambda>_.
            bind (wakeup (ChPipeWrite p)) (\<lambda>_.
            bind (release (L_pipe p)) (\<lambda>_.
            return (int (length cs), cs)))))))"

section \<open>The ring buffer\<close>

definition pipe_fill :: "pipe \<Rightarrow> nat" where
  "pipe_fill p = unat (pi_nwrite p - pi_nread p)"

definition pipe_inv :: "pipe \<Rightarrow> bool" where
  "pipe_inv p \<longleftrightarrow> pipe_fill p \<le> PIPESIZE"

text \<open>The bytes in the pipe, oldest first.\<close>

definition pipe_contents :: "pipe \<Rightarrow> uchar list" where
  "pipe_contents p = map (\<lambda>k. pi_data p (unat (pi_nread p + of_nat k) mod PIPESIZE)) [0..<pipe_fill p]"

lemma length_pipe_contents [simp]: "length (pipe_contents p) = pipe_fill p"
  by (simp add: pipe_contents_def)

lemma pipe_full_iff: "pi_nwrite p = pi_nread p + of_nat PIPESIZE \<longleftrightarrow> pipe_fill p = PIPESIZE"
proof -
  have "pi_nwrite p = pi_nread p + of_nat PIPESIZE \<longleftrightarrow> pi_nwrite p - pi_nread p = of_nat PIPESIZE"
    by (auto simp: algebra_simps)
  also have "\<dots> \<longleftrightarrow> unat (pi_nwrite p - pi_nread p) = unat (of_nat PIPESIZE :: uint)"
    by (simp only: unat_eq_iff_word)
  finally show ?thesis by (simp add: pipe_fill_def PIPESIZE_def)
qed

lemma pipe_empty_iff: "pi_nread p = pi_nwrite p \<longleftrightarrow> pipe_fill p = 0"
  by (simp add: pipe_fill_def unat_eq_0) (metis eq_iff_diff_eq_0)

text \<open>Slots of the ring: 512 divides the range of the counters.\<close>

lemma ring_slot: "unat (a + of_nat k :: uint) mod PIPESIZE = (unat a + k) mod PIPESIZE"
proof -
  have d: "PIPESIZE dvd 2 ^ 32" by (simp add: PIPESIZE_def)
  have "unat (a + of_nat k :: uint) = (unat a + k) mod 2 ^ 32"
    by (simp add: unat_word_ariths unat_of_nat mod_add_right_eq)
  then show ?thesis using mod_mod_cancel [OF d] by simp
qed

lemma ring_inj:
  assumes "k \<le> f" and "f < n"
  shows "(a + k) mod n = (a + f) mod n \<longleftrightarrow> k = (f :: nat)"
proof
  assume "(a + k) mod n = (a + f) mod n"
  then have "n dvd f - k" using assms(1) mod_eq_dvd_iff_nat [of "a + k" "a + f" n] by simp
  then have "f - k = 0" using assms(2) by (auto dest: dvd_imp_le)
  then show "k = f" using assms(1) by simp
qed simp

lemma unat_plus_one: "unat (x :: uint) < 4294967295 \<Longrightarrow> unat (x + 1) = Suc (unat x)"
  by (simp add: unat_word_ariths)

lemma unat_minus_one_Suc:
  assumes "x \<noteq> (0 :: uint)"
  shows "unat x = Suc (unat (x - 1))"
proof -
  have "unat x = unat ((x - 1) + 1)" by simp
  moreover have "unat (x - 1) < 4294967295"
  proof (rule ccontr)
    assume "\<not> ?thesis"
    moreover have "unat (- 1 :: uint) = 4294967295"
      by (simp add: unsigned_minus_1_eq_mask mask_eq_exp_minus_1)
    ultimately have "unat (x - 1) = unat (- 1 :: uint)" using unat_lt_u32 [of "x - 1"] by linarith
    then have "x - 1 = - 1" by (simp only: unat_eq_iff_word)
    with assms show False by simp
  qed
  ultimately show ?thesis using unat_plus_one [of "x - 1"] by simp
qed

lemma put_fill:
  assumes "pipe_inv p" and "pipe_put c p = Some q"
  shows "pipe_fill q = Suc (pipe_fill p)" "pipe_fill p < PIPESIZE"
proof -
  have q: "q = p\<lparr>pi_data := (pi_data p)(unat (pi_nwrite p) mod PIPESIZE := c), pi_nwrite := pi_nwrite p + 1\<rparr>"
    and nf: "pipe_fill p \<noteq> PIPESIZE"
    using assms(2) pipe_full_iff [of p] by (auto simp: pipe_put_def split: if_splits)
  show lt: "pipe_fill p < PIPESIZE" using nf assms(1) by (simp add: pipe_inv_def)
  have "pi_nwrite q - pi_nread q = (pi_nwrite p - pi_nread p) + 1" by (simp add: q)
  then show "pipe_fill q = Suc (pipe_fill p)"
    using lt unfolding pipe_fill_def by (simp only: PIPESIZE_def) (simp add: unat_plus_one)
qed

lemma get_fill:
  assumes "pipe_get p = Some (c, q)"
  shows "pipe_fill p = Suc (pipe_fill q)" "q = p\<lparr>pi_nread := pi_nread p + 1\<rparr>"
    "c = pi_data p (unat (pi_nread p) mod PIPESIZE)"
proof -
  show q: "q = p\<lparr>pi_nread := pi_nread p + 1\<rparr>" and c: "c = pi_data p (unat (pi_nread p) mod PIPESIZE)"
    using assms by (auto simp: pipe_get_def split: if_splits)
  have ne: "pi_nwrite p - pi_nread p \<noteq> 0" using assms by (auto simp: pipe_get_def split: if_splits)
  have "pi_nwrite q - pi_nread q = (pi_nwrite p - pi_nread p) - 1" by (simp add: q)
  then show "pipe_fill p = Suc (pipe_fill q)"
    using unat_minus_one_Suc [OF ne] unfolding pipe_fill_def by (simp only:)
qed

lemma put_contents:
  assumes inv: "pipe_inv p" and put: "pipe_put c p = Some q"
  shows "pipe_contents q = pipe_contents p @ [c]"
proof (rule nth_equalityI)
  note f = put_fill [OF inv put]
  have q: "q = p\<lparr>pi_data := (pi_data p)(unat (pi_nwrite p) mod PIPESIZE := c), pi_nwrite := pi_nwrite p + 1\<rparr>"
    using put by (auto simp: pipe_put_def split: if_splits)
  show "length (pipe_contents q) = length (pipe_contents p @ [c])" by (simp add: f)
  fix k
  assume "k < length (pipe_contents q)"
  then have k: "k < Suc (pipe_fill p)" by (simp add: f)
  have w: "unat (pi_nwrite p) mod PIPESIZE = (unat (pi_nread p) + pipe_fill p) mod PIPESIZE"
    using ring_slot [of "pi_nread p" "pipe_fill p"] by (simp add: pipe_fill_def)
  have "(unat (pi_nread p) + k) mod PIPESIZE = (unat (pi_nread p) + pipe_fill p) mod PIPESIZE \<longleftrightarrow> k = pipe_fill p"
    using k f(2) by (intro ring_inj) simp_all
  then show "pipe_contents q ! k = (pipe_contents p @ [c]) ! k"
    using k by (simp add: pipe_contents_def f(1) nth_append ring_slot) (auto simp: q w)
qed

lemma get_contents:
  assumes get: "pipe_get p = Some (c, q)"
  shows "pipe_contents p = c # pipe_contents q"
proof (rule nth_equalityI)
  note g = get_fill [OF get]
  show "length (pipe_contents p) = length (c # pipe_contents q)" by (simp add: g(1))
  fix k
  assume "k < length (pipe_contents p)"
  then have k: "k < Suc (pipe_fill q)" by (simp add: g(1))
  then show "pipe_contents p ! k = (c # pipe_contents q) ! k"
    by (cases k) (simp_all add: pipe_contents_def g(1,3) del: upt_Suc, simp add: g(2) add.assoc)
qed

interpretation ring: bounded_queue pipe_inv pipe_contents PIPESIZE pipe_put pipe_get
proof
  fix s t :: pipe and x
  show "pipe_inv s \<Longrightarrow> length (pipe_contents s) \<le> PIPESIZE" by (simp add: pipe_inv_def)
  show "pipe_inv s \<Longrightarrow> pipe_put x s = None \<longleftrightarrow> length (pipe_contents s) = PIPESIZE"
    using pipe_full_iff [of s] by (simp add: pipe_put_def)
  show "pipe_inv s \<Longrightarrow> pipe_put x s = Some t \<Longrightarrow> pipe_contents t = pipe_contents s @ [x]" by (rule put_contents)
  show "pipe_inv s \<Longrightarrow> pipe_put x s = Some t \<Longrightarrow> pipe_inv t"
    using put_fill [of s x t] by (simp add: pipe_inv_def)
  show "pipe_inv s \<Longrightarrow> pipe_get s = None \<longleftrightarrow> pipe_contents s = []"
    using pipe_empty_iff [of s] length_pipe_contents [of s] by (auto simp: pipe_get_def simp del: length_pipe_contents)
  show "pipe_inv s \<Longrightarrow> pipe_get s = Some (x, t) \<Longrightarrow> pipe_contents s = x # pipe_contents t" by (rule get_contents)
  show "pipe_inv s \<Longrightarrow> pipe_get s = Some (x, t) \<Longrightarrow> pipe_inv t"
    using get_fill [of s x t] by (simp add: pipe_inv_def)
qed

section \<open>Frames\<close>

lemma with_pipe_simps [simp]:
  "pipes (with_pipe p f s) = (pipes s)(p := f (pipes s p))"
  "with_pipe p f (acquired lk s) = acquired lk (with_pipe p f s)"
  "settled (with_pipe p f s) = settled s" "lock_free lk (with_pipe p f s) = lock_free lk s"
  "with_pipe p f (with_pipe p g s) = with_pipe p (\<lambda>x. f (g x)) s"
  by (simp_all add: with_pipe_def acquired_def settled_def lock_free_def)

lemma pipes_frame [simp]: "pipes (acquired lk s) = pipes s" "pipes (woken ch s) = pipes s"
  by (simp_all add: acquired_def woken_def)

lemma in_kernel_with_pipe [simp]: "in_kernel (with_pipe p f s) = in_kernel s"
  by (simp add: in_kernel_def quiet_def with_pipe_def del: quietD in_kernelD)
    (simp add: settled_def lock_free_def)

section \<open>Writing and reading\<close>

fun put_many :: "uchar list \<Rightarrow> pipe \<Rightarrow> pipe option" where
  "put_many [] p = Some p"
| "put_many (c # cs) p = (case pipe_put c p of None \<Rightarrow> None | Some q \<Rightarrow> put_many cs q)"

lemma put_many_room:
  "pipe_inv p \<Longrightarrow> pipe_fill p + length cs \<le> PIPESIZE \<Longrightarrow>
   \<exists>q. put_many cs p = Some q \<and> pipe_inv q \<and> pipe_contents q = pipe_contents p @ cs
     \<and> pi_readopen q = pi_readopen p \<and> pi_writeopen q = pi_writeopen p"
proof (induction cs arbitrary: p)
  case Nil
  then show ?case by simp
next
  case (Cons c cs)
  then have "pipe_put c p \<noteq> None" using ring.enq_full [of p c] by simp
  then obtain q where q: "pipe_put c p = Some q" by blast
  have o: "pi_readopen q = pi_readopen p" "pi_writeopen q = pi_writeopen p"
    using q by (auto simp: pipe_put_def split: if_splits)
  have "pipe_inv q" using ring.enq_inv Cons.prems(1) q .
  moreover have "pipe_fill q + length cs \<le> PIPESIZE" using put_fill(1) [OF Cons.prems(1) q] Cons.prems(2) by simp
  ultimately obtain r where "put_many cs q = Some r" "pipe_inv r" "pipe_contents r = pipe_contents q @ cs"
    "pi_readopen r = pi_readopen q" "pi_writeopen r = pi_writeopen q" using Cons.IH by blast
  then show ?case using q o put_contents [OF Cons.prems(1) q] by simp
qed

lemma pipewrite_loop_run:
  assumes "in_kernel s" and "put_many cs (pipes s p) = Some q"
  shows "pipewrite_loop p n cs (acquired (L_pipe p) s) = Ok n (woken (ChPipeRead p) (with_pipe p (\<lambda>_. q) s))"
  using assms
proof (induction cs arbitrary: s)
  case Nil
  then have "with_pipe p (\<lambda>_. q) s = s" by (simp add: with_pipe_def fun_upd_idem)
  with Nil show ?case by simp
next
  case (Cons c cs)
  from Cons.prems(2) obtain y where y: "pipe_put c (pipes s p) = Some y" "put_many cs y = Some q"
    by (auto split: option.splits)
  have "put_many cs (pipes (with_pipe p (\<lambda>_. y) s) p) = Some q" using y(2) by simp
  from Cons.IH [OF _ this] Cons.prems(1) y(1) show ?case by simp
qed

lemma get_many_contents:
  "pipe_get_many n p = (cs, q) \<Longrightarrow> pipe_inv p \<Longrightarrow>
   cs = take n (pipe_contents p) \<and> pipe_contents q = drop n (pipe_contents p) \<and> pipe_inv q
     \<and> pi_readopen q = pi_readopen p \<and> pi_writeopen q = pi_writeopen p"
proof (induction n arbitrary: p cs)
  case 0
  then show ?case by simp
next
  case (Suc n)
  show ?case
  proof (cases "pipe_get p")
    case None
    then show ?thesis using Suc.prems ring.deq_empty [OF Suc.prems(2)] by simp
  next
    case (Some r)
    obtain c y where y: "pipe_get p = Some (c, y)" using Some by (cases r) simp
    obtain ds where d: "pipe_get_many n y = (ds, q)" "cs = c # ds"
      using Suc.prems(1) y by (auto split: prod.splits)
    have iy: "pipe_inv y" using ring.deq_inv [OF Suc.prems(2) y] .
    show ?thesis
      using Suc.IH [OF d(1) iy] d(2) get_contents [OF y] get_fill(2) [OF y] by simp
  qed
qed

text \<open>
  C22: A pipe is a first-in first-out queue of 512 bytes, whatever the order in which bytes
  are put in and taken out and however often its 32-bit counters have wrapped: what came
  out, followed by what is still inside, is what was inside followed by what went in.
\<close>

theorem pipe_fifo:
  assumes "pipe_inv p" and "queue_run pipe_put pipe_get ops p = (sent, received, q)"
  shows "pipe_contents p @ sent = received @ pipe_contents q \<and> length (pipe_contents q) \<le> PIPESIZE"
  using ring.run_fifo [OF assms] ring.bounded by blast

definition empty_pipe :: pipe where
  "empty_pipe = \<lparr>pi_data = (\<lambda>_. 0), pi_nread = 0xFFFFFFFF, pi_nwrite = 0xFFFFFFFF, pi_readopen = True, pi_writeopen = True\<rparr>"

theorem pipe_fifo_witness:
  "\<exists>sent received q. queue_run pipe_put pipe_get [Enq 1, Enq 2, Deq, Enq 3, Deq] empty_pipe = (sent, received, q)
     \<and> sent = [1, 2, 3] \<and> received = [1, 2] \<and> [] @ sent = received @ pipe_contents q"
proof -
  have p: "pipe_inv empty_pipe" "pipe_contents empty_pipe = []"
    by (simp_all add: pipe_inv_def pipe_fill_def pipe_contents_def empty_pipe_def)
  obtain q where q: "queue_run pipe_put pipe_get [Enq 1, Enq 2, Deq, Enq 3, Deq] empty_pipe = ([1, 2, 3], [1, 2], q)"
    by (simp add: pipe_put_def pipe_get_def empty_pipe_def PIPESIZE_def)
  show ?thesis using pipe_fifo [OF p(1) q] q p(2) by auto
qed

text \<open>
  C23: What \<open>pipewrite\<close> writes is what \<open>piperead\<close> reads: a write that fits into the pipe
  returns its length without blocking and wakes the readers, and a read of as many bytes
  then returns the older bytes first and these after them.
\<close>

theorem pipewrite_piperead:
  assumes "in_kernel s" and "pipe_inv (pipes s p)" and "pipe_fill (pipes s p) + length bs \<le> PIPESIZE"
    and "n = int (pipe_fill (pipes s p) + length bs)" and "bs \<noteq> []"
  shows "\<exists>t u. pipewrite p bs (int (length bs)) s = Ok (int (length bs)) t
    \<and> piperead p n t = Ok (n, pipe_contents (pipes s p) @ bs) u \<and> pipe_contents (pipes u p) = [] \<and> pipe_inv (pipes u p)"
proof -
  obtain q where q: "put_many bs (pipes s p) = Some q" "pipe_inv q" "pipe_contents q = pipe_contents (pipes s p) @ bs"
    using put_many_room [OF assms(2,3)] by blast
  let ?t = "woken (ChPipeRead p) (with_pipe p (\<lambda>_. q) s)"
  have w: "pipewrite p bs (int (length bs)) s = Ok (int (length bs)) ?t"
    using pipewrite_loop_run [OF assms(1) q(1)] assms(1) by (simp add: pipewrite_def)
  obtain cs y where y: "pipe_get_many (nat n) q = (cs, y)" by (cases "pipe_get_many (nat n) q")
  have len: "length (pipe_contents q) = nat n" using q(3) assms(4) by simp
  have c: "cs = pipe_contents q" "pipe_contents y = []" "pipe_inv y"
    using get_many_contents [OF y q(2)] len by auto
  have "0 < length (pipe_contents q)" using q(3) assms(5) by (cases bs) simp_all
  then have "pi_nread q \<noteq> pi_nwrite q" using pipe_empty_iff [of q] by simp
  then have "piperead p n ?t = Ok (int (length cs), cs) (woken (ChPipeWrite p) (with_pipe p (\<lambda>_. y) ?t))"
    using assms(1) y by (simp add: piperead_def)
  then show ?thesis using w c q(3) len assms(4) by auto
qed

definition pipe_boot :: "(addr_t \<Rightarrow> pipe) \<Rightarrow> 'z \<Rightarrow> 'z pipe_state_scheme" where
  "pipe_boot ps z = cons_boot (\<lambda>_. zero_block) (pipe_state_ext ps z)"

lemma pipe_boot_simps [simp]: "in_kernel (pipe_boot ps z)" "pipes (pipe_boot ps z) = ps"
  "pipe_state.more (pipe_boot ps z) = z"
  by (simp_all add: pipe_boot_def)
    (simp_all add: cons_boot_def inode_boot_def txn_boot_def cache_boot_def ide_state.defs)

theorem pipewrite_piperead_witness:
  "\<exists>t u :: pipe_state. pipewrite 4096 [1, 2, 3] 3 (pipe_boot (\<lambda>_. empty_pipe) ()) = Ok 3 t \<and> piperead 4096 3 t = Ok (3, [1, 2, 3]) u"
proof -
  have "pipe_inv empty_pipe" "pipe_contents empty_pipe = []" "pipe_fill empty_pipe = 0"
    by (simp_all add: pipe_inv_def pipe_fill_def pipe_contents_def empty_pipe_def)
  then show ?thesis
    using pipewrite_piperead [of "pipe_boot (\<lambda>_. empty_pipe) () :: pipe_state" 4096 "[1, 2, 3]" 3]
    by (auto simp: PIPESIZE_def)
qed

end
