(* ===== verification/File.thy ===== *)
theory File
  imports Pipe
begin

text \<open>
  The table of open files, \<open>file.c\<close>, and the allocation of a pipe, which takes two of its
  entries. A file pointer is an index into the table.
\<close>

section \<open>State\<close>

datatype fd_type = FD_NONE | FD_PIPE | FD_INODE

record open_file =
  f_type :: fd_type
  f_ref :: int
  f_readable :: bool
  f_writable :: bool
  f_pipe :: addr_t
  f_ip :: nat
  f_off :: uint

record file_state = pipe_state +
  ftable :: "nat \<Rightarrow> open_file"

definition with_file :: "nat \<Rightarrow> (open_file \<Rightarrow> open_file) \<Rightarrow> 'z file_state_scheme \<Rightarrow> 'z file_state_scheme" where
  "with_file i f s = s\<lparr>ftable := (ftable s)(i := f (ftable s i))\<rparr>"

abbreviation set_file :: "nat \<Rightarrow> (open_file \<Rightarrow> open_file) \<Rightarrow> ('z file_state_scheme, unit) op" where
  "set_file i f \<equiv> modify (with_file i f)"

abbreviation get_file :: "nat \<Rightarrow> ('z file_state_scheme, open_file) op" where
  "get_file i \<equiv> gets (\<lambda>s. ftable s i)"

section \<open>Operations\<close>

definition fileinit :: "('z file_state_scheme, unit) op" where
  "fileinit = initlock L_ftable"

definition filealloc :: "('z file_state_scheme, nat option) op" where
  "filealloc =
     bind (acquire L_ftable) (\<lambda>_.
     bind (gets ftable) (\<lambda>ft.
     case find (\<lambda>f. f_ref (ft f) = 0) [0..<NFILE] of
       Some f \<Rightarrow>
         bind (set_file f (\<lambda>x. x\<lparr>f_ref := 1\<rparr>)) (\<lambda>_.
         bind (release L_ftable) (\<lambda>_.
         return (Some f)))
     | None \<Rightarrow> bind (release L_ftable) (\<lambda>_. return None)))"

definition filedup :: "nat \<Rightarrow> ('z file_state_scheme, nat) op" where
  "filedup f =
     bind (acquire L_ftable) (\<lambda>_.
     bind (get_file f) (\<lambda>x.
     bind (panic_if (f_ref x < 1) ''filedup'') (\<lambda>_.
     bind (set_file f (\<lambda>x. x\<lparr>f_ref := f_ref x + 1\<rparr>)) (\<lambda>_.
     bind (release L_ftable) (\<lambda>_.
     return f)))))"

definition fileclose :: "nat \<Rightarrow> ('z file_state_scheme, unit) op" where
  "fileclose f =
     bind (acquire L_ftable) (\<lambda>_.
     bind (get_file f) (\<lambda>x.
     bind (panic_if (f_ref x < 1) ''fileclose'') (\<lambda>_.
     bind (set_file f (\<lambda>x. x\<lparr>f_ref := f_ref x - 1\<rparr>)) (\<lambda>_.
     bind (get_file f) (\<lambda>ff.
     if f_ref ff > 0 then release L_ftable
     else
       bind (set_file f (\<lambda>x. x\<lparr>f_ref := 0\<rparr>)) (\<lambda>_.
       bind (set_file f (\<lambda>x. x\<lparr>f_type := FD_NONE\<rparr>)) (\<lambda>_.
       bind (release L_ftable) (\<lambda>_.
       case f_type ff of
         FD_PIPE \<Rightarrow> pipeclose (f_pipe ff) (f_writable ff)
       | FD_INODE \<Rightarrow> bind begin_op (\<lambda>_. bind (iput (f_ip ff)) (\<lambda>_. end_op))
       | FD_NONE \<Rightarrow> return ()))))))))"

definition filestat :: "nat \<Rightarrow> ('z file_state_scheme, stat option) op" where
  "filestat f =
     bind (get_file f) (\<lambda>x.
     if f_type x = FD_INODE then
       bind (ilock (f_ip x)) (\<lambda>_.
       bind (stati (f_ip x)) (\<lambda>st.
       bind (iunlock (f_ip x)) (\<lambda>_.
       return (Some st))))
     else return None)"

definition fileread :: "nat \<Rightarrow> int \<Rightarrow> ('z file_state_scheme, int \<times> uchar list) op" where
  "fileread f n =
     bind (get_file f) (\<lambda>x.
     if \<not> f_readable x then return (-1, [])
     else case f_type x of
       FD_PIPE \<Rightarrow> piperead (f_pipe x) n
     | FD_INODE \<Rightarrow>
         bind (ilock (f_ip x)) (\<lambda>_.
         bind (readi (f_ip x) (f_off x) (word_of_int n)) (\<lambda>(r, bs).
         bind (if r > 0 then set_file f (\<lambda>x. x\<lparr>f_off := f_off x + word_of_int r\<rparr>) else return ()) (\<lambda>_.
         bind (iunlock (f_ip x)) (\<lambda>_.
         return (r, bs)))))
     | FD_NONE \<Rightarrow> panic ''fileread'')"

text \<open>The largest write of one transaction.\<close>

definition filewrite_max :: nat where
  "filewrite_max = ((LOGSIZE - 1 - 1 - 2) div 2) * 512"

lemma filewrite_max_pos: "0 < filewrite_max"
  by (simp add: filewrite_max_def LOGSIZE_def)

function filewrite_loop :: "nat \<Rightarrow> nat \<Rightarrow> uchar list \<Rightarrow> ('z file_state_scheme, bool) op" where
  "filewrite_loop f r addr =
     (if r = 0 then return True
      else
        (let n1 = min r filewrite_max in
         bind begin_op (\<lambda>_.
         bind (get_file f) (\<lambda>x.
         bind (ilock (f_ip x)) (\<lambda>_.
         bind (get_file f) (\<lambda>x.
         bind (writei (f_ip x) addr (f_off x) (of_nat n1)) (\<lambda>w.
         bind (if w > 0 then set_file f (\<lambda>x. x\<lparr>f_off := f_off x + word_of_int w\<rparr>) else return ()) (\<lambda>_.
         bind (iunlock (f_ip x)) (\<lambda>_.
         bind end_op (\<lambda>_.
         if w < 0 then return False
         else bind (panic_if (w \<noteq> int n1) ''short filewrite'') (\<lambda>_.
              filewrite_loop f (r - n1) (drop n1 addr))))))))))))"
  by pat_completeness auto
termination
  by (relation "measure (\<lambda>(f, r, addr). r)") (auto simp: filewrite_max_pos)

declare filewrite_loop.simps [simp del]

definition filewrite :: "nat \<Rightarrow> uchar list \<Rightarrow> int \<Rightarrow> ('z file_state_scheme, int) op" where
  "filewrite f addr n =
     bind (get_file f) (\<lambda>x.
     if \<not> f_writable x then return (-1)
     else case f_type x of
       FD_PIPE \<Rightarrow> pipewrite (f_pipe x) addr n
     | FD_INODE \<Rightarrow>
         bind (filewrite_loop f (nat n) addr) (\<lambda>ok.
         return (if ok \<and> int (nat n) = n then n else -1))
     | FD_NONE \<Rightarrow> panic ''filewrite'')"

section \<open>Allocating a pipe\<close>

definition pipealloc_bad :: "nat option \<Rightarrow> nat option \<Rightarrow> ('z file_state_scheme, (nat \<times> nat) option) op" where
  "pipealloc_bad f0 f1 =
     bind (case f0 of Some f \<Rightarrow> fileclose f | None \<Rightarrow> return ()) (\<lambda>_.
     bind (case f1 of Some f \<Rightarrow> fileclose f | None \<Rightarrow> return ()) (\<lambda>_.
     return None))"

definition pipealloc :: "('z file_state_scheme, (nat \<times> nat) option) op" where
  "pipealloc =
     bind filealloc (\<lambda>f0.
     case f0 of
       None \<Rightarrow> pipealloc_bad None None
     | Some a \<Rightarrow>
         bind filealloc (\<lambda>f1.
         case f1 of
           None \<Rightarrow> pipealloc_bad f0 None
         | Some b \<Rightarrow>
             bind kalloc (\<lambda>p.
             if p = 0 then pipealloc_bad f0 f1
             else
               bind (set_pipe p (\<lambda>x. x\<lparr>pi_readopen := True, pi_writeopen := True, pi_nwrite := 0, pi_nread := 0\<rparr>)) (\<lambda>_.
               bind (initlock (L_pipe p)) (\<lambda>_.
               bind (set_file a (\<lambda>x. x\<lparr>f_type := FD_PIPE, f_readable := True, f_writable := False, f_pipe := p\<rparr>)) (\<lambda>_.
               bind (set_file b (\<lambda>x. x\<lparr>f_type := FD_PIPE, f_readable := False, f_writable := True, f_pipe := p\<rparr>)) (\<lambda>_.
               return (Some (a, b)))))))))"

end
