(* ===== verification/Vm.thy ===== *)
theory Vm
  imports File
begin

text \<open>
  Page tables, \<open>vm.c\<close>, in the byte memory of the machine: four levels of pages of 512
  entries of eight bytes, reached through the kernel's direct map. The processor's
  registers that the code loads are fields: \<open>cr3\<close> and the kernel stack of the task state
  segment. Using the null pointer that a failed \<open>kalloc\<close> returns faults.
\<close>

section \<open>State and constants\<close>

record vm_state = file_state +
  kpml4 :: addr_t
  kpdpt :: addr_t
  cr3 :: "nat \<Rightarrow> addr_t"
  tss_rsp0 :: "nat \<Rightarrow> addr_t"

definition NPDENTRIES :: nat where "NPDENTRIES = 512"

definition PMX :: "addr_t \<Rightarrow> addr_t" where "PMX va = drop_bit 39 va AND 0x1FF"
definition PDPX :: "addr_t \<Rightarrow> addr_t" where "PDPX va = drop_bit 30 va AND 0x1FF"
definition PDX :: "addr_t \<Rightarrow> addr_t" where "PDX va = drop_bit 21 va AND 0x1FF"
definition PTX :: "addr_t \<Rightarrow> addr_t" where "PTX va = drop_bit 12 va AND 0x1FF"

definition PTE_P :: addr_t where "PTE_P = 0x001"
definition PTE_W :: addr_t where "PTE_W = 0x002"
definition PTE_U :: addr_t where "PTE_U = 0x004"
definition PTE_PWT :: addr_t where "PTE_PWT = 0x008"
definition PTE_PCD :: addr_t where "PTE_PCD = 0x010"
definition PTE_PS :: addr_t where "PTE_PS = 0x080"

definition PTE_ADDR :: "addr_t \<Rightarrow> addr_t" where "PTE_ADDR pte = pte AND NOT 0xFFF"
definition PTE_FLAGS :: "addr_t \<Rightarrow> addr_t" where "PTE_FLAGS pte = pte AND 0xFFF"

text \<open>Entry \<open>i\<close> of the table at address \<open>t\<close>.\<close>

definition entry :: "addr_t \<Rightarrow> addr_t \<Rightarrow> addr_t" where
  "entry t i = t + 8 * i"

abbreviation load64 :: "addr_t \<Rightarrow> ('z kmem_state_scheme, addr_t) op" where
  "load64 a \<equiv> gets (\<lambda>s. read64 (mem s) a)"

abbreviation store64 :: "addr_t \<Rightarrow> addr_t \<Rightarrow> ('z kmem_state_scheme, unit) op" where
  "store64 a v \<equiv> modify (\<lambda>s. s\<lparr>mem := write64 a v (mem s)\<rparr>)"

definition clear_page :: "addr_t \<Rightarrow> ('z kmem_state_scheme, unit) op" where
  "clear_page p =
     bind (panic_if (p = 0) ''trap'') (\<lambda>_.
     modify (\<lambda>s. s\<lparr>mem := memset p 0 PGSIZE (mem s)\<rparr>))"

section \<open>Walking and mapping\<close>

text \<open>One level: follow the entry at address \<open>e\<close>, or allocate the table it should point to.\<close>

definition walk_level :: "bool \<Rightarrow> addr_t \<Rightarrow> ('z kmem_state_scheme, addr_t option) op" where
  "walk_level alloc e =
     bind (load64 e) (\<lambda>v.
     if v AND PTE_P \<noteq> 0 then return (Some (P2V (PTE_ADDR v)))
     else if \<not> alloc then return None
     else
       bind kalloc (\<lambda>t.
       if t = 0 then return None
       else
         bind (clear_page t) (\<lambda>_.
         bind (store64 e (V2P t OR PTE_P OR PTE_W OR PTE_U)) (\<lambda>_.
         return (Some t)))))"

definition walkpgdir :: "addr_t \<Rightarrow> addr_t \<Rightarrow> bool \<Rightarrow> ('z kmem_state_scheme, addr_t option) op" where
  "walkpgdir pml4 va alloc =
     bind (walk_level alloc (entry pml4 (PMX va))) (\<lambda>pdp.
     case pdp of None \<Rightarrow> return None | Some pdp \<Rightarrow>
     bind (walk_level alloc (entry pdp (PDPX va))) (\<lambda>pd.
     case pd of None \<Rightarrow> return None | Some pd \<Rightarrow>
     bind (walk_level alloc (entry pd (PDX va))) (\<lambda>pgtab.
     case pgtab of None \<Rightarrow> return None | Some pgtab \<Rightarrow>
     return (Some (entry pgtab (PTX va))))))"

definition switchkvm :: "('z vm_state_scheme, unit) op" where
  "switchkvm = modify (\<lambda>s. s\<lparr>cr3 := (cr3 s)(mycpu s := V2P (kpml4 s))\<rparr>)"

definition setupkvm :: "('z vm_state_scheme, addr_t) op" where
  "setupkvm =
     bind kalloc (\<lambda>pml4.
     bind (clear_page pml4) (\<lambda>_.
     bind (gets kpdpt) (\<lambda>kpdpt.
     bind (store64 (entry pml4 256) (V2P kpdpt OR PTE_P OR PTE_W)) (\<lambda>_.
     return pml4))))"

definition kvmalloc :: "('z vm_state_scheme, unit) op" where
  "kvmalloc =
     bind kalloc (\<lambda>pml4.
     bind (modify (\<lambda>s. s\<lparr>kpml4 := pml4\<rparr>)) (\<lambda>_.
     bind (clear_page pml4) (\<lambda>_.
     bind kalloc (\<lambda>pdpt.
     bind (modify (\<lambda>s. s\<lparr>kpdpt := pdpt\<rparr>)) (\<lambda>_.
     bind (clear_page pdpt) (\<lambda>_.
     bind (store64 (entry pml4 (PMX KERNBASE)) (V2P pdpt OR PTE_P OR PTE_W)) (\<lambda>_.
     bind (store64 (entry pdpt 0) (PTE_PS OR PTE_P OR PTE_W)) (\<lambda>_.
     bind (store64 (entry pdpt 3) (0xC0000000 OR PTE_PS OR PTE_P OR PTE_W OR PTE_PWT OR PTE_PCD)) (\<lambda>_.
     switchkvm)))))))))"

definition switchuvm :: "nat \<Rightarrow> ('z vm_state_scheme, unit) op" where
  "switchuvm p =
     bind pushcli (\<lambda>_.
     bind (gets (\<lambda>s. ptable s p)) (\<lambda>pr.
     bind (panic_if (p_pgdir pr = 0) ''switchuvm: no pgdir'') (\<lambda>_.
     bind (modify (\<lambda>s. s\<lparr>tss_rsp0 := (tss_rsp0 s)(mycpu s := p_kstack pr + KSTACKSIZE)\<rparr>)) (\<lambda>_.
     bind (modify (\<lambda>s. s\<lparr>cr3 := (cr3 s)(mycpu s := V2P (p_pgdir pr))\<rparr>)) (\<lambda>_.
     popcli)))))"

text \<open>The loop of \<open>mappages\<close> runs until the last page, here \<open>k\<close> pages further on.\<close>

primrec mappages_loop :: "addr_t \<Rightarrow> nat \<Rightarrow> addr_t \<Rightarrow> addr_t \<Rightarrow> addr_t \<Rightarrow> ('z kmem_state_scheme, int) op" where
  "mappages_loop pgdir 0 a pa perm =
     bind (walkpgdir pgdir a True) (\<lambda>pte.
     case pte of None \<Rightarrow> return (-1) | Some pte \<Rightarrow>
     bind (load64 pte) (\<lambda>v.
     bind (panic_if (v AND PTE_P \<noteq> 0) ''remap'') (\<lambda>_.
     bind (store64 pte (pa OR perm OR PTE_P)) (\<lambda>_.
     return 0))))"
| "mappages_loop pgdir (Suc k) a pa perm =
     bind (walkpgdir pgdir a True) (\<lambda>pte.
     case pte of None \<Rightarrow> return (-1) | Some pte \<Rightarrow>
     bind (load64 pte) (\<lambda>v.
     bind (panic_if (v AND PTE_P \<noteq> 0) ''remap'') (\<lambda>_.
     bind (store64 pte (pa OR perm OR PTE_P)) (\<lambda>_.
     mappages_loop pgdir k (a + PGSIZE) (pa + PGSIZE) perm))))"

definition mappages :: "addr_t \<Rightarrow> addr_t \<Rightarrow> addr_t \<Rightarrow> addr_t \<Rightarrow> addr_t \<Rightarrow> ('z kmem_state_scheme, int) op" where
  "mappages pgdir va sz pa perm =
     (let a = PGROUNDDOWN va; last = PGROUNDDOWN (va + sz - 1)
      in mappages_loop pgdir (unat (last - a) div 4096) a pa perm)"

section \<open>User memory\<close>

definition copy_in :: "addr_t \<Rightarrow> uchar list \<Rightarrow> ('z kmem_state_scheme, unit) op" where
  "copy_in a bs = modify (\<lambda>s. s\<lparr>mem := (\<lambda>x. if in_range x a (length bs) then bs ! unat (x - a) else mem s x)\<rparr>)"

definition inituvm :: "addr_t \<Rightarrow> uchar list \<Rightarrow> uint \<Rightarrow> ('z kmem_state_scheme, unit) op" where
  "inituvm pgdir init sz =
     bind (panic_if (unat sz \<ge> 4096) ''inituvm: more than a page'') (\<lambda>_.
     bind kalloc (\<lambda>m.
     bind (clear_page m) (\<lambda>_.
     bind (mappages pgdir PGSIZE PGSIZE (V2P m) (PTE_W OR PTE_U)) (\<lambda>_.
     copy_in m (take (unat sz) init)))))"

text \<open>The page addresses from \<open>a\<close> on that lie below \<open>lim\<close>.\<close>

definition pages_below :: "addr_t \<Rightarrow> addr_t \<Rightarrow> addr_t list" where
  "pages_below a lim = map (\<lambda>k. a + of_nat (4096 * k)) [0..<(unat lim - unat a + 4095) div 4096]"

primrec loaduvm_loop :: "addr_t \<Rightarrow> addr_t \<Rightarrow> nat \<Rightarrow> uint \<Rightarrow> uint \<Rightarrow> uint list \<Rightarrow> ('z cons_state_scheme, int) op" where
  "loaduvm_loop pgdir addr ip offset sz [] = return 0"
| "loaduvm_loop pgdir addr ip offset sz (i # is) =
     bind (walkpgdir pgdir (addr + ucast i) False) (\<lambda>pte.
     case pte of None \<Rightarrow> panic ''loaduvm: address should exist'' | Some pte \<Rightarrow>
     bind (load64 pte) (\<lambda>v.
     (let pa = PTE_ADDR v; n = (if sz - i < 4096 then sz - i else 4096) in
      bind (readi ip (offset + i) n) (\<lambda>(r, bs).
      bind (copy_in (P2V pa) bs) (\<lambda>_.
      if r \<noteq> sint n then return (-1) else loaduvm_loop pgdir addr ip offset sz is)))))"

definition loaduvm :: "addr_t \<Rightarrow> addr_t \<Rightarrow> nat \<Rightarrow> uint \<Rightarrow> uint \<Rightarrow> ('z cons_state_scheme, int) op" where
  "loaduvm pgdir addr ip offset sz =
     bind (panic_if (addr mod PGSIZE \<noteq> 0) ''loaduvm: addr must be page aligned'') (\<lambda>_.
     loaduvm_loop pgdir addr ip offset sz (map (\<lambda>k. of_nat (4096 * k)) [0..<(unat sz + 4095) div 4096]))"

definition dealloc_page :: "addr_t \<Rightarrow> addr_t \<Rightarrow> ('z kmem_state_scheme, unit) op" where
  "dealloc_page pgdir a =
     bind (walkpgdir pgdir a False) (\<lambda>pte.
     case pte of None \<Rightarrow> return () | Some pte \<Rightarrow>
     bind (load64 pte) (\<lambda>v.
     if v AND PTE_P \<noteq> 0 then
       bind (panic_if (PTE_ADDR v = 0) ''kfree'') (\<lambda>_.
       bind (kfree (P2V (PTE_ADDR v))) (\<lambda>_.
       store64 pte 0))
     else return ()))"

text \<open>A limit within a page of the top of the address space makes the counter wrap.\<close>

definition deallocuvm :: "addr_t \<Rightarrow> addr_t \<Rightarrow> addr_t \<Rightarrow> ('z kmem_state_scheme, addr_t) op" where
  "deallocuvm pgdir oldsz newsz =
     (if newsz \<ge> oldsz then return oldsz
      else if oldsz > - PGSIZE then (\<lambda>s. Diverge)
      else bind (for_each (pages_below (PGROUNDUP newsz) oldsz) (dealloc_page pgdir)) (\<lambda>_. return newsz))"

primrec allocuvm_loop :: "addr_t \<Rightarrow> addr_t \<Rightarrow> addr_t \<Rightarrow> addr_t list \<Rightarrow> ('z kmem_state_scheme, addr_t) op" where
  "allocuvm_loop pgdir oldsz newsz [] = return newsz"
| "allocuvm_loop pgdir oldsz newsz (a # as) =
     bind kalloc (\<lambda>m.
     if m = 0 then bind (deallocuvm pgdir newsz oldsz) (\<lambda>_. return 0)
     else
       bind (clear_page m) (\<lambda>_.
       bind (mappages pgdir a PGSIZE (V2P m) (PTE_W OR PTE_U)) (\<lambda>r.
       if r < 0 then
         bind (deallocuvm pgdir newsz oldsz) (\<lambda>_.
         bind (kfree m) (\<lambda>_. return 0))
       else allocuvm_loop pgdir oldsz newsz as)))"

definition allocuvm :: "addr_t \<Rightarrow> addr_t \<Rightarrow> addr_t \<Rightarrow> ('z kmem_state_scheme, addr_t) op" where
  "allocuvm pgdir oldsz newsz =
     (if newsz \<ge> KERNBASE then return 0
      else if newsz < oldsz then return oldsz
      else allocuvm_loop pgdir oldsz newsz (pages_below (PGROUNDUP oldsz) newsz))"

text \<open>Freeing the entries of one table: \<open>f\<close> frees what a present entry points to.\<close>

definition free_entries :: "nat \<Rightarrow> addr_t \<Rightarrow> (addr_t \<Rightarrow> ('z kmem_state_scheme, unit) op) \<Rightarrow> ('z kmem_state_scheme, unit) op" where
  "free_entries n t f =
     for_each [0..<n] (\<lambda>i.
       bind (load64 (entry t (of_nat i))) (\<lambda>v.
       if v AND PTE_P \<noteq> 0 then f (P2V (PTE_ADDR v)) else return ()))"

definition freevm :: "addr_t \<Rightarrow> ('z kmem_state_scheme, unit) op" where
  "freevm pml4 =
     bind (panic_if (pml4 = 0) ''freevm: no pgdir'') (\<lambda>_.
     bind (free_entries (NPDENTRIES div 2) pml4 (\<lambda>pdp.
       bind (free_entries NPDENTRIES pdp (\<lambda>pd.
         bind (free_entries NPDENTRIES pd (\<lambda>pt.
           bind (free_entries NPDENTRIES pt kfree) (\<lambda>_.
           kfree pt))) (\<lambda>_.
         kfree pd))) (\<lambda>_.
       kfree pdp))) (\<lambda>_.
     kfree pml4))"

definition clearpteu :: "addr_t \<Rightarrow> addr_t \<Rightarrow> ('z kmem_state_scheme, unit) op" where
  "clearpteu pgdir uva =
     bind (walkpgdir pgdir uva False) (\<lambda>pte.
     case pte of None \<Rightarrow> panic ''clearpteu'' | Some pte \<Rightarrow>
     bind (load64 pte) (\<lambda>v.
     store64 pte (v AND NOT PTE_U)))"

primrec copyuvm_loop :: "addr_t \<Rightarrow> addr_t \<Rightarrow> addr_t list \<Rightarrow> ('z kmem_state_scheme, addr_t) op" where
  "copyuvm_loop pgdir d [] = return d"
| "copyuvm_loop pgdir d (i # is) =
     bind (walkpgdir pgdir i False) (\<lambda>pte.
     case pte of None \<Rightarrow> panic ''copyuvm: pte should exist'' | Some pte \<Rightarrow>
     bind (load64 pte) (\<lambda>v.
     bind (panic_if (v AND PTE_P = 0) ''copyuvm: page not present'') (\<lambda>_.
     bind kalloc (\<lambda>m.
     if m = 0 then bind (freevm d) (\<lambda>_. return 0)
     else
       bind (modify (\<lambda>s. s\<lparr>mem := memmove m (P2V (PTE_ADDR v)) 4096 (mem s)\<rparr>)) (\<lambda>_.
       bind (mappages d i PGSIZE (V2P m) (PTE_FLAGS v)) (\<lambda>r.
       if r < 0 then bind (freevm d) (\<lambda>_. return 0)
       else copyuvm_loop pgdir d is))))))"

definition copyuvm :: "addr_t \<Rightarrow> uint \<Rightarrow> ('z vm_state_scheme, addr_t) op" where
  "copyuvm pgdir sz =
     bind setupkvm (\<lambda>d.
     if d = 0 then return 0
     else copyuvm_loop pgdir d (pages_below PGSIZE (ucast sz)))"

definition uva2ka :: "addr_t \<Rightarrow> addr_t \<Rightarrow> ('z kmem_state_scheme, addr_t) op" where
  "uva2ka pgdir uva =
     bind (walkpgdir pgdir uva False) (\<lambda>pte.
     deref pte (\<lambda>pte.
     bind (load64 pte) (\<lambda>v.
     if v AND PTE_P = 0 then return 0
     else if v AND PTE_U = 0 then return 0
     else return (P2V (PTE_ADDR v)))))"

lemma page_offset: "unat (va - PGROUNDDOWN va) = unat va mod 4096"
proof -
  have "unat (PGROUNDDOWN va) \<le> unat va" by (simp add: unat_PGROUNDDOWN)
  then have "unat (va - PGROUNDDOWN va) = unat va - unat (PGROUNDDOWN va)"
    unfolding unat_sub_if' by (simp only: if_True)
  then show ?thesis by (simp only: unat_PGROUNDDOWN minus_div_mult_eq_mod)
qed

function copyout_loop :: "addr_t \<Rightarrow> addr_t \<Rightarrow> uchar list \<Rightarrow> ('z kmem_state_scheme, int) op" where
  "copyout_loop pgdir va buf =
     (if buf = [] then return 0
      else
        (let va0 = PGROUNDDOWN va; n = min (4096 - unat (va - va0)) (length buf) in
         bind (uva2ka pgdir va0) (\<lambda>pa0.
         if pa0 = 0 then return (-1)
         else
           bind (copy_in (pa0 + (va - va0)) (take n buf)) (\<lambda>_.
           copyout_loop pgdir (va0 + PGSIZE) (drop n buf)))))"
  by pat_completeness auto

termination
  by (relation "measure (\<lambda>(pgdir, va, buf). length buf)") (auto simp: page_offset)

declare copyout_loop.simps [simp del]

definition copyout :: "addr_t \<Rightarrow> addr_t \<Rightarrow> uchar list \<Rightarrow> ('z kmem_state_scheme, int) op" where
  "copyout pgdir va p = copyout_loop pgdir va p"

end
