(* ===== verification/Procs.thy ===== *)
theory Procs
  imports Vm
begin

text \<open>
  The life of a process, the rest of \<open>proc.c\<close>: the first process, \<open>fork\<close>, \<open>exit\<close>,
  \<open>wait\<close>, memory growth and the scheduler's two halves. The saved registers of a process
  are fields of its trap frame in memory. The binary of the first program is generated at
  build time and is an argument.
\<close>

section \<open>State and trap frames\<close>

record run_state = vm_state +
  ticks :: uint
  forkret_first :: bool

definition tf_rax :: addr_t where "tf_rax = 0"
definition tf_rcx :: addr_t where "tf_rcx = 16"
definition tf_rdx :: addr_t where "tf_rdx = 24"
definition tf_rsi :: addr_t where "tf_rsi = 40"
definition tf_rdi :: addr_t where "tf_rdi = 48"
definition tf_r8 :: addr_t where "tf_r8 = 56"
definition tf_r9 :: addr_t where "tf_r9 = 64"
definition tf_r10 :: addr_t where "tf_r10 = 72"
definition tf_r11 :: addr_t where "tf_r11 = 80"
definition tf_trapno :: addr_t where "tf_trapno = 120"
definition tf_err :: addr_t where "tf_err = 128"
definition tf_rip :: addr_t where "tf_rip = 136"
definition tf_cs :: addr_t where "tf_cs = 144"
definition tf_rsp :: addr_t where "tf_rsp = 160"

definition FL_IF :: addr_t where "FL_IF = 0x200"

text \<open>\<open>proc\<close>, the current process; without one the access faults.\<close>

definition with_current :: "(nat \<Rightarrow> ('z proc_state_scheme, 'a) op) \<Rightarrow> ('z proc_state_scheme, 'a) op" where
  "with_current f = bind (gets this_proc) (\<lambda>cp. deref cp f)"

abbreviation get_proc :: "nat \<Rightarrow> ('z proc_state_scheme, proc) op" where
  "get_proc p \<equiv> gets (\<lambda>s. ptable s p)"

definition memzero :: "addr_t \<Rightarrow> addr_t \<Rightarrow> ('z kmem_state_scheme, unit) op" where
  "memzero a n = modify (\<lambda>s. s\<lparr>mem := memset a 0 n (mem s)\<rparr>)"

section \<open>The first process\<close>

definition userinit :: "uchar list \<Rightarrow> ('z run_state_scheme, unit) op" where
  "userinit initcode =
     bind allocproc (\<lambda>np. 
     bind (modify (\<lambda>s. s\<lparr>initproc := np\<rparr>)) (\<lambda>_.
     bind setupkvm (\<lambda>pgdir.
     deref np (\<lambda>p.
     bind (set_proc p (\<lambda>x. x\<lparr>p_pgdir := pgdir\<rparr>)) (\<lambda>_.
     bind (panic_if (pgdir = 0) ''userinit: out of memory?'') (\<lambda>_.
     bind (inituvm pgdir initcode (of_nat (length initcode))) (\<lambda>_.
     bind (set_proc p (\<lambda>x. x\<lparr>p_sz := PGSIZE * 2\<rparr>)) (\<lambda>_.
     bind (get_proc p) (\<lambda>x.
     bind (memzero (p_tf x) sizeof_trapframe) (\<lambda>_.
     bind (store64 (p_tf x + tf_r11) FL_IF) (\<lambda>_.
     bind (store64 (p_tf x + tf_rsp) (p_sz x)) (\<lambda>_.
     bind (store64 (p_tf x + tf_rcx) PGSIZE) (\<lambda>_.
     bind (set_proc p (\<lambda>x. x\<lparr>p_name := safestrcpy (p_name x) (cstr_of (chars ''initcode'')) 16\<rparr>)) (\<lambda>_.
     bind (namei (replicate DIRSIZ 0) [slash]) (\<lambda>cwd.
     bind (set_proc p (\<lambda>x. x\<lparr>p_cwd := cwd\<rparr>)) (\<lambda>_.
     set_proc p (\<lambda>x. x\<lparr>p_state := RUNNABLE\<rparr>)))))))))))))))))"

section \<open>Memory of a process\<close>

definition growproc :: "int \<Rightarrow> ('z run_state_scheme, int) op" where
  "growproc n = with_current (\<lambda>p.
     bind (get_proc p) (\<lambda>x.
     bind (if n > 0 then allocuvm (p_pgdir x) (p_sz x) (p_sz x + word_of_int n)
           else if n < 0 then deallocuvm (p_pgdir x) (p_sz x) (p_sz x + word_of_int n)
           else return (p_sz x)) (\<lambda>sz.
     if n \<noteq> 0 \<and> sz = 0 then return (-1)
     else
       bind (set_proc p (\<lambda>x. x\<lparr>p_sz := sz\<rparr>)) (\<lambda>_.
       bind (switchuvm p) (\<lambda>_.
       return 0)))))"

section \<open>Fork\<close>

definition fork_file :: "nat \<Rightarrow> nat \<Rightarrow> nat \<Rightarrow> ('z run_state_scheme, unit) op" where
  "fork_file p np i =
     bind (get_proc p) (\<lambda>x.
     case p_ofile x i of
       None \<Rightarrow> return ()
     | Some f \<Rightarrow>
         bind (filedup f) (\<lambda>g.
         set_proc np (\<lambda>y. y\<lparr>p_ofile := (p_ofile y)(i := Some g)\<rparr>)))"

definition fork :: "('z run_state_scheme, int) op" where
  "fork =
     bind allocproc (\<lambda>r.
     case r of None \<Rightarrow> return (-1) | Some np \<Rightarrow>
     with_current (\<lambda>p.
     bind (get_proc p) (\<lambda>x.
     bind (copyuvm (p_pgdir x) (ucast (p_sz x))) (\<lambda>pgdir.
     bind (set_proc np (\<lambda>y. y\<lparr>p_pgdir := pgdir\<rparr>)) (\<lambda>_.
     if pgdir = 0 then
       bind (get_proc np) (\<lambda>y.
       bind (kfree (p_kstack y)) (\<lambda>_.
       bind (set_proc np (\<lambda>y. y\<lparr>p_kstack := 0\<rparr>)) (\<lambda>_.
       bind (set_proc np (\<lambda>y. y\<lparr>p_state := UNUSED\<rparr>)) (\<lambda>_.
       return (-1)))))
     else
       bind (set_proc np (\<lambda>y. y\<lparr>p_sz := p_sz x\<rparr>)) (\<lambda>_.
       bind (set_proc np (\<lambda>y. y\<lparr>p_parent := Some p\<rparr>)) (\<lambda>_.
       bind (get_proc np) (\<lambda>y.
       bind (modify (\<lambda>s. s\<lparr>mem := memmove (p_tf y) (p_tf x) 176 (mem s)\<rparr>)) (\<lambda>_.
       bind (store64 (p_tf y + tf_rax) 0) (\<lambda>_.
       bind (for_each [0..<NOFILE] (fork_file p np)) (\<lambda>_.
       bind (get_proc p) (\<lambda>x.
       deref (p_cwd x) (\<lambda>cwd.
       bind (idup cwd) (\<lambda>cwd.
       bind (set_proc np (\<lambda>y. y\<lparr>p_cwd := Some cwd\<rparr>)) (\<lambda>_.
       bind (set_proc np (\<lambda>y. y\<lparr>p_name := safestrcpy (p_name y) (cstr_of (p_name x)) 16\<rparr>)) (\<lambda>_.
       bind (get_proc np) (\<lambda>y.
       bind (set_proc np (\<lambda>y. y\<lparr>p_state := RUNNABLE\<rparr>)) (\<lambda>_.
       return (sint (p_pid y))))))))))))))))))))"

section \<open>Exit and wait\<close>

definition exit_file :: "nat \<Rightarrow> nat \<Rightarrow> ('z run_state_scheme, unit) op" where
  "exit_file p fd =
     bind (get_proc p) (\<lambda>x.
     case p_ofile x fd of
       None \<Rightarrow> return ()
     | Some f \<Rightarrow>
         bind (fileclose f) (\<lambda>_.
         set_proc p (\<lambda>x. x\<lparr>p_ofile := (p_ofile x)(fd := None)\<rparr>)))"

text \<open>The channel of a process is its address; nobody waits on the null pointer.\<close>

definition wakeup1_proc :: "nat option \<Rightarrow> ('z proc_state_scheme, unit) op" where
  "wakeup1_proc q = (case q of None \<Rightarrow> return () | Some p \<Rightarrow> wakeup1 (ChProc p))"

definition abandon :: "nat \<Rightarrow> nat \<Rightarrow> ('z proc_state_scheme, unit) op" where
  "abandon p i =
     bind (get_proc i) (\<lambda>x.
     if p_parent x = Some p then
       bind (gets initproc) (\<lambda>ip.
       bind (set_proc i (\<lambda>x. x\<lparr>p_parent := ip\<rparr>)) (\<lambda>_.
       if p_state x = ZOMBIE then wakeup1_proc ip else return ()))
     else return ())"

text \<open>\<open>exit\<close> ends in the switch into the scheduler; the process does not run again.\<close>

definition exit :: "('z run_state_scheme, unit) op" where
  "exit = with_current (\<lambda>p.
     bind (gets initproc) (\<lambda>ip.
     bind (panic_if (Some p = ip) ''init exiting'') (\<lambda>_.
     bind (for_each [0..<NOFILE] (exit_file p)) (\<lambda>_.
     bind begin_op (\<lambda>_.
     bind (get_proc p) (\<lambda>x.
     deref (p_cwd x) (\<lambda>cwd.
     bind (iput cwd) (\<lambda>_.
     bind end_op (\<lambda>_.
     bind (set_proc p (\<lambda>x. x\<lparr>p_cwd := None\<rparr>)) (\<lambda>_.
     bind (acquire L_ptable) (\<lambda>_.
     bind (get_proc p) (\<lambda>x.
     bind (wakeup1_proc (p_parent x)) (\<lambda>_.
     bind (for_each [0..<NPROC] (abandon p)) (\<lambda>_.
     bind (set_proc p (\<lambda>x. x\<lparr>p_state := ZOMBIE\<rparr>)) (\<lambda>_.
     bind sched (\<lambda>_.
     (\<lambda>s. Exited s)))))))))))))))))"

definition wait_reap :: "nat \<Rightarrow> ('z run_state_scheme, int) op" where
  "wait_reap i =
     bind (get_proc i) (\<lambda>x.
     bind (kfree (p_kstack x)) (\<lambda>_.
     bind (set_proc i (\<lambda>x. x\<lparr>p_kstack := 0\<rparr>)) (\<lambda>_.
     bind (freevm (p_pgdir x)) (\<lambda>_.
     bind (set_proc i (\<lambda>x. x\<lparr>p_pid := 0, p_parent := None, p_name := (p_name x)[0 := 0], p_killed := 0,
             p_state := UNUSED\<rparr>)) (\<lambda>_.
     bind (release L_ptable) (\<lambda>_.
     return (sint (p_pid x))))))))"

text \<open>
  One round of \<open>wait\<close>. A process that is woken while it waits for its children has the lock
  of the process table and scans the table again.
\<close>

definition wait_scan :: "('z run_state_scheme, int) op" where
  "wait_scan = with_current (\<lambda>p.
     bind (gets (find_proc (\<lambda>x. p_parent x = Some p \<and> p_state x = ZOMBIE))) (\<lambda>found.
     case found of
       Some i \<Rightarrow> wait_reap i
     | None \<Rightarrow>
         bind (gets (find_proc (\<lambda>x. p_parent x = Some p))) (\<lambda>kid.
         bind (get_proc p) (\<lambda>x.
         if kid = None \<or> p_killed x \<noteq> 0 then bind (release L_ptable) (\<lambda>_. return (-1))
         else sleep (ChProc p) L_ptable))))"

definition wait :: "('z run_state_scheme, int) op" where
  "wait = bind (acquire L_ptable) (\<lambda>_. wait_scan)"

section \<open>Scheduling\<close>

text \<open>
  The scheduler's loop body up to the switch to the chosen process, and after the process
  has switched back; in between the process runs.
\<close>

definition scheduler_pick :: "nat \<Rightarrow> 'z proc_state_scheme \<Rightarrow> nat option" where
  "scheduler_pick k s = find (\<lambda>i. p_state (ptable s i) = RUNNABLE) [k..<NPROC]"

definition scheduler_run :: "nat \<Rightarrow> ('z run_state_scheme, unit) op" where
  "scheduler_run p =
     bind (modify (\<lambda>s. s\<lparr>curproc := (curproc s)(mycpu s := Some p)\<rparr>)) (\<lambda>_.
     bind (switchuvm p) (\<lambda>_.
     set_proc p (\<lambda>x. x\<lparr>p_state := RUNNING\<rparr>)))"

definition scheduler_back :: "('z run_state_scheme, unit) op" where
  "scheduler_back =
     bind switchkvm (\<lambda>_.
     modify (\<lambda>s. s\<lparr>curproc := (curproc s)(mycpu s := None)\<rparr>))"

definition forkret :: "('z run_state_scheme, unit) op" where
  "forkret =
     bind (release L_ptable) (\<lambda>_.
     bind (gets forkret_first) (\<lambda>first.
     if first then
       bind (modify (\<lambda>s. s\<lparr>forkret_first := False\<rparr>)) (\<lambda>_.
       bind (iinit ROOTDEV) (\<lambda>_.
       initlog ROOTDEV))
     else return ()))"

end
