(* ===== verification/Syscall.thy ===== *)
theory Syscall
  imports Procs
begin

text \<open>
  Arguments of system calls, \<open>syscall.c\<close>, and the system calls of \<open>sysproc.c\<close>. The kernel
  runs on the page table of the current process: a user address is translated by walking it,
  an address of the direct map is used as it is, and any other address faults, which in the
  kernel ends in the panic of \<open>trap\<close>. Where the code passes on a pointer to a checked string
  the model passes on the string.
\<close>

section \<open>Access to user memory\<close>

definition user_addr :: "addr_t \<Rightarrow> ('z proc_state_scheme, addr_t) op" where
  "user_addr va =
     (if va < 0x800000000000 then
        with_current (\<lambda>p.
        bind (get_proc p) (\<lambda>x.
        bind (walkpgdir (p_pgdir x) va False) (\<lambda>pte.
        deref pte (\<lambda>pte.
        bind (load64 pte) (\<lambda>v.
        bind (panic_if (v AND PTE_P = 0) ''trap'') (\<lambda>_.
        return (P2V (PTE_ADDR v) + (va - PGROUNDDOWN va))))))))
      else if KERNBASE \<le> va \<and> va < KERNBASE + 0x40000000 then return va
      else panic ''trap'')"

definition user_get :: "addr_t \<Rightarrow> ('z proc_state_scheme, uchar) op" where
  "user_get va = bind (user_addr va) (\<lambda>ka. gets (\<lambda>s. mem s ka))"

definition user_put :: "addr_t \<Rightarrow> uchar \<Rightarrow> ('z proc_state_scheme, unit) op" where
  "user_put va c = bind (user_addr va) (\<lambda>ka. modify (\<lambda>s. s\<lparr>mem := (mem s)(ka := c)\<rparr>))"

primrec user_read :: "nat \<Rightarrow> addr_t \<Rightarrow> ('z proc_state_scheme, uchar list) op" where
  "user_read 0 va = return []"
| "user_read (Suc n) va =
     bind (user_get va) (\<lambda>c.
     bind (user_read n (va + 1)) (\<lambda>cs.
     return (c # cs)))"

primrec user_write :: "addr_t \<Rightarrow> uchar list \<Rightarrow> ('z proc_state_scheme, unit) op" where
  "user_write va [] = return ()"
| "user_write va (c # cs) = bind (user_put va c) (\<lambda>_. user_write (va + 1) cs)"

section \<open>Fetching arguments\<close>

definition fetchint :: "addr_t \<Rightarrow> ('z run_state_scheme, int option) op" where
  "fetchint addr = with_current (\<lambda>p.
     bind (get_proc p) (\<lambda>x.
     if addr < PGSIZE \<or> addr \<ge> p_sz x \<or> addr + 4 > p_sz x then return None
     else bind (user_read 4 addr) (\<lambda>bs. return (Some (sint (from_le bs :: uint))))))"

definition fetchaddr :: "addr_t \<Rightarrow> ('z run_state_scheme, addr_t option) op" where
  "fetchaddr addr = with_current (\<lambda>p.
     bind (get_proc p) (\<lambda>x.
     if addr < PGSIZE \<or> addr \<ge> p_sz x \<or> addr + 8 > p_sz x then return None
     else bind (user_read 8 addr) (\<lambda>bs. return (Some (from_le bs)))))"

text \<open>The characters before the first zero among the next \<open>n\<close>.\<close>

primrec fetchstr_loop :: "nat \<Rightarrow> addr_t \<Rightarrow> ('z run_state_scheme, uchar list option) op" where
  "fetchstr_loop 0 s = return None"
| "fetchstr_loop (Suc n) s =
     bind (user_get s) (\<lambda>c.
     if c = 0 then return (Some [])
     else bind (fetchstr_loop n (s + 1)) (\<lambda>r. return (map_option ((#) c) r)))"

definition fetchstr :: "addr_t \<Rightarrow> ('z run_state_scheme, uchar list option) op" where
  "fetchstr addr = with_current (\<lambda>p.
     bind (get_proc p) (\<lambda>x.
     if addr < PGSIZE \<or> addr \<ge> p_sz x then return None
     else fetchstr_loop (unat (p_sz x) - unat addr) addr))"

definition fetcharg :: "nat \<Rightarrow> ('z run_state_scheme, addr_t) op" where
  "fetcharg n = with_current (\<lambda>p.
     bind (get_proc p) (\<lambda>x.
     if n = 0 then load64 (p_tf x + tf_rdi)
     else if n = 1 then load64 (p_tf x + tf_rsi)
     else if n = 2 then load64 (p_tf x + tf_rdx)
     else if n = 3 then load64 (p_tf x + tf_r10)
     else if n = 4 then load64 (p_tf x + tf_r8)
     else if n = 5 then load64 (p_tf x + tf_r9)
     else panic ''failed fetch''))"

definition argint :: "nat \<Rightarrow> ('z run_state_scheme, int) op" where
  "argint n = bind (fetcharg n) (\<lambda>v. return (sint (ucast v :: uint)))"

definition argaddr :: "nat \<Rightarrow> ('z run_state_scheme, addr_t) op" where
  "argaddr n = fetcharg n"

text \<open>
  The comparison is made on the low half of the pointer, added up in 32 bits, while the
  pointer that is handed out is the whole register.
\<close>

definition argptr :: "nat \<Rightarrow> int \<Rightarrow> ('z run_state_scheme, addr_t option) op" where
  "argptr n sz =
     bind (argaddr n) (\<lambda>i.
     with_current (\<lambda>p.
     bind (get_proc p) (\<lambda>x.
     (let lo = (ucast i :: uint) in
      if sz < 0 \<or> ucast lo \<ge> p_sz x \<or> ucast (lo + word_of_int sz) > p_sz x then return None
      else return (Some i)))))"

definition argstr :: "nat \<Rightarrow> ('z run_state_scheme, uchar list option) op" where
  "argstr n = bind (argint n) (\<lambda>addr. fetchstr (word_of_int addr))"

section \<open>Process system calls\<close>

definition sys_fork :: "('z run_state_scheme, int) op" where
  "sys_fork = fork"

definition sys_exit :: "('z run_state_scheme, int) op" where
  "sys_exit = bind exit (\<lambda>_. return 0)"

definition sys_wait :: "('z run_state_scheme, int) op" where
  "sys_wait = wait"

definition sys_kill :: "('z run_state_scheme, int) op" where
  "sys_kill = bind (argint 0) (\<lambda>pid. kill (word_of_int pid))"

definition sys_getpid :: "('z run_state_scheme, int) op" where
  "sys_getpid = with_current (\<lambda>p. bind (get_proc p) (\<lambda>x. return (sint (p_pid x))))"

definition sys_sbrk :: "('z run_state_scheme, addr_t) op" where
  "sys_sbrk =
     bind (argaddr 0) (\<lambda>n.
     with_current (\<lambda>p.
     bind (get_proc p) (\<lambda>x.
     bind (growproc (sint n)) (\<lambda>r.
     return (if r < 0 then -1 else p_sz x)))))"

text \<open>
  The loop of \<open>sys_sleep\<close>, with the time it started; a process that is woken has the lock of
  the clock and runs it again. The comparison is unsigned.
\<close>

definition sys_sleep_loop :: "uint \<Rightarrow> uint \<Rightarrow> ('z run_state_scheme, int) op" where
  "sys_sleep_loop ticks0 n =
     bind (gets ticks) (\<lambda>t.
     if t - ticks0 < n then
       with_current (\<lambda>p.
       bind (get_proc p) (\<lambda>x.
       if p_killed x \<noteq> 0 then bind (release L_ticks) (\<lambda>_. return (-1))
       else sleep ChTicks L_ticks))
     else bind (release L_ticks) (\<lambda>_. return 0))"

definition sys_sleep :: "('z run_state_scheme, int) op" where
  "sys_sleep =
     bind (argint 0) (\<lambda>n.
     bind (acquire L_ticks) (\<lambda>_.
     bind (gets ticks) (\<lambda>ticks0.
     sys_sleep_loop ticks0 (word_of_int n))))"

definition sys_uptime :: "('z run_state_scheme, int) op" where
  "sys_uptime =
     bind (acquire L_ticks) (\<lambda>_.
     bind (gets ticks) (\<lambda>xticks.
     bind (release L_ticks) (\<lambda>_.
     return (sint xticks))))"

end
