(* ===== verification/Exec.thy ===== *)
theory Exec
  imports Syscall
begin

text \<open>
  Loading a program, \<open>exec.c\<close> and \<open>elf.h\<close>. The argument strings are lists of characters;
  the stack image is built as the code builds it and copied out through the new page table.
\<close>

section \<open>File format\<close>

definition ELF_MAGIC :: uint where "ELF_MAGIC = 0x464C457F"
definition ELF_PROG_LOAD :: uint where "ELF_PROG_LOAD = 1"

definition get_u64 :: "nat \<Rightarrow> uchar list \<Rightarrow> addr_t" where
  "get_u64 k d = from_le (slice k 8 d)"

record elfhdr =
  e_magic :: uint
  e_entry :: addr_t
  e_phoff :: addr_t
  e_phnum :: ushort

definition elfhdr_of :: "uchar list \<Rightarrow> elfhdr" where
  "elfhdr_of d = \<lparr>e_magic = get_u32 0 d, e_entry = get_u64 24 d, e_phoff = get_u64 32 d, e_phnum = get_u16 56 d\<rparr>"

record proghdr =
  ph_type :: uint
  ph_off :: addr_t
  ph_vaddr :: addr_t
  ph_filesz :: addr_t
  ph_memsz :: addr_t

definition proghdr_of :: "uchar list \<Rightarrow> proghdr" where
  "proghdr_of d = \<lparr>ph_type = get_u32 0 d, ph_off = get_u64 8 d, ph_vaddr = get_u64 16 d,
     ph_filesz = get_u64 32 d, ph_memsz = get_u64 40 d\<rparr>"

section \<open>Loading the segments\<close>

text \<open>One program header; \<open>None\<close> is the jump to \<open>bad\<close>, otherwise the new size.\<close>

definition exec_segment :: "addr_t \<Rightarrow> nat \<Rightarrow> addr_t \<Rightarrow> uint \<Rightarrow> ('z run_state_scheme, addr_t option) op" where
  "exec_segment pgdir ip sz off =
     bind (readi ip off 56) (\<lambda>(r, bs).
     if r \<noteq> 56 then return None
     else
       (let ph = proghdr_of bs in
        if ph_type ph \<noteq> ELF_PROG_LOAD then return (Some sz)
        else if ph_memsz ph < ph_filesz ph then return None
        else if ph_vaddr ph + ph_memsz ph < ph_vaddr ph then return None
        else
          bind (allocuvm pgdir sz (ph_vaddr ph + ph_memsz ph)) (\<lambda>sz.
          if sz = 0 then return None
          else if ph_vaddr ph mod PGSIZE \<noteq> 0 then return None
          else
            bind (loaduvm pgdir (ph_vaddr ph) ip (ucast (ph_off ph)) (ucast (ph_filesz ph))) (\<lambda>r.
            return (if r < 0 then None else Some sz)))))"

primrec exec_load :: "addr_t \<Rightarrow> nat \<Rightarrow> nat \<Rightarrow> addr_t \<Rightarrow> uint \<Rightarrow> ('z run_state_scheme, addr_t option) op" where
  "exec_load pgdir ip 0 sz off = return (Some sz)"
| "exec_load pgdir ip (Suc n) sz off =
     bind (exec_segment pgdir ip sz off) (\<lambda>r.
     case r of None \<Rightarrow> return None | Some sz \<Rightarrow> exec_load pgdir ip n sz (off + 56))"

section \<open>The argument strings\<close>

text \<open>
  \<open>ustack\<close> is returned as the words that the code stores from \<open>ustack[1]\<close> on; the count of
  arguments bounds the array.
\<close>

definition push_sp :: "addr_t \<Rightarrow> uchar list \<Rightarrow> addr_t" where
  "push_sp sp arg = (sp - of_nat (length arg + 1)) AND NOT 7"

primrec exec_args :: "addr_t \<Rightarrow> nat \<Rightarrow> addr_t \<Rightarrow> uchar list list \<Rightarrow> ('z run_state_scheme, (addr_t \<times> addr_t list) option) op" where
  "exec_args pgdir argc sp [] = return (Some (sp, [0]))"
| "exec_args pgdir argc sp (arg # argv) =
     (if argc \<ge> MAXARG then return None
      else
        (let sp = push_sp sp arg in
         bind (copyout pgdir sp (arg @ [0])) (\<lambda>r.
         if r < 0 then return None
         else
           bind (exec_args pgdir (argc + 1) sp argv) (\<lambda>rest.
           return (map_option (\<lambda>(sp', ustack). (sp', sp # ustack)) rest)))))"

definition path_last :: "uchar list \<Rightarrow> uchar list" where
  "path_last path = rev (takeWhile (\<lambda>c. c \<noteq> slash) (rev path))"

section \<open>Exec\<close>

definition exec_bad :: "addr_t \<Rightarrow> nat option \<Rightarrow> ('z run_state_scheme, int) op" where
  "exec_bad pgdir ip =
     bind (if pgdir \<noteq> 0 then freevm pgdir else return ()) (\<lambda>_.
     bind (case ip of Some ip \<Rightarrow> bind (iunlockput ip) (\<lambda>_. end_op) | None \<Rightarrow> return ()) (\<lambda>_.
     return (-1)))"

definition exec_commit :: "addr_t \<Rightarrow> addr_t \<Rightarrow> addr_t \<Rightarrow> addr_t \<Rightarrow> uchar list \<Rightarrow> addr_t \<Rightarrow> nat \<Rightarrow> ('z run_state_scheme, int) op" where
  "exec_commit oldpgdir pgdir sz sp path start p =
     bind (set_proc p (\<lambda>x. x\<lparr>p_name := safestrcpy (p_name x) (cstr_of (path_last path)) 16\<rparr>)) (\<lambda>_.
     bind (set_proc p (\<lambda>x. x\<lparr>p_pgdir := pgdir\<rparr>)) (\<lambda>_.
     bind (set_proc p (\<lambda>x. x\<lparr>p_sz := sz\<rparr>)) (\<lambda>_.
     bind (get_proc p) (\<lambda>x.
     bind (store64 (p_tf x + tf_rip) start) (\<lambda>_.
     bind (store64 (p_tf x + tf_rcx) start) (\<lambda>_.
     bind (store64 (p_tf x + tf_rsp) sp) (\<lambda>_.
     bind (switchuvm p) (\<lambda>_.
     bind (freevm oldpgdir) (\<lambda>_.
     return 0)))))))))"

text \<open>From the stack on: the inode is released, and the registers for \<open>main\<close> are set before
  the last step that can fail.\<close>

definition exec_stack :: "addr_t \<Rightarrow> addr_t \<Rightarrow> addr_t \<Rightarrow> uchar list \<Rightarrow> uchar list list \<Rightarrow> addr_t \<Rightarrow> nat \<Rightarrow> ('z run_state_scheme, int) op" where
  "exec_stack oldpgdir pgdir sz path argv start p =
     (let sz = PGROUNDUP sz in
      bind (allocuvm pgdir sz (sz + 2 * PGSIZE)) (\<lambda>sz.
      if sz = 0 then exec_bad pgdir None
      else
        bind (clearpteu pgdir (sz - 2 * PGSIZE)) (\<lambda>_.
        bind (exec_args pgdir 0 sz argv) (\<lambda>r.
        case r of None \<Rightarrow> exec_bad pgdir None | Some (sp, ustack) \<Rightarrow>
        (let argc = of_nat (length argv) in
         bind (get_proc p) (\<lambda>x.
         bind (store64 (p_tf x + tf_rdi) argc) (\<lambda>_.
         bind (store64 (p_tf x + tf_rsi) (sp - (argc + 1) * 8)) (\<lambda>_.
         (let sp = sp - (1 + argc + 1) * 8 in
          bind (copyout pgdir sp (concat (map (to_le 8) (0xffffffffffffffff # ustack)))) (\<lambda>r.
          if r < 0 then exec_bad pgdir None
          else exec_commit oldpgdir pgdir sz sp path start p))))))))))"

definition exec :: "uchar list \<Rightarrow> uchar list \<Rightarrow> uchar list list \<Rightarrow> ('z run_state_scheme, int) op" where
  "exec junk path argv = with_current (\<lambda>p.
     bind (get_proc p) (\<lambda>x.
     (let oldpgdir = p_pgdir x in
      bind begin_op (\<lambda>_.
      bind (namei junk path) (\<lambda>ip.
      case ip of None \<Rightarrow> bind end_op (\<lambda>_. return (-1)) | Some ip \<Rightarrow>
      bind (ilock ip) (\<lambda>_.
      bind (readi ip 0 64) (\<lambda>(r, bs).
      if r \<noteq> 64 then exec_bad 0 (Some ip)
      else
        (let elf = elfhdr_of bs in
         if e_magic elf \<noteq> ELF_MAGIC then exec_bad 0 (Some ip)
         else
           bind setupkvm (\<lambda>pgdir.
           if pgdir = 0 then exec_bad 0 (Some ip)
           else
             bind (exec_load pgdir ip (unat (e_phnum elf)) PGSIZE (ucast (e_phoff elf))) (\<lambda>r.
             case r of None \<Rightarrow> exec_bad pgdir (Some ip) | Some sz \<Rightarrow>
             bind (iunlockput ip) (\<lambda>_.
             bind end_op (\<lambda>_.
             exec_stack oldpgdir pgdir sz path argv (e_entry elf) p))))))))))))"

end
