(* ===== verification/Sysfile.thy ===== *)
theory Sysfile
  imports Exec
begin

text \<open>
  The file system calls, \<open>sysfile.c\<close>. \<open>junk\<close> is the content of the uninitialised name
  buffer on the stack of a function that looks up a path. The bytes of \<open>write\<close> are fetched
  from the process before the write, those of \<open>read\<close> stored after the read.
\<close>

section \<open>Descriptors\<close>

definition argfd :: "nat \<Rightarrow> ('z run_state_scheme, (nat \<times> nat) option) op" where
  "argfd n =
     bind (argint n) (\<lambda>fd.
     with_current (\<lambda>p.
     bind (get_proc p) (\<lambda>x.
     if fd < 0 \<or> fd \<ge> int NOFILE then return None
     else return (map_option (\<lambda>f. (nat fd, f)) (p_ofile x (nat fd))))))"

definition set_ofile :: "nat \<Rightarrow> nat option \<Rightarrow> ('z run_state_scheme, unit) op" where
  "set_ofile fd f = with_current (\<lambda>p. set_proc p (\<lambda>x. x\<lparr>p_ofile := (p_ofile x)(fd := f)\<rparr>))"

definition fdalloc :: "nat \<Rightarrow> ('z run_state_scheme, nat option) op" where
  "fdalloc f = with_current (\<lambda>p.
     bind (get_proc p) (\<lambda>x.
     case find (\<lambda>fd. p_ofile x fd = None) [0..<NOFILE] of
       Some fd \<Rightarrow> bind (set_ofile fd (Some f)) (\<lambda>_. return (Some fd))
     | None \<Rightarrow> return None))"

definition sys_dup :: "('z run_state_scheme, int) op" where
  "sys_dup =
     bind (argfd 0) (\<lambda>a.
     case a of None \<Rightarrow> return (-1) | Some (_, f) \<Rightarrow>
     bind (fdalloc f) (\<lambda>r.
     case r of None \<Rightarrow> return (-1) | Some fd \<Rightarrow>
     bind (filedup f) (\<lambda>_.
     return (int fd))))"

definition sys_read :: "('z run_state_scheme, int) op" where
  "sys_read =
     bind (argfd 0) (\<lambda>a.
     case a of None \<Rightarrow> return (-1) | Some (_, f) \<Rightarrow>
     bind (argint 2) (\<lambda>n.
     bind (argptr 1 n) (\<lambda>p.
     case p of None \<Rightarrow> return (-1) | Some p \<Rightarrow>
     bind (fileread f n) (\<lambda>(r, bs).
     bind (user_write p bs) (\<lambda>_.
     return r)))))"

definition sys_write :: "('z run_state_scheme, int) op" where
  "sys_write =
     bind (argfd 0) (\<lambda>a.
     case a of None \<Rightarrow> return (-1) | Some (_, f) \<Rightarrow>
     bind (argint 2) (\<lambda>n.
     bind (argptr 1 n) (\<lambda>p.
     case p of None \<Rightarrow> return (-1) | Some p \<Rightarrow>
     bind (get_file f) (\<lambda>x.
     bind (if f_writable x then user_read (nat n) p else return []) (\<lambda>bs.
     filewrite f bs n)))))"

definition sys_close :: "('z run_state_scheme, int) op" where
  "sys_close =
     bind (argfd 0) (\<lambda>a.
     case a of None \<Rightarrow> return (-1) | Some (fd, f) \<Rightarrow>
     bind (set_ofile fd None) (\<lambda>_.
     bind (fileclose f) (\<lambda>_.
     return 0)))"

text \<open>\<open>struct stat\<close> in memory: the assignments of \<open>stati\<close> leave the padding alone.\<close>

definition put_stat :: "addr_t \<Rightarrow> stat \<Rightarrow> ('z run_state_scheme, unit) op" where
  "put_stat va st =
     bind (user_write (va + 4) (to_le 4 (st_dev st))) (\<lambda>_.
     bind (user_write (va + 8) (to_le 4 (st_ino st))) (\<lambda>_.
     bind (user_write va (to_le 2 (st_type st))) (\<lambda>_.
     bind (user_write (va + 12) (to_le 2 (st_nlink st))) (\<lambda>_.
     user_write (va + 16) (to_le 4 (st_size st))))))"

definition sys_fstat :: "('z run_state_scheme, int) op" where
  "sys_fstat =
     bind (argfd 0) (\<lambda>a.
     case a of None \<Rightarrow> return (-1) | Some (_, f) \<Rightarrow>
     bind (argptr 1 20) (\<lambda>st.
     case st of None \<Rightarrow> return (-1) | Some st \<Rightarrow>
     bind (filestat f) (\<lambda>r.
     case r of None \<Rightarrow> return (-1) | Some v \<Rightarrow> bind (put_stat st v) (\<lambda>_. return 0))))"

section \<open>Links\<close>

primrec isdirempty_from :: "nat \<Rightarrow> uint list \<Rightarrow> ('z run_state_scheme, bool) op" where
  "isdirempty_from dp [] = return True"
| "isdirempty_from dp (off # offs) =
     bind (readi dp off 16) (\<lambda>(r, bs).
     bind (panic_if (r \<noteq> 16) ''isdirempty: readi'') (\<lambda>_.
     if de_inum (dirent_of bs) \<noteq> 0 then return False else isdirempty_from dp offs))"

definition isdirempty :: "nat \<Rightarrow> ('z run_state_scheme, bool) op" where
  "isdirempty dp = bind (get_inode dp) (\<lambda>d. isdirempty_from dp (drop 2 (dirent_offs (i_size d))))"

definition sys_link_bad :: "nat \<Rightarrow> ('z run_state_scheme, int) op" where
  "sys_link_bad ip =
     bind (ilock ip) (\<lambda>_.
     bind (set_inode ip (\<lambda>i. i\<lparr>i_nlink := i_nlink i - 1\<rparr>)) (\<lambda>_.
     bind (iupdate ip) (\<lambda>_.
     bind (iunlockput ip) (\<lambda>_.
     bind end_op (\<lambda>_.
     return (-1))))))"

definition sys_link_new :: "uchar list \<Rightarrow> uchar list \<Rightarrow> nat \<Rightarrow> ('z run_state_scheme, int) op" where
  "sys_link_new junk new ip =
     bind (nameiparent new junk) (\<lambda>r.
     case r of None \<Rightarrow> sys_link_bad ip | Some (dp, name) \<Rightarrow>
     bind (ilock dp) (\<lambda>_.
     bind (get_inode dp) (\<lambda>d.
     bind (get_inode ip) (\<lambda>i.
     bind (if i_dev d \<noteq> i_dev i then return (-1) else dirlink dp name (i_inum i)) (\<lambda>r.
     if r < 0 then bind (iunlockput dp) (\<lambda>_. sys_link_bad ip)
     else
       bind (iunlockput dp) (\<lambda>_.
       bind (iput ip) (\<lambda>_.
       bind end_op (\<lambda>_.
       return 0))))))))"

definition sys_link :: "uchar list \<Rightarrow> ('z run_state_scheme, int) op" where
  "sys_link junk =
     bind (argstr 0) (\<lambda>old.
     case old of None \<Rightarrow> return (-1) | Some old \<Rightarrow>
     bind (argstr 1) (\<lambda>new.
     case new of None \<Rightarrow> return (-1) | Some new \<Rightarrow>
     bind begin_op (\<lambda>_.
     bind (namei junk old) (\<lambda>ip.
     case ip of None \<Rightarrow> bind end_op (\<lambda>_. return (-1)) | Some ip \<Rightarrow>
     bind (ilock ip) (\<lambda>_.
     bind (get_inode ip) (\<lambda>i.
     if i_type i = T_DIR then
       bind (iunlockput ip) (\<lambda>_. bind end_op (\<lambda>_. return (-1)))
     else
       bind (set_inode ip (\<lambda>i. i\<lparr>i_nlink := i_nlink i + 1\<rparr>)) (\<lambda>_.
       bind (iupdate ip) (\<lambda>_.
       bind (iunlock ip) (\<lambda>_.
       sys_link_new junk new ip)))))))))"

definition sys_unlink_bad :: "nat \<Rightarrow> ('z run_state_scheme, int) op" where
  "sys_unlink_bad dp = bind (iunlockput dp) (\<lambda>_. bind end_op (\<lambda>_. return (-1)))"

definition sys_unlink_entry :: "nat \<Rightarrow> nat \<Rightarrow> uint \<Rightarrow> ('z run_state_scheme, int) op" where
  "sys_unlink_entry dp ip off =
     bind (ilock ip) (\<lambda>_.
     bind (get_inode ip) (\<lambda>i.
     bind (panic_if (sint (i_nlink i) < 1) ''unlink: nlink < 1'') (\<lambda>_.
     bind (if i_type i = T_DIR then isdirempty ip else return True) (\<lambda>empty.
     if \<not> empty then bind (iunlockput ip) (\<lambda>_. sys_unlink_bad dp)
     else
       bind (writei dp (replicate 16 0) off 16) (\<lambda>r.
       bind (panic_if (r \<noteq> 16) ''unlink: writei'') (\<lambda>_.
       bind (if i_type i = T_DIR then
               bind (set_inode dp (\<lambda>d. d\<lparr>i_nlink := i_nlink d - 1\<rparr>)) (\<lambda>_. iupdate dp)
             else return ()) (\<lambda>_.
       bind (iunlockput dp) (\<lambda>_.
       bind (set_inode ip (\<lambda>i. i\<lparr>i_nlink := i_nlink i - 1\<rparr>)) (\<lambda>_.
       bind (iupdate ip) (\<lambda>_.
       bind (iunlockput ip) (\<lambda>_.
       bind end_op (\<lambda>_.
       return 0))))))))))))"

definition sys_unlink :: "uchar list \<Rightarrow> ('z run_state_scheme, int) op" where
  "sys_unlink junk =
     bind (argstr 0) (\<lambda>path.
     case path of None \<Rightarrow> return (-1) | Some path \<Rightarrow>
     bind begin_op (\<lambda>_.
     bind (nameiparent path junk) (\<lambda>r.
     case r of None \<Rightarrow> bind end_op (\<lambda>_. return (-1)) | Some (dp, name) \<Rightarrow>
     bind (ilock dp) (\<lambda>_.
     if namecmp name (chars ''.'') = 0 \<or> namecmp name (chars ''..'') = 0 then sys_unlink_bad dp
     else
       bind (dirlookup dp name) (\<lambda>r.
       case r of None \<Rightarrow> sys_unlink_bad dp | Some (ip, off) \<Rightarrow> sys_unlink_entry dp ip off)))))"

section \<open>Creating and opening\<close>

definition O_WRONLY :: uint where "O_WRONLY = 0x001"
definition O_RDWR :: uint where "O_RDWR = 0x002"
definition O_CREATE :: uint where "O_CREATE = 0x200"

definition create_dots :: "nat \<Rightarrow> nat \<Rightarrow> ('z run_state_scheme, unit) op" where
  "create_dots dp ip =
     bind (set_inode dp (\<lambda>d. d\<lparr>i_nlink := i_nlink d + 1\<rparr>)) (\<lambda>_.
     bind (iupdate dp) (\<lambda>_.
     bind (get_inode ip) (\<lambda>i.
     bind (dirlink ip (chars ''.'') (i_inum i)) (\<lambda>r.
     bind (panic_if (r < 0) ''create dots'') (\<lambda>_.
     bind (get_inode dp) (\<lambda>d.
     bind (dirlink ip (chars ''..'') (i_inum d)) (\<lambda>r.
     panic_if (r < 0) ''create dots'')))))))"

definition create :: "uchar list \<Rightarrow> uchar list \<Rightarrow> ushort \<Rightarrow> ushort \<Rightarrow> ushort \<Rightarrow> ('z run_state_scheme, nat option) op" where
  "create junk path type major minor =
     bind (nameiparent path junk) (\<lambda>r.
     case r of None \<Rightarrow> return None | Some (dp, name) \<Rightarrow>
     bind (ilock dp) (\<lambda>_.
     bind (dirlookup dp name) (\<lambda>r.
     case r of
       Some (ip, _) \<Rightarrow>
         bind (iunlockput dp) (\<lambda>_.
         bind (ilock ip) (\<lambda>_.
         bind (get_inode ip) (\<lambda>i.
         if type = T_FILE \<and> i_type i = T_FILE then return (Some ip)
         else bind (iunlockput ip) (\<lambda>_. return None))))
     | None \<Rightarrow>
         bind (get_inode dp) (\<lambda>d.
         bind (ialloc (i_dev d) type) (\<lambda>ip.
         bind (ilock ip) (\<lambda>_.
         bind (set_inode ip (\<lambda>i. i\<lparr>i_major := major, i_minor := minor, i_nlink := 1\<rparr>)) (\<lambda>_.
         bind (iupdate ip) (\<lambda>_.
         bind (if type = T_DIR then create_dots dp ip else return ()) (\<lambda>_.
         bind (get_inode ip) (\<lambda>i.
         bind (dirlink dp name (i_inum i)) (\<lambda>r.
         bind (panic_if (r < 0) ''create: dirlink'') (\<lambda>_.
         bind (iunlockput dp) (\<lambda>_.
         return (Some ip))))))))))))))"

definition sys_open_ip :: "uchar list \<Rightarrow> uchar list \<Rightarrow> uint \<Rightarrow> ('z run_state_scheme, nat option) op" where
  "sys_open_ip junk path omode =
     (if omode AND O_CREATE \<noteq> 0 then create junk path T_FILE 0 0
      else
        bind (namei junk path) (\<lambda>ip.
        case ip of None \<Rightarrow> return None | Some ip \<Rightarrow>
        bind (ilock ip) (\<lambda>_.
        bind (get_inode ip) (\<lambda>i.
        if i_type i = T_DIR \<and> omode \<noteq> 0 then bind (iunlockput ip) (\<lambda>_. return None)
        else return (Some ip)))))"

definition sys_open_fail :: "nat option \<Rightarrow> nat \<Rightarrow> ('z run_state_scheme, int) op" where
  "sys_open_fail f ip =
     bind (case f of Some f \<Rightarrow> fileclose f | None \<Rightarrow> return ()) (\<lambda>_.
     bind (iunlockput ip) (\<lambda>_.
     bind end_op (\<lambda>_.
     return (-1))))"

definition sys_open :: "uchar list \<Rightarrow> ('z run_state_scheme, int) op" where
  "sys_open junk =
     bind (argstr 0) (\<lambda>path.
     case path of None \<Rightarrow> return (-1) | Some path \<Rightarrow>
     bind (argint 1) (\<lambda>omode.
     (let om = word_of_int omode in
      bind begin_op (\<lambda>_.
      bind (sys_open_ip junk path om) (\<lambda>r.
      case r of None \<Rightarrow> bind end_op (\<lambda>_. return (-1)) | Some ip \<Rightarrow>
      bind filealloc (\<lambda>f.
      case f of None \<Rightarrow> sys_open_fail None ip | Some f \<Rightarrow>
      bind (fdalloc f) (\<lambda>fd.
      case fd of None \<Rightarrow> sys_open_fail (Some f) ip | Some fd \<Rightarrow>
      bind (iunlock ip) (\<lambda>_.
      bind end_op (\<lambda>_.
      bind (set_file f (\<lambda>x. x\<lparr>f_type := FD_INODE, f_ip := ip, f_off := 0, f_readable := (om AND O_WRONLY = 0),
              f_writable := (om AND O_WRONLY \<noteq> 0 \<or> om AND O_RDWR \<noteq> 0)\<rparr>)) (\<lambda>_.
      return (int fd)))))))))))"

definition sys_mk_end :: "nat option \<Rightarrow> ('z run_state_scheme, int) op" where
  "sys_mk_end r = (case r of
       None \<Rightarrow> bind end_op (\<lambda>_. return (-1))
     | Some ip \<Rightarrow> bind (iunlockput ip) (\<lambda>_. bind end_op (\<lambda>_. return 0)))"

definition sys_mkdir :: "uchar list \<Rightarrow> ('z run_state_scheme, int) op" where
  "sys_mkdir junk =
     bind begin_op (\<lambda>_.
     bind (argstr 0) (\<lambda>path.
     bind (case path of None \<Rightarrow> return None | Some path \<Rightarrow> create junk path T_DIR 0 0) (\<lambda>r.
     sys_mk_end r)))"

definition sys_mknod :: "uchar list \<Rightarrow> ('z run_state_scheme, int) op" where
  "sys_mknod junk =
     bind begin_op (\<lambda>_.
     bind (argstr 0) (\<lambda>path.
     bind (case path of None \<Rightarrow> return None | Some path \<Rightarrow>
             bind (argint 1) (\<lambda>major.
             bind (argint 2) (\<lambda>minor.
             create junk path T_DEV (word_of_int major) (word_of_int minor)))) (\<lambda>r.
     sys_mk_end r)))"

section \<open>Directory, program, pipe\<close>

definition sys_chdir :: "uchar list \<Rightarrow> ('z run_state_scheme, int) op" where
  "sys_chdir junk =
     bind begin_op (\<lambda>_.
     bind (argstr 0) (\<lambda>path.
     bind (case path of None \<Rightarrow> return None | Some path \<Rightarrow> namei junk path) (\<lambda>r.
     case r of None \<Rightarrow> bind end_op (\<lambda>_. return (-1)) | Some ip \<Rightarrow>
     bind (ilock ip) (\<lambda>_.
     bind (get_inode ip) (\<lambda>i.
     if i_type i \<noteq> T_DIR then bind (iunlockput ip) (\<lambda>_. bind end_op (\<lambda>_. return (-1)))
     else
       bind (iunlock ip) (\<lambda>_.
       with_current (\<lambda>p.
       bind (get_proc p) (\<lambda>x.
       deref (p_cwd x) (\<lambda>cwd.
       bind (iput cwd) (\<lambda>_.
       bind end_op (\<lambda>_.
       bind (set_proc p (\<lambda>x. x\<lparr>p_cwd := Some ip\<rparr>)) (\<lambda>_.
       return 0)))))))))))) "

text \<open>The loop over the user's argument vector, with the slots of \<open>argv\<close> that are left.\<close>

primrec sys_exec_args :: "nat \<Rightarrow> addr_t \<Rightarrow> ('z run_state_scheme, uchar list list option) op" where
  "sys_exec_args 0 ua = return None"
| "sys_exec_args (Suc n) ua =
     bind (fetchaddr ua) (\<lambda>uarg.
     case uarg of None \<Rightarrow> return None | Some uarg \<Rightarrow>
     if uarg = 0 then return (Some [])
     else
       bind (fetchstr uarg) (\<lambda>arg.
       case arg of None \<Rightarrow> return None | Some arg \<Rightarrow>
       bind (sys_exec_args n (ua + 8)) (\<lambda>rest.
       return (map_option ((#) arg) rest))))"

definition sys_exec :: "uchar list \<Rightarrow> ('z run_state_scheme, int) op" where
  "sys_exec junk =
     bind (argstr 0) (\<lambda>path.
     case path of None \<Rightarrow> return (-1) | Some path \<Rightarrow>
     bind (argaddr 1) (\<lambda>uargv.
     bind (sys_exec_args MAXARG uargv) (\<lambda>argv.
     case argv of None \<Rightarrow> return (-1) | Some argv \<Rightarrow> exec junk path argv)))"

definition sys_pipe_fail :: "nat option \<Rightarrow> nat \<Rightarrow> nat \<Rightarrow> ('z run_state_scheme, int) op" where
  "sys_pipe_fail fd0 rd wr =
     bind (case fd0 of Some fd \<Rightarrow> set_ofile fd None | None \<Rightarrow> return ()) (\<lambda>_.
     bind (fileclose rd) (\<lambda>_.
     bind (fileclose wr) (\<lambda>_.
     return (-1))))"

definition sys_pipe :: "('z run_state_scheme, int) op" where
  "sys_pipe =
     bind (argptr 0 8) (\<lambda>fd.
     case fd of None \<Rightarrow> return (-1) | Some fd \<Rightarrow>
     bind pipealloc (\<lambda>r.
     case r of None \<Rightarrow> return (-1) | Some (rd, wr) \<Rightarrow>
     bind (fdalloc rd) (\<lambda>fd0.
     case fd0 of None \<Rightarrow> sys_pipe_fail None rd wr | Some fd0 \<Rightarrow>
     bind (fdalloc wr) (\<lambda>fd1.
     case fd1 of None \<Rightarrow> sys_pipe_fail (Some fd0) rd wr | Some fd1 \<Rightarrow>
     bind (user_write fd (to_le 4 (of_nat fd0 :: uint))) (\<lambda>_.
     bind (user_write (fd + 4) (to_le 4 (of_nat fd1 :: uint))) (\<lambda>_.
     return 0))))))"

end
