(* ===== verification/Trap.thy ===== *)
theory Trap
  imports Sysfile
begin

text \<open>
  The entry points of the kernel: the dispatch of system calls (\<open>syscall.c\<close>), interrupts and
  exceptions (\<open>trap.c\<close>), and the order of initialisation (\<open>main.c\<close>). The interrupt descriptor
  table is written to memory; the acknowledgement to the local interrupt controller has no
  effect on this state.
\<close>

section \<open>System calls\<close>

definition SYS_fork :: addr_t where "SYS_fork = 1"
definition SYS_exit :: addr_t where "SYS_exit = 2"
definition SYS_wait :: addr_t where "SYS_wait = 3"
definition SYS_pipe :: addr_t where "SYS_pipe = 4"
definition SYS_read :: addr_t where "SYS_read = 5"
definition SYS_kill :: addr_t where "SYS_kill = 6"
definition SYS_exec :: addr_t where "SYS_exec = 7"
definition SYS_fstat :: addr_t where "SYS_fstat = 8"
definition SYS_chdir :: addr_t where "SYS_chdir = 9"
definition SYS_dup :: addr_t where "SYS_dup = 10"
definition SYS_getpid :: addr_t where "SYS_getpid = 11"
definition SYS_sbrk :: addr_t where "SYS_sbrk = 12"
definition SYS_sleep :: addr_t where "SYS_sleep = 13"
definition SYS_uptime :: addr_t where "SYS_uptime = 14"
definition SYS_open :: addr_t where "SYS_open = 15"
definition SYS_write :: addr_t where "SYS_write = 16"
definition SYS_mknod :: addr_t where "SYS_mknod = 17"
definition SYS_unlink :: addr_t where "SYS_unlink = 18"
definition SYS_link :: addr_t where "SYS_link = 19"
definition SYS_mkdir :: addr_t where "SYS_mkdir = 20"
definition SYS_close :: addr_t where "SYS_close = 21"

text \<open>
  Most system calls are defined with result type \<open>int\<close> and called through a pointer to a
  function with result type \<open>addr_t\<close>; what the upper half of the register then holds is up
  to the compiler. \<open>ext\<close> is that extension.
\<close>

definition int_call :: "(uint \<Rightarrow> addr_t) \<Rightarrow> ('s, int) op \<Rightarrow> ('s, addr_t) op" where
  "int_call ext f = bind f (\<lambda>r. return (ext (word_of_int r)))"

definition syscalls :: "(uint \<Rightarrow> addr_t) \<Rightarrow> uchar list \<Rightarrow> (addr_t \<times> ('z run_state_scheme, addr_t) op) list" where
  "syscalls ext junk =
    [(SYS_fork, int_call ext sys_fork),
     (SYS_exit, int_call ext sys_exit),
     (SYS_wait, int_call ext sys_wait),
     (SYS_pipe, int_call ext sys_pipe),
     (SYS_read, int_call ext sys_read),
     (SYS_kill, int_call ext sys_kill),
     (SYS_exec, int_call ext (sys_exec junk)),
     (SYS_fstat, int_call ext sys_fstat),
     (SYS_chdir, int_call ext (sys_chdir junk)),
     (SYS_dup, int_call ext sys_dup),
     (SYS_getpid, int_call ext sys_getpid),
     (SYS_sbrk, sys_sbrk),
     (SYS_sleep, int_call ext sys_sleep),
     (SYS_uptime, int_call ext sys_uptime),
     (SYS_open, int_call ext (sys_open junk)),
     (SYS_write, int_call ext sys_write),
     (SYS_mknod, int_call ext (sys_mknod junk)),
     (SYS_unlink, int_call ext (sys_unlink junk)),
     (SYS_link, int_call ext (sys_link junk)),
     (SYS_mkdir, int_call ext (sys_mkdir junk)),
     (SYS_close, int_call ext sys_close)]"

definition proc_name :: "proc \<Rightarrow> uchar list" where
  "proc_name x = takeWhile (\<lambda>c. c \<noteq> 0) (p_name x)"

definition low_int :: "addr_t \<Rightarrow> int" where
  "low_int v = sint (ucast v :: uint)"

definition syscall :: "(uint \<Rightarrow> addr_t) \<Rightarrow> uchar list \<Rightarrow> addr_t \<Rightarrow> ('z run_state_scheme, unit) op" where
  "syscall ext junk tf = with_current (\<lambda>p.
     bind (set_proc p (\<lambda>x. x\<lparr>p_tf := tf\<rparr>)) (\<lambda>_.
     bind (load64 (tf + tf_rax)) (\<lambda>num.
     bind (case map_of (syscalls ext junk) num of
             Some f \<Rightarrow> bind f (\<lambda>r. store64 (tf + tf_rax) r)
           | None \<Rightarrow>
               bind (get_proc p) (\<lambda>x.
               bind (cprintf (''%d %s: unknown sys call %d'' @ [CHR 0x0A])
                       [Arg_int (sint (p_pid x)), Arg_str (Some (proc_name x)), Arg_int (low_int num)]) (\<lambda>_.
               store64 (tf + tf_rax) (-1)))) (\<lambda>_.
     bind (get_proc p) (\<lambda>x.
     if p_killed x \<noteq> 0 then exit else return ())))))"

section \<open>Traps\<close>

definition T_IRQ0 :: addr_t where "T_IRQ0 = 32"
definition IRQ_TIMER :: addr_t where "IRQ_TIMER = 0"
definition IRQ_KBD :: addr_t where "IRQ_KBD = 1"
definition IRQ_COM1 :: addr_t where "IRQ_COM1 = 4"
definition IRQ_IDE :: addr_t where "IRQ_IDE = 14"
definition IRQ_SPURIOUS :: addr_t where "IRQ_SPURIOUS = 31"
definition DPL_USER :: addr_t where "DPL_USER = 3"
definition KERNEL_CS :: addr_t where "KERNEL_CS = 8"

definition mkgate :: "addr_t \<Rightarrow> nat \<Rightarrow> addr_t \<Rightarrow> uint \<Rightarrow> ('z kmem_state_scheme, unit) op" where
  "mkgate idt n kva pl =
     (let e = idt + of_nat (16 * n) in
      bind (copy_in e (to_le 4 ((ucast ((kva AND 0xFFFF) OR push_bit 16 KERNEL_CS)) :: uint))) (\<lambda>_.
      bind (copy_in (e + 4) (to_le 4 ((ucast ((kva AND 0xFFFF0000) OR 0x8E00) OR push_bit 13 (pl AND 3)) :: uint))) (\<lambda>_.
      bind (copy_in (e + 8) (to_le 4 ((ucast (drop_bit 32 kva)) :: uint))) (\<lambda>_.
      copy_in (e + 12) (to_le 4 (0 :: uint))))))"

definition tvinit :: "(nat \<Rightarrow> addr_t) \<Rightarrow> ('z kmem_state_scheme, addr_t) op" where
  "tvinit vectors =
     bind kalloc (\<lambda>idt.
     bind (clear_page idt) (\<lambda>_.
     bind (for_each [0..<256] (\<lambda>n. mkgate idt n (vectors n) 0)) (\<lambda>_.
     return idt)))"

definition timer_tick :: "('z run_state_scheme, unit) op" where
  "timer_tick =
     bind (gets mycpu) (\<lambda>c.
     if c = 0 then
       bind (acquire L_ticks) (\<lambda>_.
       bind (modify (\<lambda>s. s\<lparr>ticks := ticks s + 1\<rparr>)) (\<lambda>_.
       bind (wakeup ChTicks) (\<lambda>_.
       release L_ticks)))
     else return ())"

definition trap_user :: "addr_t \<Rightarrow> ('z run_state_scheme, bool) op" where
  "trap_user cs =
     bind (gets this_proc) (\<lambda>cp.
     case cp of None \<Rightarrow> return False | Some p \<Rightarrow>
     bind (get_proc p) (\<lambda>x.
     return (p_killed x \<noteq> 0 \<and> cs AND 3 = DPL_USER)))"

text \<open>The exceptions; \<open>cr2\<close> is the faulting address the processor reports.\<close>

definition trap_default :: "addr_t \<Rightarrow> addr_t \<Rightarrow> addr_t \<Rightarrow> addr_t \<Rightarrow> addr_t \<Rightarrow> ('z run_state_scheme, unit) op" where
  "trap_default cr2 trapno cs rip err =
     bind (gets mycpu) (\<lambda>c.
     bind (gets this_proc) (\<lambda>cp.
     if cp = None \<or> cs AND 3 = 0 then
       bind (cprintf (''unexpected trap %d from cpu %d rip %p (cr2=0x%p)'' @ [CHR 0x0A])
               [Arg_int (low_int trapno), Arg_int (int c), Arg_addr rip, Arg_addr cr2]) (\<lambda>_.
       bind (case cp of None \<Rightarrow> return () | Some p \<Rightarrow>
               bind (get_proc p) (\<lambda>x. cprintf (''proc id: %d'' @ [CHR 0x0A]) [Arg_int (sint (p_pid x))])) (\<lambda>_.
       panic ''trap''))
     else
       deref cp (\<lambda>p.
       bind (get_proc p) (\<lambda>x.
       bind (cprintf (''pid %d %s: trap %d err %d on cpu %d rip 0x%p addr 0x%p--kill proc'' @ [CHR 0x0A])
               [Arg_int (sint (p_pid x)), Arg_str (Some (proc_name x)), Arg_int (low_int trapno), Arg_int (low_int err),
                Arg_int (int c), Arg_addr rip, Arg_addr cr2]) (\<lambda>_.
       set_proc p (\<lambda>x. x\<lparr>p_killed := 1\<rparr>))))))"

definition trap_dispatch :: "addr_t \<Rightarrow> addr_t \<Rightarrow> addr_t \<Rightarrow> addr_t \<Rightarrow> addr_t \<Rightarrow> ('z run_state_scheme, unit) op" where
  "trap_dispatch cr2 trapno cs rip err =
     (if trapno = T_IRQ0 + IRQ_TIMER then timer_tick
      else if trapno = T_IRQ0 + IRQ_IDE then ideintr
      else if trapno = T_IRQ0 + IRQ_IDE + 1 then return ()
      else if trapno = T_IRQ0 + IRQ_KBD then kbdintr
      else if trapno = T_IRQ0 + IRQ_COM1 then uartintr
      else if trapno = T_IRQ0 + 7 \<or> trapno = T_IRQ0 + IRQ_SPURIOUS then
        bind (gets mycpu) (\<lambda>c.
        cprintf (''cpu%d: spurious interrupt at %p:%p'' @ [CHR 0x0A]) [Arg_int (int c), Arg_addr cs, Arg_addr rip])
      else trap_default cr2 trapno cs rip err)"

text \<open>
  \<open>trap\<close> up to the point where the process gives up the processor on a clock tick, in which
  case the result is the value the switch saves; and what it does when it is back.
\<close>

definition trap_last :: "addr_t \<Rightarrow> ('z run_state_scheme, unit) op" where
  "trap_last tf =
     bind (load64 (tf + tf_cs)) (\<lambda>cs.
     bind (trap_user cs) (\<lambda>k.
     if k then exit else return ()))"

definition trap :: "addr_t \<Rightarrow> addr_t \<Rightarrow> ('z run_state_scheme, bool option) op" where
  "trap cr2 tf =
     bind (load64 (tf + tf_trapno)) (\<lambda>trapno.
     bind (load64 (tf + tf_cs)) (\<lambda>cs.
     bind (load64 (tf + tf_rip)) (\<lambda>rip.
     bind (load64 (tf + tf_err)) (\<lambda>err.
     bind (trap_dispatch cr2 trapno cs rip err) (\<lambda>_.
     bind (trap_last tf) (\<lambda>_.
     bind (gets (\<lambda>s. case this_proc s of None \<Rightarrow> False | Some p \<Rightarrow> p_state (ptable s p) = RUNNING)) (\<lambda>running.
     if running \<and> trapno = T_IRQ0 + IRQ_TIMER then
       bind yield_down (\<lambda>intena. return (Some intena))
     else
       bind (trap_last tf) (\<lambda>_. return None))))))))"

definition trap_resume :: "bool \<Rightarrow> addr_t \<Rightarrow> ('z run_state_scheme, unit) op" where
  "trap_resume intena tf = bind (yield_up intena) (\<lambda>_. trap_last tf)"

end
