(* ===== verification/Balloc.thy ===== *)
theory Balloc
  imports Inode
begin

text \<open>
  What the block layer of \<open>fs.c\<close> promises inside a transaction: \<open>balloc\<close> takes the first
  free block of the bitmap and clears it, \<open>bfree\<close> gives a block back. The promises are stated
  with the \<open>tx\<close> relation of the log: which blocks read differently afterwards, with the disk
  untouched until the commit.
\<close>

section \<open>Bitmaps\<close>

lemma bitmap_bit_alt: "bitmap_bit d bi = bit (d ! (bi div 8)) (bi mod 8)"
  by (simp add: bitmap_bit_def bit_iff_and_push_bit_not_eq_0)

lemma length_bitmap [simp]: "length (bitmap_set bi d) = length d" "length (bitmap_clear bi d) = length d"
  by (simp_all add: bitmap_set_def bitmap_clear_def)

lemma bitmap_bit_set:
  assumes "bi < 8 * length d"
  shows "bitmap_bit (bitmap_set bi d) bj \<longleftrightarrow> bj = bi \<or> bitmap_bit d bj"
proof (cases "bj div 8 = bi div 8")
  case True
  have "bi div 8 < length d" using assms by auto
  moreover have "bj mod 8 = bi mod 8 \<longleftrightarrow> bj = bi" using True by (metis div_mult_mod_eq)
  ultimately show ?thesis
    using True by (auto simp: bitmap_bit_alt bitmap_set_def bit_simps)
next
  case False
  then show ?thesis by (auto simp: bitmap_bit_alt bitmap_set_def)
qed

lemma bitmap_bit_clear:
  assumes "bi < 8 * length d"
  shows "bitmap_bit (bitmap_clear bi d) bj \<longleftrightarrow> bj \<noteq> bi \<and> bitmap_bit d bj"
proof (cases "bj div 8 = bi div 8")
  case True
  have "bi div 8 < length d" using assms by auto
  moreover have "bj mod 8 = bi mod 8 \<longleftrightarrow> bj = bi" using True by (metis div_mult_mod_eq)
  ultimately show ?thesis
    using True by (auto simp: bitmap_bit_alt bitmap_clear_def bit_simps)
next
  case False
  then show ?thesis by (auto simp: bitmap_bit_alt bitmap_clear_def)
qed

lemma bitmap_clear_set:
  assumes "bi < 8 * length d" and "\<not> bitmap_bit d bi"
  shows "bitmap_clear bi (bitmap_set bi d) = d"
proof -
  have "bi div 8 < length d" using assms(1) by auto
  moreover have "(d ! (bi div 8) OR push_bit (bi mod 8) 1) AND NOT (push_bit (bi mod 8) 1) = d ! (bi div 8)"
    using assms(2) by (intro bit_eqI) (auto simp: bit_simps bitmap_bit_alt)
  ultimately show ?thesis by (simp add: bitmap_clear_def bitmap_set_def)
qed

section \<open>Changing a block in a transaction\<close>

text \<open>The pattern of every writer of the file system: read, change, log, release.\<close>

definition update_block :: "uint \<Rightarrow> (block \<Rightarrow> block) \<Rightarrow> ('z log_state_scheme, unit) op" where
  "update_block n f = bind (bread 1 n) (\<lambda>bp. bind (set_buf bp (\<lambda>b. b\<lparr>b_data := f (b_data b)\<rparr>)) (\<lambda>_.
     bind (log_write bp) (\<lambda>_. brelse bp)))"

text \<open>
  A file system operation is running, the block may be changed, and there is room in the log
  for \<open>k\<close> more blocks besides the buffers in use.
\<close>

definition in_op :: "'z log_state_scheme \<Rightarrow> nat \<Rightarrow> bool" where
  "in_op s k \<longleftrightarrow> log_inv s \<and> 1 \<le> log_outstanding s \<and> k + card (held s) \<le> log_space s"

definition target :: "'z log_state_scheme \<Rightarrow> uint \<Rightarrow> bool" where
  "target s n \<longleftrightarrow> home s n \<and> (\<forall>i\<in>held s. b_blockno (bufs s i) \<noteq> n)"

lemma in_opD:
  assumes "in_op s k"
  shows "log_inv s" "1 \<le> log_outstanding s" "card (held s) \<le> log_space s" "0 < k \<Longrightarrow> 0 < log_space s"
    "bio_inv s" "length (blk s n) = 512"
  using assms blk_length [of s n] by (auto simp: in_op_def log_inv_def)

lemma in_op_mono: "in_op s k \<Longrightarrow> j \<le> k \<Longrightarrow> in_op s j"
  by (simp add: in_op_def)

lemma in_op_tx:
  assumes s: "in_op s k" and t: "tx s N g t" and N: "finite N" "card N \<le> j" "j \<le> k"
  shows "in_op t (k - j)"
proof -
  have "log_space s \<le> log_space t + card N" by (rule tx_space [OF in_opD(1) [OF s] t N(1)])
  then show ?thesis
    using s N txD(1,3) [OF t] tframe_log(2) [OF txD(2) [OF t]] by (simp add: in_op_def) linarith
qed

lemma target_tx:
  assumes "tx s N g t"
  shows "target t n = target s n"
proof -
  have "b_blockno (bufs t i) = b_blockno (bufs s i)" if "i \<in> held s" for i
    using txD(8) [OF assms that] by (simp add: same_view_def)
  then show ?thesis
    using txD(3) [OF assms] tframe_log(7) [OF txD(2) [OF assms]] by (simp add: target_def)
qed

lemma target_ready: "in_op s k \<Longrightarrow> target s n \<Longrightarrow> bready s n"
  by (intro tx_ready) (auto simp: target_def home_def in_op_def)

lemma update_block_run:
  fixes s :: "'z log_state_scheme"
  assumes "in_op s (Suc k)" and "target s n" and "length (f (blk s n)) = 512"
  shows "\<exists>t. update_block n f s = Ok () t \<and> tx s {n} ((blk s)(n := f (blk s n))) t"
proof -
  obtain i t u v where r: "bread 1 n s = Ok i t" "bread_post s n i t"
    "log_write i (with_buf i (\<lambda>b. b\<lparr>b_data := f (blk s n)\<rparr>) t) = Ok () u" "brelse i u = Ok () v"
    "tx s {n} ((blk s)(n := f (blk s n))) v"
    using log_update_chain [of s n "f (blk s n)"] in_opD [OF assms(1)] assms(2,3) by (auto simp: target_def)
  have "update_block n f s = Ok () v"
    using r(3,4) by (simp add: update_block_def r(1) with_buf_data [OF bread_postD(7) [OF r(2)]])
  with r show ?thesis by blast
qed

lemma read_block_tx:
  fixes s :: "'z log_state_scheme"
  assumes "in_op s k" and "target s n"
  shows "\<exists>t. read_block n f s = Ok (f (blk s n)) t \<and> tx s {} (blk s) t"
proof -
  from read_block_run [OF target_ready [OF assms]] obtain t where "read_block n f s = Ok (f (blk s n)) t" "bsame s t" by blast
  with bsame_tx [OF in_opD(1) [OF assms(1)]] show ?thesis by blast
qed

lemma bzero_run:
  assumes "in_op s (Suc k)" and "target s n"
  shows "\<exists>t. bzero 1 n s = Ok () t \<and> tx s {n} ((blk s)(n := zero_block)) t"
  using update_block_run [OF assms, of "\<lambda>_. zero_block"]
  by (simp add: update_block_def bzero_def zero_block_def)

section \<open>Allocating and freeing blocks\<close>

abbreviation bmap_block :: "'z inode_state_scheme \<Rightarrow> uint" where
  "bmap_block s \<equiv> sb_bmapstart (sb s)"

definition in_use :: "'z inode_state_scheme \<Rightarrow> nat \<Rightarrow> bool" where
  "in_use s b = bitmap_bit (blk s (bmap_block s)) b"

text \<open>
  The super block in memory describes the disk: the bitmap is one block, which can be
  changed, and the blocks that the bitmap calls free belong to no one.
\<close>

definition bitmap_ok :: "'z inode_state_scheme \<Rightarrow> bool" where
  "bitmap_ok s \<longleftrightarrow> 0 < unat (sb_size (sb s)) \<and> unat (sb_size (sb s)) \<le> FSSIZE \<and> target s (bmap_block s)
     \<and> (\<forall>b. b < unat (sb_size (sb s)) \<and> \<not> in_use s b \<longrightarrow> target s (of_nat b) \<and> of_nat b \<noteq> bmap_block s)"

lemma bitmap_starts_one: "0 < sz \<Longrightarrow> sz \<le> 4096 \<Longrightarrow> bitmap_starts sz = [0]"
proof -
  assume "0 < sz" "sz \<le> 4096"
  then have "(sz + BPB - 1) div BPB = 1" by (intro div_nat_eqI) auto
  then show ?thesis by (simp add: bitmap_starts_def)
qed

lemma takeWhile_upt: "takeWhile (\<lambda>i. i < n) [0..<m] = [0..<min n m]"
proof -
  have "takeWhile (\<lambda>i. i < n) [0..<m] = take n [0..<m]" by (rule takeWhile_eq_take_P_nth) auto
  then show ?thesis by (simp add: take_upt min_def)
qed

lemma balloc_scan_first:
  assumes "sz \<le> FSSIZE"
  shows "balloc_scan 0 sz d = find (\<lambda>bi. \<not> bitmap_bit d bi) [0..<sz]"
  using assms by (simp add: balloc_scan_def takeWhile_upt min_def)

lemma bframe_inode:
  fixes s :: "'z inode_state_scheme"
  assumes "bframe s t"
  shows "sb t = sb s" "inodes t = inodes s" "inode_state.more t = inode_state.more s"
  using assms by (auto simp: bframe_def)

lemma tx_inode:
  fixes s :: "'z inode_state_scheme"
  assumes "tx s N g t"
  shows "sb t = sb s" "inodes t = inodes s" "inode_state.more t = inode_state.more s"
  using bframe_inode [OF txD(2) [OF assms]] by simp_all

text \<open>One round of the loop of \<open>balloc\<close>, as the patterns above.\<close>

lemma balloc_run_found:
  fixes s :: "'z inode_state_scheme"
  assumes s: "in_op s (Suc (Suc k))" "bitmap_ok s"
    and bi: "find (\<lambda>b. \<not> in_use s b) [0..<unat (sb_size (sb s))] = Some bi"
  shows "\<exists>t. balloc 1 s = Ok (of_nat bi) t
    \<and> tx s {bmap_block s, of_nat bi} ((blk s)(bmap_block s := bitmap_set bi (blk s (bmap_block s)), of_nat bi := zero_block)) t"
proof -
  let ?m = "bmap_block s" and ?b = "of_nat bi :: uint"
  note sz = s(2) [unfolded bitmap_ok_def]
  have scan: "balloc_scan 0 (unat (sb_size (sb s))) (blk s ?m) = Some bi"
    using bi sz by (simp add: balloc_scan_first in_use_def)
  have b: "bi < unat (sb_size (sb s))" "\<not> in_use s bi" using find_SomeD [OF bi] by auto
  then have tb: "target s ?b" "?b \<noteq> ?m" using sz by blast+
  have tm: "target s ?m" using sz by blast
  have "length (bitmap_set bi (blk s ?m)) = 512" using in_opD(6) [OF s(1)] by simp
  then obtain i t u v where r: "bread 1 ?m s = Ok i t" "bread_post s ?m i t"
    "log_write i (with_buf i (\<lambda>b. b\<lparr>b_data := bitmap_set bi (blk s ?m)\<rparr>) t) = Ok () u" "brelse i u = Ok () v"
    and v: "tx s {?m} ((blk s)(?m := bitmap_set bi (blk s ?m))) v"
    using log_update_chain [of s ?m "bitmap_set bi (blk s ?m)"] in_opD [OF s(1)] tm by (auto simp: target_def)
  have "in_op v (Suc k)" using in_op_tx [OF s(1) v, of 1] by simp
  moreover have "target v ?b" using tb(1) by (simp add: target_tx [OF v])
  ultimately obtain w where w: "bzero 1 ?b v = Ok () w" "tx v {?b} ((blk v)(?b := zero_block)) w"
    using bzero_run by blast
  have "balloc 1 s = Ok ?b w"
    using sz scan r(3,4) w(1)
    by (simp add: balloc_def bitmap_starts_one BBLOCK_def r(1) bread_postD(7) [OF r(2)] with_buf_data [OF bread_postD(7) [OF r(2)]])
  moreover have "tx s {?m, ?b} ((blk s)(?m := bitmap_set bi (blk s ?m), ?b := zero_block)) w"
    using tx_trans [OF v w(2)] txD(4) [OF v] by (simp add: insert_commute)
  ultimately show ?thesis by blast
qed

lemma balloc_run_full:
  fixes s :: "'z inode_state_scheme"
  assumes s: "in_op s k" "bitmap_ok s" and full: "\<And>b. b < unat (sb_size (sb s)) \<Longrightarrow> in_use s b"
  shows "balloc 1 s = Panic ''balloc: out of blocks''"
proof -
  let ?m = "bmap_block s"
  note sz = s(2) [unfolded bitmap_ok_def]
  have scan: "balloc_scan 0 (unat (sb_size (sb s))) (blk s ?m) = None"
    using full sz by (simp add: balloc_scan_first in_use_def find_None_iff)
  have "bready s ?m" using target_ready [OF s(1)] sz by blast
  then obtain i t u where r: "bread 1 ?m s = Ok i t" "bread_post s ?m i t" "brelse i t = Ok () u"
    using bread_brelse by blast
  then show ?thesis
    using sz scan by (simp add: balloc_def bitmap_starts_one BBLOCK_def bread_postD(7) [OF r(2)])
qed

text \<open>The super block on the disk, which \<open>bfree\<close> reads again, is the one in memory.\<close>

definition sb_ok :: "'z inode_state_scheme \<Rightarrow> bool" where
  "sb_ok s \<longleftrightarrow> target s 1 \<and> superblock_of (blk s 1) = sb s \<and> bmap_block s \<noteq> 1 \<and> in_use s 1"

lemma readsb_run:
  fixes s :: "'z inode_state_scheme"
  assumes "in_op s k" and "sb_ok s"
  shows "\<exists>t. readsb 1 s = Ok (sb s) t \<and> tx s {} (blk s) t"
  using read_block_tx [OF assms(1), of 1 superblock_of] assms(2)
  by (simp add: readsb_def read_block_def sb_ok_def)

lemma set_same_sb: "sb s = x \<Longrightarrow> s\<lparr>sb := x\<rparr> = s"
  by auto

lemma bblock_first: "unat b < FSSIZE \<Longrightarrow> BBLOCK b x = sb_bmapstart x"
proof -
  assume "unat b < FSSIZE"
  then have "b div 4096 = 0" by (simp add: word_arith_nat_div)
  then show ?thesis by (simp add: BBLOCK_def)
qed

lemma bfree_run:
  fixes s :: "'z inode_state_scheme"
  assumes s: "in_op s (Suc k)" "bitmap_ok s" "sb_ok s" and b: "unat b < FSSIZE" "in_use s (unat b)"
  shows "\<exists>t. bfree 1 b s = Ok () t
    \<and> tx s {bmap_block s} ((blk s)(bmap_block s := bitmap_clear (unat b) (blk s (bmap_block s)))) t"
proof -
  let ?m = "bmap_block s" and ?d = "bitmap_clear (unat b) (blk s (bmap_block s))"
  obtain t where t: "readsb 1 s = Ok (sb s) t" "tx s {} (blk s) t" using readsb_run [OF s(1,3)] by blast
  have bt: "blk t = blk s" "sb t = sb s" using txD(4) [OF t(2)] tx_inode [OF t(2)] by auto
  have it: "in_op t (Suc k)" using in_op_tx [OF s(1) t(2), of 0] by simp
  have tm: "target t ?m" using s(2) by (simp add: target_tx [OF t(2)] bitmap_ok_def)
  have "length ?d = 512" using in_opD(6) [OF s(1)] by simp
  then obtain i v u w where r: "bread 1 ?m t = Ok i v" "bread_post t ?m i v"
    "log_write i (with_buf i (\<lambda>b. b\<lparr>b_data := ?d\<rparr>) v) = Ok () u" "brelse i u = Ok () w"
    and w: "tx t {?m} ((blk t)(?m := ?d)) w"
    using log_update_chain [of t ?m ?d] in_opD [OF it] tm by (auto simp: target_def)
  have "bfree 1 b s = Ok () w"
    using b r(3,4) bread_postD(7) [OF r(2)]
    by (simp add: bfree_def t(1) set_same_sb [OF bt(2)] bblock_first r(1) bt in_use_def with_buf_data)
  moreover have "tx s {?m} ((blk s)(?m := ?d)) w" using tx_trans [OF t(2) w] by (simp add: bt)
  ultimately show ?thesis by blast
qed

lemma bfree_twice:
  fixes s :: "'z inode_state_scheme"
  assumes s: "in_op s k" "bitmap_ok s" "sb_ok s" and b: "unat b < FSSIZE" "\<not> in_use s (unat b)"
  shows "bfree 1 b s = Panic ''freeing free block''"
proof -
  let ?m = "bmap_block s"
  obtain t where t: "readsb 1 s = Ok (sb s) t" "tx s {} (blk s) t" using readsb_run [OF s(1,3)] by blast
  have bt: "blk t = blk s" "sb t = sb s" using txD(4) [OF t(2)] tx_inode [OF t(2)] by auto
  have it: "in_op t k" using in_op_tx [OF s(1) t(2), of 0] by simp
  have "bready t ?m" using target_ready [OF it] s(2) by (simp add: target_tx [OF t(2)] bitmap_ok_def)
  then obtain i u where "bread 1 ?m t = Ok i u" "bread_post t ?m i u" using bready_bread by blast
  then show ?thesis
    using b bread_postD(7) [of t ?m i u]
    by (simp add: bfree_def t(1) set_same_sb [OF bt(2)] bblock_first bt in_use_def)
qed

text \<open>Both invariants survive every step that keeps the super block and frees only usable blocks.\<close>

lemma bitmap_ok_tx:
  fixes s :: "'z inode_state_scheme"
  assumes "bitmap_ok s" and "tx s N g t"
    and "\<And>b. b < unat (sb_size (sb s)) \<Longrightarrow> in_use s b \<Longrightarrow> \<not> in_use t b \<Longrightarrow> target s (of_nat b) \<and> of_nat b \<noteq> bmap_block s"
  shows "bitmap_ok t"
  using assms(1,3) unfolding bitmap_ok_def by (auto simp: tx_inode [OF assms(2)] target_tx [OF assms(2)])

lemma sb_ok_tx:
  fixes s :: "'z inode_state_scheme"
  assumes "sb_ok s" and "tx s N g t" and "blk t 1 = blk s 1" and "in_use t 1"
  shows "sb_ok t"
  using assms by (simp add: sb_ok_def tx_inode [OF assms(2)] target_tx [OF assms(2)])

lemma in_use_tx:
  fixes s :: "'z inode_state_scheme"
  assumes "tx s N g t"
  shows "in_use t b = bitmap_bit (g (bmap_block s)) b"
  by (simp add: in_use_def tx_inode [OF assms] txD(4) [OF assms])

lemma find_free_target:
  assumes "bitmap_ok s" and "find (\<lambda>b. \<not> in_use s b) [0..<unat (sb_size (sb s))] = Some b"
  shows "b < FSSIZE" "\<not> in_use s b" "target s (of_nat b)" "of_nat b \<noteq> bmap_block s" "unat (of_nat b :: uint) = b"
proof -
  have b: "b < unat (sb_size (sb s))" "\<not> in_use s b" using find_SomeD [OF assms(2)] by auto
  then show "\<not> in_use s b" "target s (of_nat b)" "of_nat b \<noteq> bmap_block s" "b < FSSIZE"
    using assms(1) by (auto simp: bitmap_ok_def)
  then show "unat (of_nat b :: uint) = b" by (simp add: unat_of_nat)
qed

section \<open>Properties\<close>

text \<open>A disk as \<open>mkfs\<close> makes it, with the blocks below 64 in use.\<close>

definition sample_disk :: "nat \<Rightarrow> block" where
  "sample_disk n = (if n = 1 then superblock_bytes mkfs_sb @ replicate 484 0
     else if n = 58 then replicate 8 255 @ replicate 504 0 else zero_block)"

lemma length_superblock_bytes [simp]: "length (superblock_bytes x) = 28"
  by (simp add: superblock_bytes_def)

lemma length_sample_disk [simp]: "length (sample_disk n) = 512"
  by (simp add: sample_disk_def zero_block_def)

lemma bit_byte_ones: "k < 8 \<Longrightarrow> bit (255 :: uchar) k"
  by (simp add: less_Suc_eq numeral_eq_Suc bit_Suc) (auto simp: numeral_eq_Suc bit_Suc)

lemma sample_bitmap: "bitmap_bit (sample_disk 58) b \<longleftrightarrow> b < 64" if "b < 4096"
proof -
  have "b div 8 < 512" using that by auto
  moreover have "bit (255 :: uchar) (b mod 8)" by (rule bit_byte_ones) simp
  ultimately show ?thesis
    by (auto simp: bitmap_bit_alt sample_disk_def nth_append)
qed


abbreviation sample_machine :: inode_state where
  "sample_machine \<equiv> inode_boot sample_disk ()"

lemma sample_log: "log_inv (inode_boot sample_disk z)" "log_outstanding (inode_boot sample_disk z) = 1" "held (inode_boot sample_disk z) = {}"
  "log_space (inode_boot sample_disk z) = 29" "home (inode_boot sample_disk z) n \<longleftrightarrow> unat n < 1000 \<and> unat n \<notin> {2..<32}"
  "blk (inode_boot sample_disk z) n = sample_disk (unat n)"
proof -
  show "log_inv (inode_boot sample_disk z)"
    unfolding inode_boot_def by (rule txn_boot_inv) (simp_all add: sample_disk_def)
qed (simp_all add: inode_boot_def log_space_def empty_header_def home_def log_area_def)

lemma sample_in_op: "k \<le> 29 \<Longrightarrow> in_op (inode_boot sample_disk z) k"
  by (simp add: in_op_def sample_log)

lemma sample_in_use: "b < 1000 \<Longrightarrow> in_use sample_machine b \<longleftrightarrow> b < 64"
  using sample_bitmap [of b] by (simp add: in_use_def sample_log mkfs_sb_def)

lemma sample_bitmap_ok: "bitmap_ok sample_machine" "sb_ok sample_machine"
proof -
  have "target sample_machine (of_nat b) \<and> (of_nat b :: uint) \<noteq> 58" if "b < 1000" "\<not> in_use sample_machine b" for b
    using that by (auto simp: sample_in_use target_def sample_log unat_of_nat unat_eq_iff_word [symmetric])
  then show "bitmap_ok sample_machine"
    by (auto simp: bitmap_ok_def mkfs_sb_def target_def sample_log)
  show "sb_ok sample_machine"
    by (simp add: sb_ok_def target_def sample_log sample_in_use) (simp add: sample_disk_def superblock_of_bytes mkfs_sb_def)
qed

text \<open>
  C26: Inside a transaction, on a disk with a free block, \<open>balloc\<close> returns the first free
  block: it marks it in use and clears it, changes no other block and no other bit of the
  bitmap, and does not write to the disk. With no free block it panics.
\<close>

theorem balloc_first_free:
  assumes "in_op s 2" and "bitmap_ok s"
  shows "case find (\<lambda>b. \<not> in_use s b) [0..<unat (sb_size (sb s))] of
      None \<Rightarrow> balloc 1 s = Panic ''balloc: out of blocks''
    | Some b \<Rightarrow> \<exists>t. balloc 1 s = Ok (of_nat b) t \<and> log_inv t \<and> disk t = disk s
        \<and> blk t (of_nat b) = zero_block \<and> (\<forall>c. in_use t c = (c = b \<or> in_use s c))
        \<and> (\<forall>n. n \<noteq> of_nat b \<longrightarrow> n \<noteq> bmap_block s \<longrightarrow> blk t n = blk s n)"
proof (cases "find (\<lambda>b. \<not> in_use s b) [0..<unat (sb_size (sb s))]")
  case None
  then have "balloc 1 s = Panic ''balloc: out of blocks''"
    using balloc_run_full [OF assms] by (simp add: find_None_iff)
  with None show ?thesis by simp
next
  case (Some b)
  have k: "in_op s (Suc (Suc 0))" using assms(1) by (simp add: numeral_2_eq_2)
  obtain t where t: "balloc 1 s = Ok (of_nat b) t"
    "tx s {bmap_block s, of_nat b} ((blk s)(bmap_block s := bitmap_set b (blk s (bmap_block s)), of_nat b := zero_block)) t"
    using balloc_run_found [OF k assms(2) Some] by blast
  have b: "b < unat (sb_size (sb s))" "\<not> in_use s b" using find_SomeD [OF Some] by auto
  then have "of_nat b \<noteq> bmap_block s" "b < 8 * length (blk s (bmap_block s))"
    using assms(2) in_opD(6) [OF assms(1)] by (auto simp: bitmap_ok_def)
  then have "in_use t c = (c = b \<or> in_use s c)" for c
    using txD(4) [OF t(2)] tx_inode(1) [OF t(2)] by (simp add: in_use_def bitmap_bit_set)
  then show ?thesis using t(1) txD(1,4,5) [OF t(2)] by (simp add: Some)
qed

theorem balloc_first_free_witness:
  "\<exists>t. balloc 1 sample_machine = Ok 64 t \<and> blk t 64 = zero_block \<and> in_use t 64 \<and> \<not> in_use t 65"
proof -
  have "find (\<lambda>b. \<not> in_use sample_machine b) [0..<1000] = Some 64"
    by (subst find_Some_iff) (auto simp: sample_in_use intro!: exI [of _ 64])
  moreover have "sb_size (sb sample_machine) = 1000" by (simp add: mkfs_sb_def)
  ultimately obtain t where "balloc 1 sample_machine = Ok 64 t" "blk t 64 = zero_block"
    "\<forall>c. in_use t c = (c = 64 \<or> in_use sample_machine c)"
    using balloc_first_free [OF sample_in_op sample_bitmap_ok(1)] by auto
  then show ?thesis by (auto simp: sample_in_use)
qed

text \<open>
  C27: A block that \<open>balloc\<close> handed out can be given back with \<open>bfree\<close>: the bitmap is as
  before and the only trace is that the block is cleared. Freeing it once more panics.
\<close>

theorem balloc_bfree_roundtrip:
  assumes s: "in_op s 3" "bitmap_ok s" "sb_ok s"
    and b: "find (\<lambda>b. \<not> in_use s b) [0..<unat (sb_size (sb s))] = Some b"
  shows "\<exists>t u. balloc 1 s = Ok (of_nat b) t \<and> bfree 1 (of_nat b) t = Ok () u
    \<and> blk u = (blk s)(of_nat b := zero_block) \<and> disk u = disk s
    \<and> bfree 1 (of_nat b) u = Panic ''freeing free block''"
proof -
  let ?m = "bmap_block s" and ?b = "of_nat b :: uint"
  note fb = find_free_target [OF s(2) b]
  have len: "b < 8 * length (blk s ?m)" using fb(1) in_opD(6) [OF s(1)] by simp
  obtain t where t: "balloc 1 s = Ok ?b t"
    "tx s {?m, ?b} ((blk s)(?m := bitmap_set b (blk s ?m), ?b := zero_block)) t"
    using balloc_run_found [of s 1, OF _ s(2) b] s(1) by (auto simp: numeral_3_eq_3)
  have ut: "in_use t c \<longleftrightarrow> c = b \<or> in_use s c" for c
    unfolding in_use_tx [OF t(2)] using fb(4) len by (simp add: bitmap_bit_set in_use_def)
  have "?b \<noteq> 1" using s(3) fb(2,5) by (auto simp: sb_ok_def)
  then have t': "in_op t 1" "bitmap_ok t" "sb_ok t"
    using in_op_tx [OF s(1) t(2), of 2] bitmap_ok_tx [OF s(2) t(2)] sb_ok_tx [OF s(3) t(2)] s(3) fb(4)
    by (auto simp: ut txD(4) [OF t(2)] sb_ok_def)
  obtain u where u: "bfree 1 ?b t = Ok () u" "tx t {bmap_block t} ((blk t)(bmap_block t := bitmap_clear b (blk t (bmap_block t)))) u"
    using bfree_run [of t 0 ?b] t' fb(1,5) by (auto simp: ut)
  have bu: "blk u = (blk s)(?b := zero_block)"
    using fb(2,4) len bitmap_clear_set [of b "blk s ?m"]
    by (auto simp: txD(4) [OF u(2)] txD(4) [OF t(2)] tx_inode [OF t(2)] fun_eq_iff in_use_def)
  have uu: "in_use u c \<longleftrightarrow> in_use s c" for c
    using fb(4) by (simp add: in_use_def bu tx_inode [OF u(2)] tx_inode [OF t(2)])
  have "in_op u 0" using in_op_tx [OF t'(1) u(2), of 1] by simp
  moreover have "bitmap_ok u" using bitmap_ok_tx [OF t'(2) u(2)] fb(3,4)
    by (auto simp: uu ut target_tx [OF t(2)] tx_inode [OF t(2)])
  moreover have "sb_ok u" using s(3) \<open>?b \<noteq> 1\<close> fb(4)
    by (intro sb_ok_tx [OF t'(3) u(2)]) (auto simp: bu uu sb_ok_def txD(4) [OF t(2)])
  ultimately have "bfree 1 ?b u = Panic ''freeing free block''"
    using fb(1,2,5) by (intro bfree_twice) (auto simp: uu)
  then show ?thesis using t(1) u(1) bu txD(5) [OF u(2)] txD(5) [OF t(2)] by auto
qed

theorem balloc_bfree_roundtrip_witness:
  "\<exists>t u. balloc 1 sample_machine = Ok 64 t \<and> bfree 1 64 t = Ok () u \<and> bfree 1 64 u = Panic ''freeing free block''"
proof -
  have "find (\<lambda>b. \<not> in_use sample_machine b) [0..<1000] = Some 64"
    by (subst find_Some_iff) (auto simp: sample_in_use intro!: exI [of _ 64])
  then show ?thesis
    using balloc_bfree_roundtrip [OF sample_in_op sample_bitmap_ok, of 64] by (auto simp: mkfs_sb_def)
qed

end
