(* ===== verification/Frames.thy ===== *)
theory Frames
  imports Inode
begin

text \<open>
  What a kernel function leaves alone, whether or not its other preconditions hold:
  \<open>keeps f m\<close> says that whenever \<open>m\<close> returns, \<open>f\<close> of the state is as before. The rules
  follow the structure of the code and are collected in \<open>keep_rules\<close>.
\<close>

named_theorems keep_rules

definition keeps :: "('s \<Rightarrow> 'f) \<Rightarrow> ('s, 'a) op \<Rightarrow> bool" where
  "keeps f m \<longleftrightarrow> (\<forall>s x t. m s = Ok x t \<longrightarrow> f t = f s)"

lemma keepsD: "keeps f m \<Longrightarrow> m s = Ok x t \<Longrightarrow> f t = f s"
  unfolding keeps_def by blast

lemma keeps_bind [keep_rules]: "keeps f m \<Longrightarrow> (\<And>x. keeps f (k x)) \<Longrightarrow> keeps f (bind m k)"
  unfolding keeps_def bind_eq_Ok by metis

lemma keeps_simple [keep_rules]:
  "keeps f (return x)" "keeps f (panic e)" "keeps f (gets g)" "keeps f (panic_if c e)"
  "keeps f (\<lambda>s. Diverge)" "keeps f (\<lambda>s. Sleep ch s)" "keeps f (\<lambda>s. Exited s)"
  by (auto simp: keeps_def split: if_splits)

lemma keeps_modify [keep_rules]: "(\<And>s. f (g s) = f s) \<Longrightarrow> keeps f (modify g)"
  by (simp add: keeps_def)

lemma keeps_if [keep_rules]: "keeps f m \<Longrightarrow> keeps f n \<Longrightarrow> keeps f (if c then m else n)"
  by simp

lemma keeps_option [keep_rules]:
  "keeps f m \<Longrightarrow> (\<And>x. keeps f (k x)) \<Longrightarrow> keeps f (case v of None \<Rightarrow> m | Some x \<Rightarrow> k x)"
  by (cases v) simp_all

lemma keeps_prod [keep_rules]: "(\<And>x y. keeps f (k x y)) \<Longrightarrow> keeps f (case p of (x, y) \<Rightarrow> k x y)"
  by (cases p) simp

lemma keeps_deref [keep_rules]: "(\<And>x. keeps f (k x)) \<Longrightarrow> keeps f (deref p k)"
  by (cases p) (simp_all add: keeps_simple)

lemma keeps_for_each [keep_rules]: "(\<And>x. keeps f (b x)) \<Longrightarrow> keeps f (for_each xs b)"
  by (induction xs) (simp_all add: keeps_simple keeps_bind)

lemma keeps_fun: "keeps f m \<Longrightarrow> keeps (\<lambda>s. g (f s)) m"
  by (simp add: keeps_def)

section \<open>Locks, sleeping, disk and cache\<close>

text \<open>The functions up to the log change only fields up to the log's.\<close>

abbreviation beyond_log :: "'z log_state_scheme \<Rightarrow> 'z" where
  "beyond_log \<equiv> log_state.more"

lemma keeps_pushcli [keep_rules]: "keeps beyond_log pushcli"
  unfolding pushcli_def by (intro keep_rules) (simp add: with_cpu_def)+

lemma keeps_popcli [keep_rules]: "keeps beyond_log popcli"
  unfolding popcli_def by (intro keep_rules) (simp add: with_cpu_def)+

lemma keeps_acquire [keep_rules]: "keeps beyond_log (acquire lk)"
  unfolding acquire_def by (intro keep_rules) (simp add: with_lock_def)+

lemma keeps_release [keep_rules]: "keeps beyond_log (release lk)"
  unfolding release_def by (intro keep_rules) (simp add: with_lock_def)+

lemma keeps_wakeup [keep_rules]: "keeps beyond_log (wakeup ch)"
  unfolding wakeup_def wakeup1_def by (intro keep_rules) (simp add: with_proc_def)

lemma keeps_sched [keep_rules]: "keeps beyond_log sched"
  unfolding sched_def by (intro keep_rules)

lemma keeps_sleep [keep_rules]: "keeps beyond_log (sleep ch lk)"
  unfolding sleep_def by (intro keep_rules) (simp add: with_proc_def)+

lemma keeps_initlock [keep_rules]: "keeps beyond_log (initlock lk)"
  unfolding initlock_def by (intro keep_rules) (simp add: with_lock_def)+

lemma keeps_sleeplocks [keep_rules]:
  "keeps beyond_log (initsleeplock l)" "keeps beyond_log (acquiresleep l)" "keeps beyond_log (releasesleep l)"
  "keeps beyond_log (holdingsleep l)"
  unfolding initsleeplock_def acquiresleep_def releasesleep_def holdingsleep_def set_sleeplock_def
  by (intro keep_rules; simp)+

lemma keeps_idestart [keep_rules]: "keeps beyond_log (idewait c)" "keeps beyond_log (idestart b)"
  unfolding idewait_def idestart_def outb_def outsl_def Let_def by (intro keep_rules; simp)+

lemma keeps_ideintr [keep_rules]: "keeps beyond_log ideintr"
  unfolding ideintr_def insl_def by (intro keep_rules) (simp add: with_buf_def)+

lemma keeps_iderw [keep_rules]: "keeps beyond_log (iderw_wait n i)" "keeps beyond_log (iderw i)"
proof -
  show w: "keeps beyond_log (iderw_wait n i)" for n
  proof (induction n)
    case 0
    then show ?case unfolding iderw_wait.simps by (rule keep_rules)
  next
    case (Suc n)
    then show ?case unfolding iderw_wait.simps by (intro keep_rules)
  qed
  show "keeps beyond_log (iderw i)"
    unfolding iderw_def iderw_append_def by (intro keep_rules w) (simp add: with_buf_def)+
qed

lemma keeps_bcache [keep_rules]:
  "keeps beyond_log (bread d n)" "keeps beyond_log (bwrite i)" "keeps beyond_log (brelse i)"
  unfolding bread_def bget_def bwrite_def brelse_def blink_front_def
  by (intro keep_rules; simp add: with_buf_def)+

lemma keeps_log [keep_rules]:
  "keeps beyond_log (log_write i)" "keeps beyond_log (readsb d)"
  unfolding log_write_def readsb_def set_lh_def in_header_def by (intro keep_rules; simp add: with_buf_def)+

section \<open>Inodes\<close>

text \<open>The identity of the inode in each entry of the cache and the number of pointers to it.\<close>

definition irefs :: "'z inode_state_scheme \<Rightarrow> nat \<Rightarrow> int \<times> uint \<times> uint" where
  "irefs s i = (i_ref (inodes s i), i_dev (inodes s i), i_inum (inodes s i))"

lemma beyond_log_inodes:
  fixes s t :: "'z inode_state_scheme"
  assumes "beyond_log t = beyond_log s"
  shows "inodes t = inodes s" "sb t = sb s" "inode_state.more t = inode_state.more s"
  using assms by (cases s rule: inode_state.cases_scheme, cases t rule: inode_state.cases_scheme, simp)+

lemma keeps_irefs:
  fixes m :: "('z inode_state_scheme, 'a) op"
  assumes "keeps beyond_log m"
  shows "keeps irefs m"
  unfolding keeps_def
proof (intro allI impI)
  fix s x t
  assume "m s = Ok x t"
  then have "inodes t = inodes s" by (intro beyond_log_inodes(1) keepsD [OF assms])
  then show "irefs t = irefs s" by (simp add: irefs_def fun_eq_iff)
qed

lemmas irefs_rules [keep_rules] = keeps_acquire [THEN keeps_irefs] keeps_release [THEN keeps_irefs]
  keeps_bcache [THEN keeps_irefs] keeps_log [THEN keeps_irefs] keeps_sleeplocks [THEN keeps_irefs]

lemma keeps_set_inode:
  "(\<And>x. i_ref (f x) = i_ref x \<and> i_dev (f x) = i_dev x \<and> i_inum (f x) = i_inum x) \<Longrightarrow> keeps irefs (set_inode i f)"
  by (intro keeps_modify) (simp add: irefs_def with_inode_def fun_eq_iff)

lemma keeps_set_sb [keep_rules]: "keeps irefs (modify (\<lambda>s. s\<lparr>sb := x\<rparr>))"
  by (intro keeps_modify) (simp add: irefs_def fun_eq_iff)

lemma keeps_set_buf [keep_rules]: "keeps irefs (modify (with_buf b f))"
  by (intro keeps_modify) (simp add: irefs_def with_buf_def fun_eq_iff)

lemma keeps_balloc [keep_rules]: "keeps irefs (balloc d)"
proof -
  have "keeps irefs (balloc_from d bs)" for bs
    by (induction bs) (simp_all only: balloc_from.simps bzero_def, (intro keep_rules; assumption?)+)
  then show ?thesis unfolding balloc_def by (intro keep_rules)
qed

lemma keeps_bfree [keep_rules]: "keeps irefs (bfree d b)"
  unfolding bfree_def by (intro keep_rules)

lemma keeps_iupdate [keep_rules]: "keeps irefs (iupdate i)"
  unfolding iupdate_def by (intro keep_rules)

lemma keeps_itrunc [keep_rules]: "keeps irefs (itrunc i)"
  unfolding itrunc_def itrunc_direct_def by (intro keep_rules keeps_set_inode) simp_all

lemma keeps_bmap [keep_rules]: "keeps irefs (bmap i n)"
  unfolding bmap_def Let_def by (intro keep_rules keeps_set_inode) simp_all

lemma keeps_ilock [keep_rules]: "keeps irefs (ilock i)" "keeps irefs (iunlock i)"
  unfolding ilock_def iunlock_def by (intro keep_rules keeps_set_inode; simp add: load_dinode_def)+

end
