(* ===== verification/Icache.thy ===== *)
theory Icache
  imports Balloc Frames
begin

text \<open>
  The inode cache: one entry for each inode in use, with the number of pointers to it, and
  the copy of the inode on the disk that \<open>ilock\<close> reads and \<open>iupdate\<close> writes.
\<close>

section \<open>Frames\<close>

lemma with_inode_simps [simp]:
  "inodes (with_inode i f s) = (inodes s)(i := f (inodes s i))"
  "with_inode i f (acquired lk s) = acquired lk (with_inode i f s)"
  "settled (with_inode i f s) = settled s" "lock_free lk (with_inode i f s) = lock_free lk s"
  "sb (with_inode i f s) = sb s" "log_outstanding (with_inode i f s) = log_outstanding s"
  "sleeplocks (with_inode i f s) = sleeplocks s" "bufs (with_inode i f s) = bufs s" "disk (with_inode i f s) = disk s"
  "ptable (with_inode i f s) = ptable s" "log_start (with_inode i f s) = log_start s"
  "curproc (with_inode i f s) = curproc s" "mycpu (with_inode i f s) = mycpu s"
  by (simp_all add: with_inode_def acquired_def settled_def lock_free_def)

lemma inodes_frame [simp]: "inodes (acquired lk s) = inodes s" "sb (acquired lk s) = sb s"
  by (simp_all add: acquired_def)

lemma in_kernel_with_inode [simp]: "in_kernel (with_inode i f s) = in_kernel s"
  by (simp add: in_kernel_def quiet_def with_inode_def del: quietD in_kernelD)
    (simp add: settled_def lock_free_def)

lemma with_inode_log [simp]:
  "blk (with_inode i f s) = blk s" "held (with_inode i f s) = held s" "dirty_blocks (with_inode i f s) = dirty_blocks s"
  "home (with_inode i f s) = home s" "log_space (with_inode i f s) = log_space s" "logged (with_inode i f s) = logged s"
  by (simp_all add: fun_eq_iff blk_def held_def dirty_blocks_def home_def log_area_def log_space_def logged_def with_inode_def
      cong: option.case_cong)

lemma with_inode_bio [simp]: "bio_inv (with_inode i f s) = bio_inv s"
  by (simp add: bio_inv_def ide_ready_def) (simp add: with_inode_def)

lemma with_inode_inv [simp]: "log_inv (with_inode i f s) = log_inv s"
  by (simp add: log_inv_def header_ok_def disk_header_def) (simp add: with_inode_def log_shape_def)

lemma with_inode_op [simp]: "in_op (with_inode i f s) k = in_op s k" "target (with_inode i f s) n = target s n"
  by (simp_all add: in_op_def target_def)

section \<open>Reference counts\<close>

definition icache_ok :: "'z inode_state_scheme \<Rightarrow> bool" where
  "icache_ok s \<longleftrightarrow> (\<forall>i<NINODE. 0 \<le> i_ref (inodes s i))
     \<and> (\<forall>i<NINODE. \<forall>j<NINODE. 0 < i_ref (inodes s i) \<longrightarrow>
          icache_hit (i_dev (inodes s i)) (i_inum (inodes s i)) (inodes s j) \<longrightarrow> i = j)"

text \<open>The number of pointers to inode \<open>inum\<close>, as the cache has it.\<close>

definition icount :: "'z inode_state_scheme \<Rightarrow> uint \<times> uint \<Rightarrow> int" where
  "icount s k = (case find (\<lambda>i. icache_hit (fst k) (snd k) (inodes s i)) [0..<NINODE] of
     Some i \<Rightarrow> i_ref (inodes s i) | None \<Rightarrow> 0)"

lemma icount_hit:
  assumes "icache_ok s" and "i < NINODE" and "icache_hit dev inum (inodes s i)"
  shows "find (\<lambda>i. icache_hit dev inum (inodes s i)) [0..<NINODE] = Some i" "icount s (dev, inum) = i_ref (inodes s i)"
proof -
  obtain j where j: "find (\<lambda>i. icache_hit dev inum (inodes s i)) [0..<NINODE] = Some j"
    using assms(2,3) by (cases "find (\<lambda>i. icache_hit dev inum (inodes s i)) [0..<NINODE]") (auto simp: find_None_iff)
  then have "j < NINODE" "icache_hit dev inum (inodes s j)" using find_SomeD [OF j] by auto
  moreover have "0 < i_ref (inodes s i)" "i_dev (inodes s i) = dev" "i_inum (inodes s i) = inum"
    using assms(3) by (auto simp: icache_hit_def)
  ultimately have "i = j"
    using assms(1,2) unfolding icache_ok_def by metis
  with j show "find (\<lambda>i. icache_hit dev inum (inodes s i)) [0..<NINODE] = Some i" "icount s (dev, inum) = i_ref (inodes s i)"
    by (simp_all add: icount_def)
qed

lemma icount_miss: "find (\<lambda>i. icache_hit dev inum (inodes s i)) [0..<NINODE] = None \<Longrightarrow> icount s (dev, inum) = 0"
  by (simp add: icount_def)

text \<open>An update of one entry that leaves at most one entry for its inode.\<close>

lemma icache_update:
  fixes s :: "'z inode_state_scheme"
  assumes s: "icache_ok s" and i: "i < NINODE" "0 \<le> i_ref x"
    and new: "\<And>j. j < NINODE \<Longrightarrow> j \<noteq> i \<Longrightarrow> \<not> icache_hit (i_dev x) (i_inum x) (inodes s j)"
  shows "icache_ok (with_inode i (\<lambda>_. x) s)" (is "icache_ok ?t")
    and "k \<noteq> (i_dev x, i_inum x) \<Longrightarrow> i_ref (inodes s i) = 0 \<or> k \<noteq> (i_dev (inodes s i), i_inum (inodes s i)) \<Longrightarrow>
      icount (with_inode i (\<lambda>_. x) s) k = icount s k"
    and "icount (with_inode i (\<lambda>_. x) s) (i_dev x, i_inum x) = i_ref x"
proof -
  have u: "\<And>a b. a < NINODE \<Longrightarrow> b < NINODE \<Longrightarrow> 0 < i_ref (inodes s a) \<Longrightarrow>
      icache_hit (i_dev (inodes s a)) (i_inum (inodes s a)) (inodes s b) \<Longrightarrow> a = b"
    using s unfolding icache_ok_def by blast
  show ok: "icache_ok ?t"
    unfolding icache_ok_def
  proof (intro conjI allI impI)
    fix a b
    assume ab: "a < NINODE" "b < NINODE" "0 < i_ref (inodes ?t a)"
      and h: "icache_hit (i_dev (inodes ?t a)) (i_inum (inodes ?t a)) (inodes ?t b)"
    show "a = b"
    proof (cases "a = i \<or> b = i")
      case True
      then show ?thesis using ab h new [of a] new [of b] by (auto simp: icache_hit_def split: if_splits)
    next
      case False
      then show ?thesis using ab h u by simp
    qed
  qed (use s i in \<open>auto simp: icache_ok_def\<close>)
  show "icount ?t (i_dev x, i_inum x) = i_ref x"
  proof (cases "0 < i_ref x")
    case True
    then have "icache_hit (i_dev x) (i_inum x) (inodes ?t i)" by (simp add: icache_hit_def)
    from icount_hit(2) [OF ok i(1) this] show ?thesis by simp
  next
    case False
    then have "\<not> icache_hit (i_dev x) (i_inum x) (inodes ?t j)" if "j < NINODE" for j
      using new that by (cases "j = i") (auto simp: icache_hit_def)
    then have "icount ?t (i_dev x, i_inum x) = 0" by (intro icount_miss) (auto simp: find_None_iff)
    with False i(2) show ?thesis by simp
  qed
  show "icount ?t k = icount s k"
    if "k \<noteq> (i_dev x, i_inum x)" "i_ref (inodes s i) = 0 \<or> k \<noteq> (i_dev (inodes s i), i_inum (inodes s i))"
  proof -
    have e: "icache_hit (fst k) (snd k) (inodes ?t j) = icache_hit (fst k) (snd k) (inodes s j)" for j
      using that by (cases k) (auto simp: icache_hit_def)
    have ni: "j \<noteq> i" if "icache_hit (fst k) (snd k) (inodes ?t j)" for j
      using that \<open>k \<noteq> (i_dev x, i_inum x)\<close> by (cases k) (auto simp: icache_hit_def)
    show ?thesis
    proof (cases "find (\<lambda>j. icache_hit (fst k) (snd k) (inodes s j)) [0..<NINODE]")
      case None
      then show ?thesis unfolding icount_def e by simp
    next
      case (Some j)
      then have "j \<noteq> i" using ni [unfolded e] find_SomeD [OF Some] by blast
      then show ?thesis unfolding icount_def e Some by simp
    qed
  qed
qed

lemma with_inode_const: "with_inode i f s = with_inode i (\<lambda>_. f (inodes s i)) s"
  by (simp add: with_inode_def)

definition icache_free :: "'z inode_state_scheme \<Rightarrow> bool" where
  "icache_free s \<longleftrightarrow> (\<exists>i<NINODE. i_ref (inodes s i) = 0)"

lemma iget_found:
  assumes "in_kernel s" and "find (\<lambda>i. icache_hit dev inum (inodes s i)) [0..<NINODE] = Some i"
  shows "iget dev inum s = Ok i (with_inode i (\<lambda>x. x\<lparr>i_ref := i_ref x + 1\<rparr>) s)"
  using assms by (simp add: iget_def)

lemma iget_new:
  assumes "in_kernel s" and "find (\<lambda>i. icache_hit dev inum (inodes s i)) [0..<NINODE] = None"
    and "find (\<lambda>i. i_ref (inodes s i) = 0) [0..<NINODE] = Some i"
  shows "iget dev inum s = Ok i (with_inode i (\<lambda>x. x\<lparr>i_dev := dev, i_inum := inum, i_ref := 1, i_flags := 0\<rparr>) s)"
  using assms by (simp add: iget_def)

lemma iget_full:
  assumes "in_kernel s" and "find (\<lambda>i. icache_hit dev inum (inodes s i)) [0..<NINODE] = None" and "\<not> icache_free s"
  shows "iget dev inum s = Panic ''iget: no inodes''"
proof -
  have "find (\<lambda>i. i_ref (inodes s i) = 0) [0..<NINODE] = None"
    using assms(3) by (auto simp: find_None_iff icache_free_def)
  with assms show ?thesis by (simp add: iget_def)
qed

lemma icache_hit_unique:
  assumes "icache_ok s" and "i < NINODE" and "icache_hit dev inum (inodes s i)" and "j < NINODE" and "j \<noteq> i"
  shows "\<not> icache_hit dev inum (inodes s j)"
  using icount_hit(1) [OF assms(1,2,3)] icount_hit(1) [OF assms(1,4)] assms(5) by (metis option.inject)

text \<open>One more or one fewer pointer to the inode of entry \<open>i\<close>.\<close>

definition add_ref :: "nat \<Rightarrow> int \<Rightarrow> 'z inode_state_scheme \<Rightarrow> 'z inode_state_scheme" where
  "add_ref i d s = with_inode i (\<lambda>x. x\<lparr>i_ref := i_ref x + d\<rparr>) s"

lemma add_ref_ok:
  fixes s :: "'z inode_state_scheme"
  assumes s: "icache_ok s" and i: "i < NINODE" "icache_hit dev inum (inodes s i)" "0 \<le> i_ref (inodes s i) + d"
  shows "icache_ok (add_ref i d s)" "icount (add_ref i d s) = (icount s)((dev, inum) := icount s (dev, inum) + d)"
proof -
  let ?x = "(inodes s i)\<lparr>i_ref := i_ref (inodes s i) + d\<rparr>"
  have e: "add_ref i d s = with_inode i (\<lambda>_. ?x) s"
    unfolding add_ref_def by (subst with_inode_const) simp
  have h: "i_dev ?x = dev" "i_inum ?x = inum" using i(2) by (auto simp: icache_hit_def)
  have n: "\<not> icache_hit (i_dev ?x) (i_inum ?x) (inodes s j)" if "j < NINODE" "j \<noteq> i" for j
    unfolding h using icache_hit_unique [OF s i(1,2) that] .
  note u = icache_update [OF s i(1) _ n]
  show "icache_ok (add_ref i d s)" unfolding e using u(1) i(3) by simp
  show "icount (add_ref i d s) = (icount s)((dev, inum) := icount s (dev, inum) + d)"
    unfolding e using u(2,3) i(2,3) icount_hit(2) [OF s i(1,2)] by (auto simp: fun_eq_iff icache_hit_def)
qed

lemma new_ref_ok:
  fixes s :: "'z inode_state_scheme"
  assumes s: "icache_ok s" and i: "i < NINODE" "i_ref (inodes s i) = 0"
    and new: "find (\<lambda>i. icache_hit dev inum (inodes s i)) [0..<NINODE] = None"
    and t: "t = with_inode i (\<lambda>x. x\<lparr>i_dev := dev, i_inum := inum, i_ref := 1, i_flags := 0\<rparr>) s"
  shows "icache_ok t" "icount t = (icount s)((dev, inum) := icount s (dev, inum) + 1)"
proof -
  let ?x = "(inodes s i)\<lparr>i_dev := dev, i_inum := inum, i_ref := 1, i_flags := 0\<rparr>"
  have e: "t = with_inode i (\<lambda>_. ?x) s" unfolding t by (subst with_inode_const) simp
  have n: "\<not> icache_hit (i_dev ?x) (i_inum ?x) (inodes s j)" if "j < NINODE" "j \<noteq> i" for j
    using new that by (simp add: find_None_iff)
  note u = icache_update [OF s i(1) _ n]
  show "icache_ok t" unfolding e using u(1) by simp
  show "icount t = (icount s)((dev, inum) := icount s (dev, inum) + 1)"
    unfolding e using u(2,3) i(2) icount_miss [OF new] by (auto simp: fun_eq_iff)
qed

lemma idup_run: "in_kernel s \<Longrightarrow> idup i s = Ok i (add_ref i 1 s)"
  by (simp add: idup_def add_ref_def)

text \<open>A pointer is dropped without freeing the inode on the disk.\<close>

definition iput_keeps :: "inode \<Rightarrow> bool" where
  "iput_keeps x \<longleftrightarrow> \<not> (i_ref x = 1 \<and> i_flags x AND I_VALID \<noteq> 0 \<and> i_nlink x = 0)"

lemma iput_run: "in_kernel s \<Longrightarrow> iput_keeps (inodes s i) \<Longrightarrow> iput i s = Ok () (add_ref i (-1) s)"
  by (auto simp: iput_def iput_keeps_def add_ref_def)

section \<open>The cache as a state machine\<close>

text \<open>
  The steps by which pointers to inodes come and go: a path lookup gets one, a new process
  or directory duplicates one, and one that is held is put back, whether or not that frees
  the inode on the disk.
\<close>

inductive icache_step :: "'z inode_state_scheme \<Rightarrow> 'z inode_state_scheme \<Rightarrow> bool" where
  step_iget: "iget dev inum s = Ok i t \<Longrightarrow> icache_step s t"
| step_idup: "i < NINODE \<Longrightarrow> 1 \<le> i_ref (inodes s i) \<Longrightarrow> idup i s = Ok j t \<Longrightarrow> icache_step s t"
| step_iput: "i < NINODE \<Longrightarrow> 1 \<le> i_ref (inodes s i) \<Longrightarrow> iput i s = Ok () t \<Longrightarrow> icache_step s t"

text \<open>The invariant and the counts depend on the references only.\<close>

lemma irefs_cong:
  assumes "irefs t = irefs s"
  shows "icache_ok t = icache_ok s" "icount t = icount s" "icache_hit d n (inodes t i) = icache_hit d n (inodes s i)"
proof -
  have e: "i_ref (inodes t i) = i_ref (inodes s i)" "i_dev (inodes t i) = i_dev (inodes s i)"
    "i_inum (inodes t i) = i_inum (inodes s i)" for i
    using fun_cong [OF assms, of i] by (simp_all add: irefs_def)
  show "icache_ok t = icache_ok s" "icount t = icount s" "icache_hit d n (inodes t i) = icache_hit d n (inodes s i)"
    by (simp_all add: icache_ok_def icount_def icache_hit_def fun_eq_iff e cong: option.case_cong)
qed

lemma irefs_add_ref: "irefs t = irefs s \<Longrightarrow> irefs (add_ref i d t) = irefs (add_ref i d s)"
  by (simp add: irefs_def add_ref_def fun_eq_iff)

text \<open>Up to the references, the three functions are these.\<close>

lemma locked_inodes:
  fixes s :: "'z inode_state_scheme"
  assumes "acquire lk s = Ok () t \<or> release lk s = Ok () t"
  shows "inodes t = inodes s"
  using assms keepsD [OF keeps_acquire] keepsD [OF keeps_release] by (intro beyond_log_inodes(1)) blast

lemma iget_irefs:
  fixes s :: "'z inode_state_scheme"
  assumes "iget dev inum s = Ok i t"
  shows "find (\<lambda>i. icache_hit dev inum (inodes s i)) [0..<NINODE] = Some i \<and> irefs t = irefs (add_ref i 1 s)
    \<or> find (\<lambda>i. icache_hit dev inum (inodes s i)) [0..<NINODE] = None
      \<and> find (\<lambda>i. i_ref (inodes s i) = 0) [0..<NINODE] = Some i
      \<and> irefs t = irefs (with_inode i (\<lambda>x. x\<lparr>i_dev := dev, i_inum := inum, i_ref := 1, i_flags := 0\<rparr>) s)"
proof -
  obtain u where u: "acquire L_icache s = Ok () u" using assms by (auto simp: iget_def bind_eq_Ok)
  have iu: "inodes u = inodes s" using u by (intro locked_inodes) auto
  have ir: "inodes v = inodes w" if "release L_icache w = Ok () v" for v w :: "'z inode_state_scheme"
    using that by (intro locked_inodes) auto
  show ?thesis
  proof (cases "find (\<lambda>i. icache_hit dev inum (inodes s i)) [0..<NINODE]")
    case (Some j)
    then show ?thesis using assms u
      by (auto simp: iget_def bind_eq_Ok iu irefs_def add_ref_def fun_eq_iff dest!: ir)
  next
    case None
    then show ?thesis using assms u
      by (auto simp: iget_def bind_eq_Ok iu irefs_def fun_eq_iff dest!: ir split: option.splits)
  qed
qed

lemma idup_irefs:
  fixes s :: "'z inode_state_scheme"
  assumes "idup i s = Ok j t"
  shows "irefs t = irefs (add_ref i 1 s)"
proof -
  obtain u where "acquire L_icache s = Ok () u" "release L_icache (add_ref i 1 u) = Ok () t"
    using assms by (auto simp: idup_def bind_eq_Ok add_ref_def)
  then have "inodes u = inodes s" "inodes t = inodes (add_ref i 1 u)" by (auto intro: locked_inodes)
  then show ?thesis by (simp add: irefs_def add_ref_def fun_eq_iff)
qed

lemma iput_irefs:
  fixes s :: "'z inode_state_scheme"
  assumes "iput i s = Ok () t"
  shows "irefs t = irefs (add_ref i (-1) s)"
proof -
  define free where "free x = ((if i_ref x = 1 \<and> i_flags x AND I_VALID \<noteq> 0 \<and> i_nlink x = 0 then
     bind (release L_icache) (\<lambda>_. bind (itrunc i) (\<lambda>_. bind (set_inode i (\<lambda>i. i\<lparr>i_type := 0\<rparr>)) (\<lambda>_.
     bind (iupdate i) (\<lambda>_. bind (acquire L_icache) (\<lambda>_. set_inode i (\<lambda>i. i\<lparr>i_flags := 0\<rparr>))))))
     else return ()) :: ('z inode_state_scheme, unit) op)" for x :: inode
  have k: "keeps irefs (free x)" for x unfolding free_def by (intro keep_rules keeps_set_inode) simp_all
  have "iput i = bind (acquire L_icache) (\<lambda>_. bind (get_inode i) (\<lambda>x. bind (free x) (\<lambda>_.
     bind (set_inode i (\<lambda>x. x\<lparr>i_ref := i_ref x + -1\<rparr>)) (\<lambda>_. release L_icache))))"
    by (simp add: iput_def free_def)
  then obtain u v where u: "acquire L_icache s = Ok () u" and v: "free (inodes u i) u = Ok () v"
    and t: "release L_icache (add_ref i (-1) v) = Ok () t"
    using assms by (auto simp: add_ref_def bind_eq_Ok)
  have "irefs v = irefs s" unfolding keepsD [OF k v] by (rule keepsD [OF irefs_rules(1) u])
  then show ?thesis unfolding keepsD [OF irefs_rules(2) t] by (rule irefs_add_ref)
qed

lemma icache_step_inv:
  fixes s :: "'z inode_state_scheme"
  assumes "icache_ok s" and "icache_step s t"
  shows "icache_ok t"
  using assms(2)
proof (cases rule: icache_step.cases)
  case (step_iget dev inum i)
  from iget_irefs [OF this] show ?thesis
  proof (elim disjE conjE)
    assume f: "find (\<lambda>i. icache_hit dev inum (inodes s i)) [0..<NINODE] = Some i" and t: "irefs t = irefs (add_ref i 1 s)"
    have "i < NINODE" "icache_hit dev inum (inodes s i)" using find_SomeD [OF f] by auto
    then show ?thesis using add_ref_ok(1) [OF assms(1), of i dev inum 1] irefs_cong(1) [OF t] by (simp add: icache_hit_def)
  next
    assume f: "find (\<lambda>i. icache_hit dev inum (inodes s i)) [0..<NINODE] = None"
      "find (\<lambda>i. i_ref (inodes s i) = 0) [0..<NINODE] = Some i"
      and t: "irefs t = irefs (with_inode i (\<lambda>x. x\<lparr>i_dev := dev, i_inum := inum, i_ref := 1, i_flags := 0\<rparr>) s)"
    have "i < NINODE" "i_ref (inodes s i) = 0" using find_SomeD [OF f(2)] by auto
    then show ?thesis using new_ref_ok(1) [OF assms(1) _ _ f(1) refl] irefs_cong(1) [OF t] by simp
  qed
next
  case (step_idup i j)
  have "icache_hit (i_dev (inodes s i)) (i_inum (inodes s i)) (inodes s i)" using step_idup by (simp add: icache_hit_def)
  then show ?thesis
    using add_ref_ok(1) [OF assms(1) step_idup(1)] step_idup(2) irefs_cong(1) [OF idup_irefs [OF step_idup(3)]] by simp
next
  case (step_iput i)
  have "icache_hit (i_dev (inodes s i)) (i_inum (inodes s i)) (inodes s i)" using step_iput by (simp add: icache_hit_def)
  then show ?thesis
    using add_ref_ok(1) [OF assms(1) step_iput(1)] step_iput(2) irefs_cong(1) [OF iput_irefs [OF step_iput(3)]] by simp
qed

definition icache_empty :: "'z inode_state_scheme \<Rightarrow> bool" where
  "icache_empty s \<longleftrightarrow> (\<forall>i<NINODE. i_ref (inodes s i) = 0)"

lemma icache_empty_ok: "icache_empty s \<Longrightarrow> icache_ok s"
  by (simp add: icache_empty_def icache_ok_def)

interpretation icache: invariant_system icache_empty icache_step icache_ok
  by unfold_locales (rule icache_empty_ok, assumption, rule icache_step_inv)


lemma sample_iget: "iget 1 5 sample_machine = Ok 0 (with_inode 0 (\<lambda>x. x\<lparr>i_dev := 1, i_inum := 5, i_ref := 1, i_flags := 0\<rparr>) sample_machine)"
  by (rule iget_new) (simp_all add: find_None_iff icache_hit_def empty_inode_def NINODE_def upt_rec)




end
