(* ===== verification/Dinodes.thy ===== *)
theory Dinodes
  imports Icache
begin

text \<open>
  Inodes on the disk: \<open>iupdate\<close> stores the fields of an entry of the cache in its slot of
  the inode block, and \<open>ilock\<close> of an entry that is not valid loads them from there.
\<close>

section \<open>Slots of an inode block\<close>

lemma inum_slot: "64 * (unat (n :: uint) mod 8) + 64 \<le> 512"
  using mod_less_divisor [of 8 "unat n"] by linarith

lemma dinode_at_put:
  assumes "length d = 512" and "length (d_addrs di) = 13"
  shows "dinode_at n (put_dinode n di d) = di"
  using assms inum_slot [of n] by (simp add: dinode_at_def put_dinode_def length_dinode_bytes dinode_of_bytes)

lemma dinode_at_put_other:
  assumes "length d = 512" and "length (d_addrs di) = 13" and "unat m mod 8 \<noteq> unat n mod 8"
  shows "dinode_at m (put_dinode n di d) = dinode_at m d"
proof -
  let ?a = "unat m mod 8" and ?b = "unat n mod 8"
  have "64 * ?a + 64 \<le> 64 * ?b \<or> 64 * ?b + 64 \<le> 64 * ?a" using assms(3) by linarith
  then show ?thesis
    using assms inum_slot [of n] inum_slot [of m]
    by (simp add: dinode_at_def put_dinode_def slice_splice_other length_dinode_bytes)
qed

lemma length_put_dinode [simp]:
  "length d = 512 \<Longrightarrow> length (d_addrs di) = 13 \<Longrightarrow> length (put_dinode n di d) = 512"
  using inum_slot [of n] by (simp add: put_dinode_def length_dinode_bytes)

section \<open>Storing\<close>

abbreviation inode_block :: "'z inode_state_scheme \<Rightarrow> nat \<Rightarrow> uint" where
  "inode_block s i \<equiv> IBLOCK (i_inum (inodes s i)) (sb s)"

definition stored_inode :: "'z inode_state_scheme \<Rightarrow> nat \<Rightarrow> dinode" where
  "stored_inode s i = dinode_at (i_inum (inodes s i)) (blk s (inode_block s i))"

text \<open>An entry of the cache that can be stored.\<close>

definition inode_ok :: "'z inode_state_scheme \<Rightarrow> nat \<Rightarrow> bool" where
  "inode_ok s i \<longleftrightarrow> i_dev (inodes s i) = 1 \<and> target s (inode_block s i) \<and> length (i_addrs (inodes s i)) = 13"

lemma iupdate_run:
  fixes s :: "'z inode_state_scheme"
  assumes "in_op s (Suc k)" and "inode_ok s i"
  shows "\<exists>t. iupdate i s = Ok () t
    \<and> tx s {inode_block s i} ((blk s)(inode_block s i := put_dinode (i_inum (inodes s i)) (dinode_of_inode (inodes s i)) (blk s (inode_block s i)))) t"
  using update_block_run [OF assms(1), of "inode_block s i" "put_dinode (i_inum (inodes s i)) (dinode_of_inode (inodes s i))"]
    assms(2) in_opD(6) [OF assms(1)]
  by (simp add: iupdate_def update_block_def inode_ok_def dinode_of_inode_def)

section \<open>Loading\<close>

definition inode_locked :: "nat \<Rightarrow> uint \<Rightarrow> 'z inode_state_scheme \<Rightarrow> 'z inode_state_scheme" where
  "inode_locked i pid s = s\<lparr>sleeplocks := (sleeplocks s)(SL_inode i := \<lparr>sl_locked = 1, sl_pid = pid\<rparr>)\<rparr>"

lemma inode_locked_simps [simp]:
  "inodes (inode_locked i p s) = inodes s" "sb (inode_locked i p s) = sb s" "blk (inode_locked i p s) = blk s"
  "held (inode_locked i p s) = held s" "bufs (inode_locked i p s) = bufs s" "disk (inode_locked i p s) = disk s"
  "dirty_blocks (inode_locked i p s) = dirty_blocks s" "logged (inode_locked i p s) = logged s"
  "home (inode_locked i p s) = home s" "log_space (inode_locked i p s) = log_space s"
  "log_outstanding (inode_locked i p s) = log_outstanding s" "in_kernel (inode_locked i p s) = in_kernel s"
  by (simp_all add: inode_locked_def fun_eq_iff blk_def held_def dirty_blocks_def logged_def home_def log_area_def log_space_def
      in_kernel_def quiet_def settled_def lock_free_def cong: option.case_cong del: quietD in_kernelD)

lemma inode_locked_inv [simp]: "log_inv (inode_locked i p s) = log_inv s"
proof -
  have "bio_inv (inode_locked i p s) = bio_inv s"
    by (simp add: bio_inv_def ide_ready_def) (simp add: inode_locked_def)
  then show ?thesis
    by (simp add: log_inv_def header_ok_def disk_header_def) (simp add: inode_locked_def log_shape_def)
qed

lemma inode_locked_op [simp]: "in_op (inode_locked i p s) k = in_op s k" "target (inode_locked i p s) n = target s n"
  by (simp_all add: in_op_def target_def)

definition loaded_inode :: "dinode \<Rightarrow> inode \<Rightarrow> inode" where
  "loaded_inode di x = (load_dinode di x)\<lparr>i_flags := i_flags x OR I_VALID\<rparr>"

lemma ilock_load:
  fixes s :: "'z inode_state_scheme"
  assumes s: "in_op s k" and i: "i_dev (inodes s i) = 1" "target s (inode_block s i)" "1 \<le> i_ref (inodes s i)"
    and f: "sl_locked (sleeplocks s (SL_inode i)) = 0" "i_flags (inodes s i) AND I_VALID = 0"
    and ty: "d_type (stored_inode s i) \<noteq> 0"
  shows "\<exists>t. ilock i s = Ok () t \<and> blk t = blk s \<and> log_inv t \<and> disk t = disk s
    \<and> inodes t = (inodes s)(i := loaded_inode (stored_inode s i) (inodes s i))"
proof -
  let ?u = "inode_locked i (mypid s) s"
  have k: "in_kernel s" using in_opD(5) [OF s] by (simp add: bio_inv_def)
  have a: "acquiresleep (SL_inode i) s = Ok () ?u"
    unfolding inode_locked_def by (rule acquiresleep_run [OF k f(1)])
  have rdy: "bready ?u (inode_block s i)" using s i by (intro target_ready [of _ k]) simp_all
  obtain j t where r: "bread 1 (inode_block s i) ?u = Ok j t" and t': "bread_post ?u (inode_block s i) j t"
    using bready_bread [OF rdy] by blast
  note t = bread_postD [OF t']
  define w where "w = with_inode i (load_dinode (stored_inode s i)) t"
  have "is_dirty (bufs w j) \<or> b_data (bufs w j) = disk w True (unat (b_blockno (bufs w j)))"
    using bread_releasable [OF rdy t'] by (simp add: w_def)
  then obtain v where v: "brelse j w = Ok () v" and v': "brelse_post w j v"
    using brelse_spec [of w j] t(1,5) by (auto simp: w_def)
  note v' = brelse_postD [OF v']
  have it: "inodes t = inodes s" "sb t = sb s" using bframe_inode [OF t(2)] by simp_all
  have iv: "inodes v = inodes w" using bframe_inode [OF v'(2)] by simp
  have "log_inv ?u" using in_opD(1) [OF s] by simp
  then have "log_inv t" using t(1,9,12) by (intro log_inv_frame [OF _ t(2)]) simp_all
  then have "log_inv w" by (simp add: w_def)
  then have lv: "log_inv v" by (rule log_inv_frame [OF _ v'(2,1,7,5)])
  let ?z = "with_inode i (\<lambda>x. x\<lparr>i_flags := i_flags x OR I_VALID\<rparr>) v"
  have d: "dinode_at (i_inum (inodes s i)) (b_data (bufs t j)) = stored_inode s i"
    using t(7) by (simp add: stored_inode_def)
  have "i_type (inodes v i) = d_type (stored_inode s i)" by (simp add: iv w_def load_dinode_def)
  then have "ilock i s = Ok () ?z"
    using i f(2) ty v by (simp add: ilock_def a r d w_def [symmetric])
  moreover have "inodes ?z = (inodes s)(i := loaded_inode (stored_inode s i) (inodes s i))"
    by (simp add: iv w_def it loaded_inode_def load_dinode_def)
  moreover have "blk ?z = blk s" "disk ?z = disk s" using v'(4,5) t(8,9) by (simp_all add: w_def)
  ultimately show ?thesis using lv by auto
qed

section \<open>Round trip\<close>

text \<open>
  C29: What \<open>iupdate\<close> stores, \<open>ilock\<close> loads: when the entry of an inode is written to the
  inode block and later taken for the same inode again, with nothing known about its fields,
  locking it restores type, device numbers, link count, size and block addresses. The other
  inodes of the block are as they were.
\<close>

theorem iupdate_ilock_roundtrip:
  assumes s: "in_op s 1" "inode_ok s i" and i: "i_type (inodes s i) \<noteq> 0" "1 \<le> i_ref (inodes s i)"
    and f: "sl_locked (sleeplocks s (SL_inode i)) = 0"
    and x: "i_dev x = 1" "i_inum x = i_inum (inodes s i)" "i_ref x = 1" "i_flags x = 0"
  shows "\<exists>t u. iupdate i s = Ok () t \<and> ilock i (with_inode i (\<lambda>_. x) t) = Ok () u
    \<and> dinode_of_inode (inodes u i) = dinode_of_inode (inodes s i) \<and> i_flags (inodes u i) = I_VALID
    \<and> (\<forall>n. unat n mod 8 \<noteq> unat (i_inum (inodes s i)) mod 8 \<longrightarrow>
         dinode_at n (blk u (inode_block s i)) = dinode_at n (blk s (inode_block s i)))"
proof -
  let ?b = "inode_block s i" and ?d = "dinode_of_inode (inodes s i)"
  have l: "length (d_addrs ?d) = 13" "length (blk s ?b) = 512"
    using s(2) in_opD(6) [OF s(1)] by (simp_all add: inode_ok_def dinode_of_inode_def)
  obtain t where t: "iupdate i s = Ok () t" "tx s {?b} ((blk s)(?b := put_dinode (i_inum (inodes s i)) ?d (blk s ?b))) t"
    using iupdate_run [of s 0] s by auto
  let ?w = "with_inode i (\<lambda>_. x) t"
  have b: "inode_block ?w i = ?b" "blk ?w ?b = put_dinode (i_inum (inodes s i)) ?d (blk s ?b)"
    using x(2) txD(4) [OF t(2)] tx_inode [OF t(2)] by simp_all
  have st: "stored_inode ?w i = ?d"
    unfolding stored_inode_def b using x(2) dinode_at_put [OF l(2,1)] by simp
  have "in_op t 0" using in_op_tx [OF s(1) t(2), of 1] by simp
  moreover have "target t ?b" using s(2) by (simp add: target_tx [OF t(2)] inode_ok_def)
  moreover have "sl_locked (sleeplocks t (SL_inode i)) = 0" using f txD(2) [OF t(2)] by (simp add: bframe_def)
  ultimately obtain u where u: "ilock i ?w = Ok () u" "blk u = blk t" "inodes u = (inodes t)(i := loaded_inode ?d x)"
    using ilock_load [of ?w 0 i] x i st b(1) tx_inode [OF t(2)] by (auto simp: dinode_of_inode_def)
  then show ?thesis
    using t x(4) dinode_at_put_other [OF l(2,1)] txD(4) [OF t(2)]
    by (auto simp: loaded_inode_def load_dinode_def dinode_of_inode_def)
qed

definition sample_inode :: inode where
  "sample_inode = empty_inode\<lparr>i_dev := 1, i_inum := 5, i_ref := 1, i_type := T_FILE, i_nlink := 1, i_size := 77\<rparr>"

theorem iupdate_ilock_roundtrip_witness:
  "\<exists>t u. iupdate 0 (with_inode 0 (\<lambda>_. sample_inode) sample_machine) = Ok () t
    \<and> ilock 0 (with_inode 0 (\<lambda>_. empty_inode\<lparr>i_dev := 1, i_inum := 5, i_ref := 1\<rparr>) t) = Ok () u
    \<and> i_size (inodes u 0) = 77"
proof -
  let ?s = "with_inode 0 (\<lambda>_. sample_inode) sample_machine"
  have b: "inode_block ?s 0 = 32" by (simp add: sample_inode_def IBLOCK_def mkfs_sb_def)
  have "inode_ok ?s 0"
    unfolding inode_ok_def b by (simp add: target_def sample_log sample_inode_def empty_inode_def)
  moreover have "sl_locked (sleeplocks ?s (SL_inode 0)) = 0"
    by (simp add: inode_boot_def txn_boot_def free_sleeplock_def)
  ultimately obtain t u where "iupdate 0 ?s = Ok () t"
    "ilock 0 (with_inode 0 (\<lambda>_. empty_inode\<lparr>i_dev := 1, i_inum := 5, i_ref := 1\<rparr>) t) = Ok () u"
    "dinode_of_inode (inodes u 0) = dinode_of_inode (inodes ?s 0)"
    using iupdate_ilock_roundtrip [of ?s 0 "empty_inode\<lparr>i_dev := 1, i_inum := 5, i_ref := 1\<rparr>"]
    by (auto simp: sample_in_op sample_inode_def empty_inode_def)
  moreover from this(3) have "i_size (inodes u 0) = 77" by (simp add: dinode_of_inode_def sample_inode_def)
  ultimately show ?thesis by blast
qed

end
