(* ===== verification/Filedata.thy ===== *)
theory Filedata
  imports Dinodes Fs
begin

text \<open>
  The content of a file: \<open>readi\<close> returns it and \<open>writei\<close> changes it, block by block through
  the direct and indirect block addresses, over the part of the file that has blocks.
\<close>

section \<open>Content\<close>

text \<open>The address of block \<open>k\<close> of the file, and its bytes.\<close>

definition bmap_at :: "'z inode_state_scheme \<Rightarrow> nat \<Rightarrow> nat \<Rightarrow> uint" where
  "bmap_at s i k = (if k < NDIRECT then i_addrs (inodes s i) ! k
     else get_u32 (4 * (k - NDIRECT)) (blk s (i_addrs (inodes s i) ! NDIRECT)))"

definition file_byte :: "'z inode_state_scheme \<Rightarrow> nat \<Rightarrow> nat \<Rightarrow> uchar" where
  "file_byte s i p = blk s (bmap_at s i (p div BSIZE)) ! (p mod BSIZE)"

definition file_bytes :: "'z inode_state_scheme \<Rightarrow> nat \<Rightarrow> nat \<Rightarrow> nat \<Rightarrow> uchar list" where
  "file_bytes s i off n = map (file_byte s i) [off..<off + n]"

text \<open>The first \<open>K\<close> blocks of the file exist and can be used.\<close>

definition mapped :: "'z inode_state_scheme \<Rightarrow> nat \<Rightarrow> nat \<Rightarrow> bool" where
  "mapped s i K \<longleftrightarrow> i_dev (inodes s i) = 1 \<and> K \<le> MAXFILE
     \<and> (\<forall>k<K. bmap_at s i k \<noteq> 0 \<and> target s (bmap_at s i k))
     \<and> (NDIRECT < K \<longrightarrow> i_addrs (inodes s i) ! NDIRECT \<noteq> 0 \<and> target s (i_addrs (inodes s i) ! NDIRECT))"

lemma mappedD:
  assumes "mapped s i K"
  shows "i_dev (inodes s i) = 1" "K \<le> 140" "k < K \<Longrightarrow> bmap_at s i k \<noteq> 0" "k < K \<Longrightarrow> target s (bmap_at s i k)"
    "12 < K \<Longrightarrow> i_addrs (inodes s i) ! 12 \<noteq> 0" "12 < K \<Longrightarrow> target s (i_addrs (inodes s i) ! 12)"
  using assms by (auto simp: mapped_def)

lemma bmap_run:
  fixes s :: "'z inode_state_scheme"
  assumes s: "in_op s k" and m: "mapped s i K" "unat bn < K"
  shows "\<exists>t. bmap i bn s = Ok (bmap_at s i (unat bn)) t \<and> tx s {} (blk s) t"
proof (cases "unat bn < 12")
  case True
  then have "bmap i bn s = Ok (bmap_at s i (unat bn)) s"
    using mappedD(3) [OF m] by (simp add: bmap_def bmap_at_def)
  then show ?thesis using tx_refl [OF in_opD(1) [OF s]] by blast
next
  case False
  let ?a = "i_addrs (inodes s i) ! 12" and ?k = "unat bn - 12"
  have K: "12 < K" "?k < 128" using False m mappedD(2) [OF m(1)] by linarith+
  obtain t where t: "read_block ?a (get_u32 (4 * ?k)) s = Ok (get_u32 (4 * ?k) (blk s ?a)) t" "tx s {} (blk s) t"
    using read_block_tx [OF s mappedD(6) [OF m(1) K(1)]] by blast
  obtain j u v where r: "bread 1 ?a s = Ok j u" "bread_post s ?a j u" "brelse j u = Ok () v"
    using bread_brelse [OF target_ready [OF s mappedD(6) [OF m(1) K(1)]]] by blast
  have vt: "v = t" using t(1) r by (simp add: read_block_def)
  have "get_u32 (4 * ?k) (blk s ?a) = bmap_at s i (unat bn)" using False by (simp add: bmap_at_def)
  then have "bmap i bn s = Ok (bmap_at s i (unat bn)) t"
    using False K mappedD(1,5) [OF m(1)] mappedD(3) [OF m] r(3) bread_postD(7) [OF r(2)]
    by (simp add: bmap_def Let_def r(1) vt)
  with t(2) show ?thesis by blast
qed

text \<open>The mapping depends on the entry and on the indirect block.\<close>

lemma bmap_at_cong:
  assumes "inodes t i = inodes s i" and "12 \<le> k \<Longrightarrow> blk t (i_addrs (inodes s i) ! 12) = blk s (i_addrs (inodes s i) ! 12)"
  shows "bmap_at t i k = bmap_at s i k"
  using assms by (simp add: bmap_at_def)

lemma mapped_tx:
  fixes s :: "'z inode_state_scheme"
  assumes m: "mapped s i K" and t: "tx s N g t" and g: "12 < K \<Longrightarrow> g (i_addrs (inodes s i) ! 12) = blk s (i_addrs (inodes s i) ! 12)"
  shows "mapped t i K" "k < K \<Longrightarrow> bmap_at t i k = bmap_at s i k"
proof -
  show b: "bmap_at t i k = bmap_at s i k" if "k < K" for k
    using that g by (intro bmap_at_cong) (auto simp: tx_inode [OF t] txD(4) [OF t])
  then show "mapped t i K" using m by (auto simp: mapped_def tx_inode [OF t] target_tx [OF t])
qed

section \<open>Reading\<close>

lemma unat_plus_nat:
  assumes "unat (a :: uint) + m < 4294967296"
  shows "unat (a + of_nat m) = unat a + m"
  using assms by (simp add: unat_word_ariths unat_of_nat)

lemma same_block:
  assumes "p mod 512 + j < (512 :: nat)"
  shows "(p + j) div 512 = p div 512" "(p + j) mod 512 = p mod 512 + j"
proof -
  have e: "p + j = (p mod 512 + j) + 512 * (p div 512)" using mod_mult_div_eq [of p 512] by linarith
  show "(p + j) div 512 = p div 512" "(p + j) mod 512 = p mod 512 + j"
    unfolding e using assms by (simp_all only: div_mult_self2 mod_mult_self2) simp_all
qed

lemma file_bytes_slice:
  assumes "length (blk s (bmap_at s i (p div 512))) = 512" and "p mod 512 + m \<le> 512"
  shows "slice (p mod 512) m (blk s (bmap_at s i (p div 512))) = file_bytes s i p m"
proof (rule nth_equalityI)
  show "length (slice (p mod 512) m (blk s (bmap_at s i (p div 512)))) = length (file_bytes s i p m)"
    using assms by (simp add: file_bytes_def)
  fix j
  assume "j < length (slice (p mod 512) m (blk s (bmap_at s i (p div 512))))"
  then have j: "j < m" using assms by simp
  then have "p mod 512 + j < 512" using assms(2) by linarith
  from same_block [OF this] show "slice (p mod 512) m (blk s (bmap_at s i (p div 512))) ! j = file_bytes s i p m ! j"
    using j assms by (simp add: slice_def file_bytes_def file_byte_def)
qed

lemma file_bytes_cong:
  assumes "\<And>k. k < K \<Longrightarrow> bmap_at t i k = bmap_at s i k" and "\<And>k. k < K \<Longrightarrow> blk t (bmap_at s i k) = blk s (bmap_at s i k)"
    and "off + n \<le> K * 512"
  shows "file_bytes t i off n = file_bytes s i off n"
proof -
  have "file_byte t i p = file_byte s i p" if "p < K * 512" for p
  proof -
    have "p div 512 < K" using that by (rule less_mult_imp_div_less)
    then show ?thesis using assms(1,2) by (simp add: file_byte_def)
  qed
  then show ?thesis using assms(3) by (simp add: file_bytes_def)
qed

lemma file_bytes_append: "file_bytes s i off (m + n) = file_bytes s i off m @ file_bytes s i (off + m) n"
  unfolding file_bytes_def add.assoc [symmetric] using upt_add_eq_append [of off "off + m" n] by simp

lemma block_rest_facts:
  assumes "0 < r" and "m = block_rest off r"
  shows "0 < m" "m \<le> r" "unat off mod 512 + m \<le> 512"
proof -
  have "unat off mod 512 < 512" by simp
  then show "0 < m" "m \<le> r" "unat off mod 512 + m \<le> 512"
    using assms unfolding block_rest_def min_def by (auto split: if_splits)
qed

lemma unat_block: "unat (off div 512 :: uint) = unat off div 512"
  by (simp add: unat_div)

lemma readi_loop_run:
  fixes s :: "'z cons_state_scheme"
  assumes "in_op s k" and "mapped s i K" and "unat off + r \<le> K * 512"
  shows "\<exists>t. readi_loop i off r s = Ok (file_bytes s i (unat off) r) t \<and> tx s {} (blk s) t"
  using assms
proof (induction r arbitrary: off s rule: less_induct)
  case (less r)
  show ?case
  proof (cases "r = 0")
    case True
    then show ?thesis using tx_refl [OF in_opD(1) [OF less.prems(1)]]
      by (simp add: readi_loop.simps file_bytes_def)
  next
    case False
    define m where "m = block_rest off r"
    note mf = block_rest_facts [OF _ m_def] 
    let ?bn = "unat off div 512"
    have bn: "?bn < K" using False less.prems(3) by (intro less_mult_imp_div_less) linarith
    obtain t where t: "bmap i (off div 512) s = Ok (bmap_at s i ?bn) t" "tx s {} (blk s) t"
      using bmap_run [OF less.prems(1,2), of "off div 512"] bn by (auto simp: unat_block)
    have it: "in_op t k" using in_op_tx [OF less.prems(1) t(2), of 0] by simp
    have "target t (bmap_at s i ?bn)" using mappedD(4) [OF less.prems(2) bn] by (simp add: target_tx [OF t(2)])
    then obtain j u v where r: "bread 1 (bmap_at s i ?bn) t = Ok j u" "bread_post t (bmap_at s i ?bn) j u"
      "brelse j u = Ok () v" "bsame t v"
      using bread_brelse [OF target_ready [OF it]] by blast
    have tv: "tx s {} (blk s) v"
      using tx_trans [OF t(2) bsame_tx [OF in_opD(1) [OF it] r(4)]] by (simp add: txD(4) [OF t(2)])
    have iv: "in_op v k" using in_op_tx [OF less.prems(1) tv, of 0] by simp
    have mv: "mapped v i K" "\<And>k. k < K \<Longrightarrow> bmap_at v i k = bmap_at s i k"
      using mapped_tx [OF less.prems(2) tv] by simp_all
    have K: "K \<le> 140" by (rule mappedD(2) [OF less.prems(2)])
    have uo: "unat (off + of_nat m) = unat off + m"
      using less.prems(3) mf(2) False K by (intro unat_plus_nat) linarith
    have "unat (off + of_nat m) + (r - m) \<le> K * 512" unfolding uo using less.prems(3) mf(2) False by linarith
    from less.IH [OF _ iv mv(1) this] mf(1,2) False
    obtain w where w: "readi_loop i (off + of_nat m) (r - m) v = Ok (file_bytes v i (unat off + m) (r - m)) w"
      "tx v {} (blk v) w" unfolding uo by auto
    have e: "file_bytes v i (unat off + m) (r - m) = file_bytes s i (unat off + m) (r - m)"
      using less.prems(3) mf(2) False by (intro file_bytes_cong [OF mv(2)]) (auto simp: txD(4) [OF tv])
    have sl: "slice (unat off mod 512) m (b_data (bufs u j)) = file_bytes s i (unat off) m"
      unfolding bread_postD(7) [OF r(2)] txD(4) [OF t(2)]
      using in_opD(6) [OF less.prems(1)] mf(3) False by (intro file_bytes_slice) simp_all
    have "i_dev (inodes t i) = 1" using mappedD(1) [OF less.prems(2)] by (simp add: tx_inode [OF t(2)])
    then have "readi_loop i off r s = Ok (file_bytes s i (unat off) m @ file_bytes s i (unat off + m) (r - m)) w"
      using False by (subst readi_loop.simps) (simp add: t(1) r(1,3) m_def [symmetric] w(1) e sl)
    moreover have "file_bytes s i (unat off) m @ file_bytes s i (unat off + m) (r - m) = file_bytes s i (unat off) r"
      using file_bytes_append [of s i "unat off" m "r - m"] mf(2) False by simp
    moreover have "tx s {} (blk s) w" using tx_trans [OF tv w(2)] by (simp add: txD(4) [OF tv])
    ultimately show ?thesis by auto
  qed
qed

section \<open>Writing\<close>

text \<open>The blocks of the file are different blocks, and none of them is the indirect block.\<close>

definition separate :: "'z inode_state_scheme \<Rightarrow> nat \<Rightarrow> nat \<Rightarrow> bool" where
  "separate s i K \<longleftrightarrow> inj_on (bmap_at s i) {..<K} \<and> (NDIRECT < K \<longrightarrow> i_addrs (inodes s i) ! NDIRECT \<notin> bmap_at s i ` {..<K})"

definition patched :: "(nat \<Rightarrow> 'a) \<Rightarrow> nat \<Rightarrow> 'a list \<Rightarrow> nat \<Rightarrow> 'a" where
  "patched f off xs p = (if off \<le> p \<and> p < off + length xs then xs ! (p - off) else f p)"

lemma patched_append: "patched (patched f off xs) (off + length xs) ys = patched f off (xs @ ys)"
  by (auto simp: patched_def fun_eq_iff nth_append)

lemma file_byte_write:
  fixes s t :: "'z inode_state_scheme"
  assumes sep: "separate s i K" and off: "off div 512 < K" "off mod 512 + length xs \<le> 512"
    and len: "length (blk s (bmap_at s i (off div 512))) = 512"
    and t: "\<And>k. k < K \<Longrightarrow> bmap_at t i k = bmap_at s i k"
      "blk t = (blk s)(bmap_at s i (off div 512) := splice (off mod 512) xs (blk s (bmap_at s i (off div 512))))"
    and p: "p div 512 < K"
  shows "file_byte t i p = patched (file_byte s i) off xs p"
proof (cases "p div 512 = off div 512")
  case True
  have e: "p = off div 512 * 512 + p mod 512" "off = off div 512 * 512 + off mod 512"
    using True by (metis div_mult_mod_eq)+
  have in_range: "off \<le> p \<and> p < off + length xs \<longleftrightarrow> off mod 512 \<le> p mod 512 \<and> p mod 512 < off mod 512 + length xs"
    "p - off = p mod 512 - off mod 512"
    using e by linarith+
  show ?thesis
    using True off len p
    by (simp add: file_byte_def t patched_def in_range nth_splice)
next
  case False
  have "bmap_at s i (p div 512) \<noteq> bmap_at s i (off div 512)"
    using sep p off(1) False by (auto simp: separate_def inj_on_def)
  moreover have "\<not> (off \<le> p \<and> p < off + length xs)"
  proof
    assume a: "off \<le> p \<and> p < off + length xs"
    then have "off mod 512 + (p - off) < 512" using off(2) by linarith
    from same_block(1) [OF this] a False show False by simp
  qed
  ultimately show ?thesis using p by (auto simp: file_byte_def t patched_def)
qed

text \<open>The number of blocks that \<open>r\<close> bytes from offset \<open>off\<close> on touch.\<close>

definition touched :: "nat \<Rightarrow> nat \<Rightarrow> nat" where
  "touched off r = (if r = 0 then 0 else (off mod 512 + r - 1) div 512 + 1)"

lemma touched_step:
  assumes "0 < r" and "m = block_rest off r"
  shows "Suc (touched (unat off + m) (r - m)) \<le> touched (unat off) r"
proof (cases "m = r")
  case True
  then show ?thesis using assms(1) by (simp add: touched_def)
next
  case False
  note mf = block_rest_facts [OF assms]
  have o: "unat off mod 512 + m = 512" using assms(2) False mf by (auto simp: block_rest_def min_def split: if_splits)
  have "(unat off + m) mod 512 = (unat off mod 512 + m) mod 512" by (simp add: mod_add_left_eq)
  then have z: "(unat off + m) mod 512 = 0" unfolding o by simp
  have "unat off mod 512 + r - 1 = 512 + (r - m - 1)" using o False mf(2) by linarith
  then have "(unat off mod 512 + r - 1) div 512 = (r - m - 1) div 512 + 1" by simp
  then show ?thesis using False mf(2) assms(1) by (simp add: touched_def z)
qed

definition written :: "'z inode_state_scheme \<Rightarrow> nat \<Rightarrow> nat \<Rightarrow> nat \<Rightarrow> uchar list \<Rightarrow> 'z inode_state_scheme \<Rightarrow> bool" where
  "written s i K off xs t \<longleftrightarrow> (\<exists>N. tx s N (blk t) t \<and> N \<subseteq> bmap_at s i ` {..<K} \<and> card N \<le> touched off (length xs))
     \<and> (\<forall>b. b \<notin> bmap_at s i ` {..<K} \<longrightarrow> blk t b = blk s b)
     \<and> (\<forall>p<K * 512. file_byte t i p = patched (file_byte s i) off xs p)"

lemma writtenD:
  assumes "written s i K off xs t"
  obtains N where "tx s N (blk t) t" "N \<subseteq> bmap_at s i ` {..<K}" "finite N" "card N \<le> touched off (length xs)"
    "\<And>b. b \<notin> bmap_at s i ` {..<K} \<Longrightarrow> blk t b = blk s b"
    "\<And>p. p < K * 512 \<Longrightarrow> file_byte t i p = patched (file_byte s i) off xs p"
  using assms finite_subset [of _ "bmap_at s i ` {..<K}"] by (auto simp: written_def)

lemma written_mapped:
  assumes m: "mapped s i K" "separate s i K" and w: "written s i K off xs t"
  shows "mapped t i K" "separate t i K" "k < K \<Longrightarrow> bmap_at t i k = bmap_at s i k"
proof -
  obtain N where N: "tx s N (blk t) t" "\<And>b. b \<notin> bmap_at s i ` {..<K} \<Longrightarrow> blk t b = blk s b" using writtenD [OF w] by metis
  have g: "blk t (i_addrs (inodes s i) ! 12) = blk s (i_addrs (inodes s i) ! 12)" if "12 < K"
    using m(2) that by (intro N(2)) (simp add: separate_def)
  show "mapped t i K" by (rule mapped_tx(1) [OF m(1) N(1) g])
  show b: "bmap_at t i k = bmap_at s i k" if "k < K" for k by (rule mapped_tx(2) [OF m(1) N(1) g that])
  then have "bmap_at t i ` {..<K} = bmap_at s i ` {..<K}" by (auto simp: image_iff)
  then show "separate t i K" using m(2) b by (simp add: separate_def tx_inode [OF N(1)] inj_on_def)
qed

lemma written_trans:
  assumes m: "mapped s i K" "separate s i K" and w: "written s i K off xs t" and v: "written t i K (off + length xs) ys u"
    and c: "touched off (length xs) + touched (off + length xs) (length ys) \<le> touched off (length (xs @ ys))"
  shows "written s i K off (xs @ ys) u"
proof -
  obtain N where N: "tx s N (blk t) t" "N \<subseteq> bmap_at s i ` {..<K}" "finite N" "card N \<le> touched off (length xs)"
    "\<And>b. b \<notin> bmap_at s i ` {..<K} \<Longrightarrow> blk t b = blk s b"
    "\<And>p. p < K * 512 \<Longrightarrow> file_byte t i p = patched (file_byte s i) off xs p"
    using writtenD [OF w] by metis
  have e: "bmap_at t i ` {..<K} = bmap_at s i ` {..<K}" using written_mapped(3) [OF m w] by (auto simp: image_iff)
  obtain M where M: "tx t M (blk u) u" "M \<subseteq> bmap_at s i ` {..<K}" "finite M" "card M \<le> touched (off + length xs) (length ys)"
    "\<And>b. b \<notin> bmap_at s i ` {..<K} \<Longrightarrow> blk u b = blk t b"
    "\<And>p. p < K * 512 \<Longrightarrow> file_byte u i p = patched (file_byte t i) (off + length xs) ys p"
    using writtenD [OF v] unfolding e by metis
  have "card (N \<union> M) \<le> touched off (length (xs @ ys))"
    using card_Un_le [of N M] N(4) M(4) c by linarith
  moreover have "patched (file_byte t i) (off + length xs) ys p = patched (file_byte s i) off (xs @ ys) p" if "p < K * 512" for p
    using that by (simp add: patched_append [symmetric]) (simp add: patched_def N(6))
  ultimately show ?thesis
    using tx_trans [OF N(1) M(1)] N(2,5) M(2,5,6) unfolding written_def by (metis Un_least)
qed

text \<open>One round of the loop of \<open>writei\<close>.\<close>

lemma writei_round:
  fixes s :: "'z cons_state_scheme"
  assumes s: "in_op s (Suc k)" and m: "mapped s i K" "separate s i K"
    and off: "unat off div 512 < K" "unat off mod 512 + length xs \<le> 512" "xs \<noteq> []"
  shows "\<exists>t j u v w. bmap i (off div 512) s = Ok (bmap_at s i (unat off div 512)) t \<and> i_dev (inodes t i) = 1
    \<and> bread 1 (bmap_at s i (unat off div 512)) t = Ok j u
    \<and> log_write j (with_buf j (\<lambda>b. b\<lparr>b_data := splice (unat off mod 512) xs (b_data b)\<rparr>) u) = Ok () v
    \<and> brelse j v = Ok () w \<and> written s i K (unat off) xs w"
proof -
  let ?n = "bmap_at s i (unat off div 512)"
  let ?d = "splice (unat off mod 512) xs (blk s ?n)"
  obtain t where t: "bmap i (off div 512) s = Ok ?n t" "tx s {} (blk s) t"
    using bmap_run [OF s m(1), of "off div 512"] off(1) by (auto simp: unat_block)
  have it: "in_op t (Suc k)" using in_op_tx [OF s t(2), of 0] by simp
  have tt: "target t ?n" using mappedD(4) [OF m(1) off(1)] by (simp add: target_tx [OF t(2)])
  have l: "length (blk s ?n) = 512" by (rule in_opD(6) [OF s])
  then have "length ?d = 512" using off(2) by simp
  then obtain j u v w where r: "bread 1 ?n t = Ok j u" "bread_post t ?n j u"
    "log_write j (with_buf j (\<lambda>b. b\<lparr>b_data := ?d\<rparr>) u) = Ok () v" "brelse j v = Ok () w" "tx t {?n} ((blk t)(?n := ?d)) w"
    using log_update_chain [of t ?n ?d] in_opD [OF it] tt by (auto simp: target_def)
  have bw: "blk w = (blk s)(?n := ?d)" using txD(4) [OF r(5)] txD(4) [OF t(2)] by simp
  have tw: "tx s {?n} (blk w) w" using tx_trans [OF t(2) r(5)] bw by (simp add: txD(4) [OF t(2)])
  have "?n \<in> bmap_at s i ` {..<K}" using off(1) by (intro imageI) simp
  then have "?n \<noteq> i_addrs (inodes s i) ! 12" if "12 < K"
    using m(2) that unfolding separate_def by auto
  then have bm: "bmap_at w i k = bmap_at s i k" if "k < K" for k
    using that by (intro mapped_tx(2) [OF m(1) tw]) (auto simp: bw)
  have "1 \<le> touched (unat off) (length xs)" using off(3) by (simp add: touched_def)
  moreover have "file_byte w i p = patched (file_byte s i) (unat off) xs p" if "p < K * 512" for p
    using that by (intro file_byte_write [OF m(2) off(1,2) l bm bw] less_mult_imp_div_less)
  ultimately have "written s i K (unat off) xs w"
    using tw off(1) unfolding written_def by (auto simp: bw intro!: exI [of _ "{?n}"])
  moreover have "i_dev (inodes t i) = 1" using mappedD(1) [OF m(1)] by (simp add: tx_inode [OF t(2)])
  moreover have "b_data (bufs u j) = blk s ?n" using bread_postD(7) [OF r(2)] by (simp add: txD(4) [OF t(2)])
  ultimately show ?thesis
    using t(1) r(1,3,4) with_buf_data [of u j "blk s ?n" "splice (unat off mod 512) xs"] by auto
qed

lemma writei_loop_run:
  fixes s :: "'z cons_state_scheme"
  assumes "in_op s (touched (unat off) r + k)" and "mapped s i K" and "separate s i K"
    and "unat off + r \<le> K * 512" and "length src = r"
  shows "\<exists>t. writei_loop i off r src s = Ok (off + of_nat r) t \<and> written s i K (unat off) src t"
  using assms
proof (induction r arbitrary: off src s rule: less_induct)
  case (less r)
  show ?case
  proof (cases "r = 0")
    case True
    then show ?thesis using tx_refl [OF in_opD(1) [OF less.prems(1)]] less.prems(5)
      by (auto simp: writei_loop.simps written_def touched_def patched_def)
  next
    case False
    define m where "m = block_rest off r"
    have mf: "0 < m" "m \<le> r" "unat off mod 512 + m \<le> 512" using block_rest_facts [OF _ m_def] False by auto
    have tc: "Suc (touched (unat off + m) (r - m)) \<le> touched (unat off) r" using touched_step [OF _ m_def] False by simp
    let ?xs = "take m src" and ?k = "touched (unat off) r + k - 1"
    have len: "length ?xs = m" using mf(2) less.prems(5) by simp
    have k1: "Suc ?k = touched (unat off) r + k" using tc by linarith
    have s1: "in_op s (Suc ?k)" unfolding k1 by (rule less.prems(1))
    have bn: "unat off div 512 < K" using False less.prems(4) by (intro less_mult_imp_div_less) linarith
    have "unat off mod 512 + length ?xs \<le> 512" "?xs \<noteq> []" using mf len by auto
    from writei_round [OF s1 less.prems(2,3) bn this]
    obtain t j u v w where r: "bmap i (off div 512) s = Ok (bmap_at s i (unat off div 512)) t" "i_dev (inodes t i) = 1"
      "bread 1 (bmap_at s i (unat off div 512)) t = Ok j u"
      "log_write j (with_buf j (\<lambda>b. b\<lparr>b_data := splice (unat off mod 512) ?xs (b_data b)\<rparr>) u) = Ok () v"
      "brelse j v = Ok () w" and w: "written s i K (unat off) ?xs w" by blast
    obtain N where N: "tx s N (blk w) w" "finite N" "card N \<le> touched (unat off) (length ?xs)" using writtenD [OF w] by metis
    have t1: "touched (unat off) m = 1" using mf by (simp add: touched_def)
    have iw: "in_op w (touched (unat off + m) (r - m) + k)"
      using in_op_mono [OF in_op_tx [OF less.prems(1) N(1,2), of 1]] N(3) tc len t1 by simp
    have uo: "unat (off + of_nat m) = unat off + m"
      using less.prems(4) mf(2) mappedD(2) [OF less.prems(2)] by (intro unat_plus_nat) linarith
    have "unat (off + of_nat m) + (r - m) \<le> K * 512" "length (drop m src) = r - m" "r - m < r"
      unfolding uo using less.prems(4,5) mf by simp_all
    from less.IH [OF this(3) _ written_mapped(1,2) [OF less.prems(2,3) w] this(1,2)] iw
    obtain z where z: "writei_loop i (off + of_nat m) (r - m) (drop m src) w = Ok (off + of_nat m + of_nat (r - m)) z"
      "written w i K (unat off + m) (drop m src) z" unfolding uo by blast
    have "off + of_nat m + of_nat (r - m) = off + of_nat r" using mf(2) by (simp add: of_nat_diff)
    then have "writei_loop i off r src s = Ok (off + of_nat r) z"
      using False z(1) r by (subst writei_loop.simps) (simp add: m_def [symmetric])
    moreover have "written s i K (unat off) (?xs @ drop m src) z"
      using z(2) tc len t1 less.prems(5) mf(2) by (intro written_trans [OF less.prems(2,3) w]) simp_all
    ultimately show ?thesis by auto
  qed
qed

section \<open>The functions\<close>

lemma small_size:
  assumes "r \<le> 140 * 512"
  shows "unat (of_nat r :: uint) = r" "sint (of_nat r :: uint) = int r"
proof -
  show u: "unat (of_nat r :: uint) = r" using assms by (simp add: unat_of_nat)
  show "sint (of_nat r :: uint) = int r"
    using assms by (simp add: signed_of_nat signed_take_bit_int_eq_self)
qed

lemma no_wrap:
  assumes "unat off + r \<le> 140 * 512"
  shows "unat (off + of_nat r :: uint) = unat off + r" "\<not> off + of_nat r < off"
    "off + of_nat r > (x :: uint) \<longleftrightarrow> unat off + r > unat x"
proof -
  show u: "unat (off + of_nat r :: uint) = unat off + r" using assms by (intro unat_plus_nat) linarith
  show "\<not> off + of_nat r < off" "off + of_nat r > (x :: uint) \<longleftrightarrow> unat off + r > unat x"
    unfolding word_less_nat_alt u by simp_all
qed

lemma readi_run:
  fixes s :: "'z cons_state_scheme"
  assumes s: "in_op s k" "mapped s i K" "i_type (inodes s i) \<noteq> T_DEV"
    and r: "unat off + r \<le> unat (i_size (inodes s i))" "unat off + r \<le> K * 512"
  shows "\<exists>t. readi i off (of_nat r) s = Ok (int r, file_bytes s i (unat off) r) t \<and> tx s {} (blk s) t"
proof -
  obtain t where t: "readi_loop i off r s = Ok (file_bytes s i (unat off) r) t" "tx s {} (blk s) t"
    using readi_loop_run [OF s(1,2) r(2)] by blast
  have "unat off + r \<le> 140 * 512" using r(2) mappedD(2) [OF s(2)] by linarith
  note w = small_size [of r] no_wrap [OF this]
  have "\<not> off > i_size (inodes s i)" using r(1) by (simp add: word_less_nat_alt)
  moreover have "\<not> off + of_nat r > i_size (inodes s i)" unfolding w(5) using r(1) by simp
  ultimately have "readi i off (of_nat r) s = Ok (int r, file_bytes s i (unat off) r) t"
    using s(3) t(1) w(1,2,4) \<open>unat off + r \<le> 140 * 512\<close> by (simp add: readi_def)
  with t(2) show ?thesis by blast
qed

text \<open>The inode block is not a block of the file.\<close>

definition apart :: "'z inode_state_scheme \<Rightarrow> nat \<Rightarrow> nat \<Rightarrow> bool" where
  "apart s i K \<longleftrightarrow> inode_ok s i \<and> inode_block s i \<notin> bmap_at s i ` {..<K}
     \<and> (NDIRECT < K \<longrightarrow> inode_block s i \<noteq> i_addrs (inodes s i) ! NDIRECT)"

text \<open>The end of \<open>writei\<close>: the new size is stored.\<close>

lemma grow_run:
  fixes s :: "'z cons_state_scheme"
  assumes s: "in_op s (Suc k)" "mapped s i K" "apart s i K"
  shows "\<exists>t. iupdate i (with_inode i (\<lambda>x. x\<lparr>i_size := n\<rparr>) s) = Ok () t \<and> in_op t k \<and> mapped t i K
    \<and> apart t i K \<and> (separate s i K \<longrightarrow> separate t i K)
    \<and> inodes t = (inodes s)(i := (inodes s i)\<lparr>i_size := n\<rparr>) \<and> (\<forall>p<K * 512. file_byte t i p = file_byte s i p)"
proof -
  define u where "u = with_inode i (\<lambda>x. x\<lparr>i_size := n\<rparr>) s"
  have bu: "bmap_at u i = bmap_at s i" by (simp add: u_def bmap_at_def fun_eq_iff)
  have u: "in_op u (Suc k)" "mapped u i K" "inode_ok u i" "inode_block u i = inode_block s i"
    using s bu by (simp_all add: u_def apart_def mapped_def inode_ok_def)
  obtain t g where t: "iupdate i u = Ok () t" "tx u {inode_block s i} g t" "\<And>b. b \<noteq> inode_block s i \<Longrightarrow> g b = blk s b"
    using iupdate_run [OF u(1,3)] unfolding u(4) by (fastforce simp: u_def)
  have "g (i_addrs (inodes u i) ! 12) = blk u (i_addrs (inodes u i) ! 12)" if "12 < K"
    using s(3) that t(3) by (auto simp: u_def apart_def)
  note m = mapped_tx [OF u(2) t(2) this]
  have "file_byte t i p = file_byte s i p" if "p < K * 512" for p
  proof -
    have k: "p div 512 < K" using that by (rule less_mult_imp_div_less)
    then have "inode_block s i \<noteq> bmap_at s i (p div 512)" using s(3) by (auto simp: apart_def)
    then show ?thesis using t(3) m(2) [OF _ k] by (simp add: file_byte_def txD(4) [OF t(2)] bu)
  qed
  moreover have "in_op t k" using in_op_tx [OF u(1) t(2), of 1] by simp
  moreover have ti: "inodes t = (inodes s)(i := (inodes s i)\<lparr>i_size := n\<rparr>)" by (simp add: tx_inode [OF t(2)] u_def)
  moreover have bt: "bmap_at t i k = bmap_at s i k" if "k < K" for k using m(2) [OF _ that] by (simp add: bu)
  then have im: "bmap_at t i ` {..<K} = bmap_at s i ` {..<K}" by (auto simp: image_iff)
  have "apart t i K"
    using s(3) unfolding apart_def im by (simp add: inode_ok_def ti target_tx [OF t(2)] tx_inode [OF t(2)]) (simp add: u_def)
  moreover have "separate s i K \<longrightarrow> separate t i K"
    unfolding separate_def im ti using bt by (simp add: inj_on_def)
  ultimately show ?thesis using t(1) m(1) by (auto simp: u_def)
qed

lemma written_apart:
  assumes m: "mapped s i K" "separate s i K" "apart s i K" and w: "written s i K off xs t"
  shows "apart t i K"
proof -
  obtain N where N: "tx s N (blk t) t" using writtenD [OF w] by metis
  have "bmap_at t i ` {..<K} = bmap_at s i ` {..<K}" using written_mapped(3) [OF m(1,2) w] by (auto simp: image_iff)
  then show ?thesis using m(3) by (simp add: apart_def inode_ok_def tx_inode [OF N] target_tx [OF N])
qed

lemma writei_run:
  fixes s :: "'z cons_state_scheme"
  assumes s: "in_op s (touched (unat off) (length src) + 1)" "mapped s i K" "separate s i K" "apart s i K"
    "i_type (inodes s i) \<noteq> T_DEV"
    and r: "off \<le> i_size (inodes s i)" "unat off + length src \<le> K * 512"
  shows "\<exists>t. writei i src off (of_nat (length src)) s = Ok (int (length src)) t \<and> in_op t 0 \<and> mapped t i K \<and> separate t i K \<and> apart t i K
    \<and> unat (i_size (inodes t i)) = max (unat (i_size (inodes s i))) (if src = [] then 0 else unat off + length src)
    \<and> inodes t = (inodes s)(i := (inodes s i)\<lparr>i_size := i_size (inodes t i)\<rparr>)
    \<and> (\<forall>p<K * 512. file_byte t i p = patched (file_byte s i) (unat off) src p)"
proof -
  let ?r = "length src"
  obtain t where t: "writei_loop i off ?r src s = Ok (off + of_nat ?r) t" "written s i K (unat off) src t"
    using writei_loop_run [OF s(1-3) r(2) refl] by blast
  have small: "unat off + ?r \<le> 140 * 512" using r(2) mappedD(2) [OF s(2)] by linarith
  note w = small_size [of ?r] no_wrap [OF small]
  obtain N where N: "tx s N (blk t) t" "finite N" "card N \<le> touched (unat off) ?r"
    "\<And>b. b \<notin> bmap_at s i ` {..<K} \<Longrightarrow> blk t b = blk s b"
    "\<And>p. p < K * 512 \<Longrightarrow> file_byte t i p = patched (file_byte s i) (unat off) src p"
    using writtenD [OF t(2)] by metis
  note mt = written_mapped [OF s(2,3) t(2)]
  have it: "in_op t 1" using in_op_tx [OF s(1) N(1,2,3)] by simp
  note e = tx_inode [OF N(1)]
  have guards: "\<not> off > i_size (inodes s i)" "\<not> off + of_nat ?r > of_nat (MAXFILE * BSIZE)"
    using r(1) small unfolding w(5) by (simp_all add: not_less)
  show ?thesis
  proof (cases "src \<noteq> [] \<and> unat off + ?r > unat (i_size (inodes s i))")
    case False
    then have "\<not> (of_nat ?r > (0 :: uint) \<and> off + of_nat ?r > i_size (inodes s i))"
      unfolding w(5) using small w(1) by (auto simp: word_less_nat_alt)
    then have "writei i src off (of_nat ?r) s = Ok (int ?r) t"
      using s(5) guards w small t(1) by (auto simp: writei_def e)
    then show ?thesis
      using in_op_mono [OF it, of 0] mt(1,2) written_apart [OF s(2-4) t(2)] False N(5) by (auto simp: e max_def)
  next
    case True
    have g: "of_nat ?r > (0 :: uint)" "off + of_nat ?r > i_size (inodes s i)"
      unfolding w(5) using True small w(1) by (auto simp: word_less_nat_alt)
    obtain u where u: "iupdate i (with_inode i (\<lambda>x. x\<lparr>i_size := off + of_nat ?r\<rparr>) t) = Ok () u" "in_op u 0" "mapped u i K"
      "separate u i K" "apart u i K" "inodes u = (inodes t)(i := (inodes t i)\<lparr>i_size := off + of_nat ?r\<rparr>)" "\<And>p. p < K * 512 \<Longrightarrow> file_byte u i p = file_byte t i p"
      using grow_run [OF it [unfolded One_nat_def] mt(1) written_apart [OF s(2-4) t(2)]] mt(2) by metis
    have "writei i src off (of_nat ?r) s = Ok (int ?r) u"
      using s(5) guards w(1,2,4) small t(1) u(1) g by (simp add: writei_def e)
    then show ?thesis
      using u(2-7) True N(5) w(3) by (auto simp: e max_def)
  qed
qed

text \<open>
  C24: Bytes written with \<open>writei\<close> into blocks a file already has are what a following
  \<open>readi\<close> of that range returns, through direct and indirect blocks, across block
  boundaries and with the cache and the log in between. The bytes outside the range are as
  they were, the size grows to the end of the range when it lies beyond, and both calls return
  the number of bytes.
\<close>

theorem writei_readi_roundtrip:
  fixes s :: "'z cons_state_scheme"
  assumes s: "in_op s (touched (unat off) (length src) + 1)" "mapped s i K" "separate s i K" "apart s i K"
    "i_type (inodes s i) \<noteq> T_DEV" "src \<noteq> []"
    and r: "off \<le> i_size (inodes s i)" "unat off + length src \<le> K * 512"
  shows "\<exists>t u. writei i src off (of_nat (length src)) s = Ok (int (length src)) t
    \<and> readi i off (of_nat (length src)) t = Ok (int (length src), src) u
    \<and> unat (i_size (inodes u i)) = max (unat (i_size (inodes s i))) (unat off + length src)
    \<and> (\<forall>p<K * 512. file_byte u i p = patched (file_byte s i) (unat off) src p)"
proof -
  let ?r = "length src"
  obtain t where t: "writei i src off (of_nat ?r) s = Ok (int ?r) t" "in_op t 0" "mapped t i K"
    "unat (i_size (inodes t i)) = max (unat (i_size (inodes s i))) (unat off + ?r)"
    "inodes t = (inodes s)(i := (inodes s i)\<lparr>i_size := i_size (inodes t i)\<rparr>)"
    "\<And>p. p < K * 512 \<Longrightarrow> file_byte t i p = patched (file_byte s i) (unat off) src p"
    using writei_run [OF s(1-5) r] s(6) by auto
  have ty: "i_type (inodes t i) = i_type (inodes s i)" by (subst t(5)) simp
  have src: "file_bytes t i (unat off) ?r = src"
    using r(2) by (intro nth_equalityI) (auto simp: file_bytes_def t(6) patched_def)
  obtain u where u: "readi i off (of_nat ?r) t = Ok (int ?r, src) u" "tx t {} (blk t) u"
    using readi_run [OF t(2,3) _ _ r(2)] s(5) t(4) ty src by auto
  have "file_byte u i p = file_byte t i p" for p
    using txD(4) [OF u(2)] by (simp add: file_byte_def bmap_at_def tx_inode [OF u(2)])
  with t(1,4,6) u(1) show ?thesis by (auto simp: tx_inode [OF u(2)])
qed

text \<open>A file of two blocks, 100 and 101, of which the last bytes of the first and the first bytes of the second are written.\<close>

definition sample_file :: inode where
  "sample_file = sample_inode\<lparr>i_size := 600, i_addrs := [100, 101] @ replicate 11 0\<rparr>"

lemma sample_blocks:
  fixes z :: 'z
  assumes x: "i_addrs x = [100, 101] @ replicate 11 0" "i_dev x = 1" "i_inum x = 5"
  defines "s \<equiv> with_inode 0 (\<lambda>_. x) (cons_boot sample_disk z)"
  shows "mapped s 0 2" "separate s 0 2" "apart s 0 2" "k \<le> 29 \<Longrightarrow> in_op s k" "inodes s = (\<lambda>_. empty_inode)(0 := x)"
proof -
  show i: "inodes s = (\<lambda>_. empty_inode)(0 := x)" by (simp add: s_def cons_boot_def)
  have t: "target s n \<longleftrightarrow> unat n < 1000 \<and> unat n \<notin> {2..<32}" for n by (auto simp: s_def target_def cons_boot_def sample_log)
  have b: "bmap_at s 0 0 = 100" "bmap_at s 0 (Suc 0) = 101" by (simp_all add: bmap_at_def i x)
  have lt: "k < 2 \<longleftrightarrow> k = 0 \<or> k = Suc 0" "{..<2 :: nat} = {0, Suc 0}" for k :: nat by auto
  have bl: "inode_block s 0 = 32" by (simp add: i x IBLOCK_def) (simp add: s_def mkfs_sb_def cons_boot_def)
  show "mapped s 0 2" using b by (auto simp: mapped_def i x t lt(1))
  show "separate s 0 2" using b by (simp add: separate_def lt(2))
  show "apart s 0 2" unfolding apart_def inode_ok_def bl lt(2) using b by (simp add: i x t)
  show "k \<le> 29 \<Longrightarrow> in_op s k" by (simp add: s_def cons_boot_def sample_in_op)
qed

abbreviation sample_console :: cons_state where
  "sample_console \<equiv> with_inode 0 (\<lambda>_. sample_file) (cons_boot sample_disk ())"

theorem writei_readi_roundtrip_witness:
  "\<exists>t u. writei 0 (replicate 200 7) 500 200 sample_console = Ok 200 t
    \<and> readi 0 500 200 t = Ok (200, replicate 200 7) u \<and> i_size (inodes u 0) = 700"
proof -
  let ?b = "replicate 200 7 :: uchar list"
  have x: "i_addrs sample_file = [100, 101] @ replicate 11 0" "i_dev sample_file = 1" "i_inum sample_file = 5"
    "i_size sample_file = 600" "i_type sample_file = T_FILE"
    by (simp_all add: sample_file_def sample_inode_def)
  define s where "s = sample_console"
  note b = sample_blocks [OF x(1-3), where z = "()", folded s_def]
  have "in_op s (touched (unat (500 :: uint)) (length ?b) + 1)" using b(4) by (simp add: touched_def)
  then obtain t u where "writei 0 ?b 500 200 s = Ok 200 t" "readi 0 500 200 t = Ok (200, ?b) u"
    "unat (i_size (inodes u 0)) = 700"
    using writei_readi_roundtrip [OF _ b(1-3), of 500 ?b] by (auto simp: word_le_nat_alt b(5) x)
  moreover from this(3) have "i_size (inodes u 0) = 700" by (simp add: unat_eq_iff_word [symmetric])
  ultimately show ?thesis unfolding s_def by blast
qed

end
