(* ===== verification/Dirs.thy ===== *)
theory Dirs
  imports Filedata
begin

text \<open>
  Directories as finite maps from names to inode numbers: \<open>dirlookup\<close> looks a name up and
  \<open>dirlink\<close> adds one, on a file whose content is an array of entries. Names count up to their
  terminator or 14 bytes. Then the splitting of paths into such names.
\<close>

section \<open>Content of a directory\<close>

definition dent :: "'z inode_state_scheme \<Rightarrow> nat \<Rightarrow> nat \<Rightarrow> dirent" where
  "dent s dp k = dirent_of (file_bytes s dp (16 * k) 16)"

definition dslots :: "'z inode_state_scheme \<Rightarrow> nat \<Rightarrow> nat" where
  "dslots s dp = unat (i_size (inodes s dp)) div 16"

definition dmatch :: "uchar list \<Rightarrow> dirent \<Rightarrow> bool" where
  "dmatch name de \<longleftrightarrow> de_inum de \<noteq> 0 \<and> namecmp name (de_name de) = 0"

definition dir_slot :: "'z inode_state_scheme \<Rightarrow> nat \<Rightarrow> uchar list \<Rightarrow> nat option" where
  "dir_slot s dp name = find (\<lambda>k. dmatch name (dent s dp k)) [0..<dslots s dp]"

definition dir_inum :: "'z inode_state_scheme \<Rightarrow> nat \<Rightarrow> uchar list \<Rightarrow> ushort option" where
  "dir_inum s dp name = map_option (\<lambda>k. de_inum (dent s dp k)) (dir_slot s dp name)"

text \<open>A directory whose first \<open>K\<close> blocks exist and hold all its entries.\<close>

definition dir_ok :: "'z inode_state_scheme \<Rightarrow> nat \<Rightarrow> nat \<Rightarrow> bool" where
  "dir_ok s dp K \<longleftrightarrow> i_type (inodes s dp) = T_DIR \<and> mapped s dp K \<and> separate s dp K \<and> apart s dp K
     \<and> 16 dvd unat (i_size (inodes s dp)) \<and> unat (i_size (inodes s dp)) \<le> K * 512"

lemma dir_okD:
  assumes "dir_ok s dp K"
  shows "i_type (inodes s dp) = T_DIR" "mapped s dp K" "separate s dp K" "apart s dp K"
    "unat (i_size (inodes s dp)) = 16 * dslots s dp" "16 * dslots s dp \<le> K * 512" "16 * dslots s dp \<le> 71680"
    "i_dev (inodes s dp) = 1" "dirent_offs (i_size (inodes s dp)) = map (\<lambda>k. of_nat (16 * k)) [0..<dslots s dp]"
proof -
  show "i_type (inodes s dp) = T_DIR" "separate s dp K" "apart s dp K" using assms by (simp_all add: dir_ok_def)
  show m: "mapped s dp K" using assms by (simp add: dir_ok_def)
  show "i_dev (inodes s dp) = 1" by (rule mappedD(1) [OF m])
  show u: "unat (i_size (inodes s dp)) = 16 * dslots s dp" using assms by (simp add: dir_ok_def dslots_def)
  then show k: "16 * dslots s dp \<le> K * 512" using assms by (simp add: dir_ok_def)
  with mappedD(2) [OF m] show "16 * dslots s dp \<le> 71680" by linarith
  show "dirent_offs (i_size (inodes s dp)) = map (\<lambda>k. of_nat (16 * k)) [0..<dslots s dp]"
    unfolding dirent_offs_def u by (simp add: div_add1_eq)
qed

text \<open>Reading leaves everything as it is.\<close>

abbreviation unchanged :: "'z inode_state_scheme \<Rightarrow> 'z inode_state_scheme \<Rightarrow> bool" where
  "unchanged s t \<equiv> tx s {} (blk s) t"

lemma unchanged_file:
  assumes "unchanged s t"
  shows "bmap_at t i = bmap_at s i" "file_byte t i = file_byte s i" "file_bytes t i = file_bytes s i"
  by (simp_all add: fun_eq_iff file_bytes_def file_byte_def bmap_at_def tx_inode [OF assms] txD(4) [OF assms])

lemma unchanged_dir:
  assumes "unchanged s t"
  shows "dent t dp = dent s dp" "dslots t dp = dslots s dp" "dir_slot t dp = dir_slot s dp" "dir_inum t dp = dir_inum s dp"
    "dir_ok t dp K = dir_ok s dp K"
  by (simp_all add: fun_eq_iff dent_def dslots_def dir_slot_def dir_inum_def dir_ok_def mapped_def separate_def apart_def
      inode_ok_def unchanged_file [OF assms] tx_inode [OF assms] target_tx [OF assms])

lemma unchanged_trans: "unchanged s t \<Longrightarrow> unchanged t u \<Longrightarrow> unchanged s u"
  using tx_trans [of s "{}" "blk s" t "{}" "blk t" u] txD(4) [of s "{}" "blk s" t] by simp

lemma unchanged_op: "unchanged s t \<Longrightarrow> in_op s k \<Longrightarrow> in_op t k"
  using in_op_tx [of s k "{}" "blk s" t 0] by simp

lemma small_off: "k \<le> 71680 \<Longrightarrow> unat (of_nat k :: uint) = k"
  by (simp add: unat_of_nat)

lemma read_entry:
  fixes s :: "'z cons_state_scheme"
  assumes s: "in_op s j" "dir_ok s dp K" "k < dslots s dp"
  shows "\<exists>bs t. readi dp (of_nat (16 * k)) 16 s = Ok (16, bs) t \<and> dirent_of bs = dent s dp k \<and> unchanged s t"
proof -
  note d = dir_okD [OF s(2)]
  have k: "16 * k + 16 \<le> 16 * dslots s dp" "unat (of_nat (16 * k) :: uint) = 16 * k"
    using s(3) d(7) small_off [of "16 * k"] by simp_all
  then show ?thesis
    using readi_run [OF s(1) d(2), of "of_nat (16 * k)" 16] d(1,5,6) by (auto simp: dent_def)
qed

section \<open>Looking up\<close>

lemma lookup_from_run:
  fixes s :: "'z cons_state_scheme"
  assumes "in_op s j" "dir_ok s dp K" "\<forall>k\<in>set ks. k < dslots s dp"
  shows "\<exists>t. unchanged s t \<and> dirlookup_from dp name (map (\<lambda>k. of_nat (16 * k)) ks) s =
    (case find (\<lambda>k. dmatch name (dent s dp k)) ks of None \<Rightarrow> Ok None t
     | Some k \<Rightarrow> bind (iget 1 (ucast (de_inum (dent s dp k)))) (\<lambda>ip. return (Some (ip, of_nat (16 * k)))) t)"
  using assms
proof (induction ks arbitrary: s)
  case Nil
  then show ?case using tx_refl [OF in_opD(1) [OF Nil(1)]] by auto
next
  case (Cons k ks)
  obtain bs t where t: "readi dp (of_nat (16 * k)) 16 s = Ok (16, bs) t" "dirent_of bs = dent s dp k" "unchanged s t"
    using read_entry [OF Cons.prems(1,2), of k] Cons.prems(3) by auto
  note u = unchanged_dir [OF t(3)]
  have dev: "i_dev (inodes t dp) = 1" using dir_okD(8) [OF Cons.prems(2)] by (simp add: tx_inode [OF t(3)])
  show ?case
  proof (cases "dmatch name (dent s dp k)")
    case True
    then show ?thesis using t dev by (auto simp: dmatch_def Let_def)
  next
    case False
    obtain w where w: "unchanged t w" "dirlookup_from dp name (map (\<lambda>k. of_nat (16 * k)) ks) t =
      (case find (\<lambda>k. dmatch name (dent s dp k)) ks of None \<Rightarrow> Ok None w
       | Some k \<Rightarrow> bind (iget 1 (ucast (de_inum (dent s dp k)))) (\<lambda>ip. return (Some (ip, of_nat (16 * k)))) w)"
      using Cons.IH [OF unchanged_op [OF t(3) Cons.prems(1)]] Cons.prems(2,3) unfolding u by auto
    have "dirlookup_from dp name (map (\<lambda>k. of_nat (16 * k)) (k # ks)) s = dirlookup_from dp name (map (\<lambda>k. of_nat (16 * k)) ks) t"
      using False t(1,2) by (auto simp: dmatch_def Let_def)
    then show ?thesis using False w unchanged_trans [OF t(3) w(1)] by auto
  qed
qed

lemma dirlookup_run:
  fixes s :: "'z cons_state_scheme"
  assumes "in_op s j" "dir_ok s dp K"
  shows "\<exists>t. unchanged s t \<and> dirlookup dp name s =
    (case dir_slot s dp name of None \<Rightarrow> Ok None t
     | Some k \<Rightarrow> bind (iget 1 (ucast (de_inum (dent s dp k)))) (\<lambda>ip. return (Some (ip, of_nat (16 * k)))) t)"
  using lookup_from_run [OF assms, of "[0..<dslots s dp]" name] dir_okD(1,9) [OF assms(2)]
  by (simp add: dirlookup_def dir_slot_def)

section \<open>Adding a name\<close>

definition free_slot :: "'z inode_state_scheme \<Rightarrow> nat \<Rightarrow> nat list \<Rightarrow> nat" where
  "free_slot s dp ks = (case find (\<lambda>k. de_inum (dent s dp k) = 0) ks of Some k \<Rightarrow> k | None \<Rightarrow> dslots s dp)"

lemma slot_run:
  fixes s :: "'z cons_state_scheme"
  assumes "in_op s j" "dir_ok s dp K" "\<forall>k\<in>set ks. k < dslots s dp"
  shows "\<exists>t. unchanged s t \<and>
    dirlink_slot dp (map (\<lambda>k. of_nat (16 * k)) ks) (of_nat (16 * dslots s dp)) s = Ok (of_nat (16 * free_slot s dp ks)) t"
  using assms
proof (induction ks arbitrary: s)
  case Nil
  then show ?case using tx_refl [OF in_opD(1) [OF Nil(1)]] by (auto simp: free_slot_def)
next
  case (Cons k ks)
  obtain bs t where t: "readi dp (of_nat (16 * k)) 16 s = Ok (16, bs) t" "dirent_of bs = dent s dp k" "unchanged s t"
    using read_entry [OF Cons.prems(1,2), of k] Cons.prems(3) by auto
  note u = unchanged_dir [OF t(3)]
  show ?case
  proof (cases "de_inum (dent s dp k) = 0")
    case True
    then show ?thesis using t by (auto simp: free_slot_def)
  next
    case False
    obtain w where "unchanged t w"
      "dirlink_slot dp (map (\<lambda>k. of_nat (16 * k)) ks) (of_nat (16 * dslots s dp)) t = Ok (of_nat (16 * free_slot s dp ks)) w"
      using Cons.IH [OF unchanged_op [OF t(3) Cons.prems(1)]] Cons.prems(2,3) unfolding u free_slot_def by auto
    then show ?thesis using False t unchanged_trans [OF t(3)] by (auto simp: free_slot_def)
  qed
qed

lemma free_slot_props:
  fixes s :: "'z inode_state_scheme" and dp :: nat
  defines "k \<equiv> free_slot s dp [0..<dslots s dp]"
  shows "k \<le> dslots s dp" "k < dslots s dp \<Longrightarrow> de_inum (dent s dp k) = 0"
  unfolding k_def free_slot_def by (auto split: option.split dest: find_SomeD)

lemma write_entry:
  fixes s :: "'z cons_state_scheme"
  assumes s: "in_op s 2" "dir_ok s dp K" and k: "k \<le> dslots s dp" "16 * k + 16 \<le> K * 512"
    and de: "length (de_name de) = 14"
  shows "\<exists>t. writei dp (dirent_bytes de) (of_nat (16 * k)) 16 s = Ok 16 t \<and> in_op t 0 \<and> dir_ok t dp K
    \<and> dslots t dp = max (dslots s dp) (Suc k) \<and> (\<forall>i. i_ref (inodes t i) = i_ref (inodes s i))
    \<and> (\<forall>j. 16 * j + 16 \<le> K * 512 \<longrightarrow> dent t dp j = (if j = k then de else dent s dp j))"
proof -
  note d = dir_okD [OF s(2)]
  let ?b = "dirent_bytes de"
  have b: "length ?b = 16" by (rule length_dirent_bytes [OF de])
  then have b': "?b \<noteq> []" by auto
  define off :: uint where "off = of_nat (16 * k)"
  have o: "unat off = 16 * k" using k(1) d(7) unfolding off_def by (intro small_off) simp
  have "16 * k mod 512 = 16 * (k mod 32)" using mult_mod_right [of 16 k 32] by simp
  moreover have "k mod 32 < 32" by simp
  ultimately have "touched (16 * k) 16 = 1" by (simp add: touched_def)
  then obtain t where t: "writei dp ?b off 16 s = Ok 16 t" "in_op t 0" "mapped t dp K" "separate t dp K" "apart t dp K"
    "unat (i_size (inodes t dp)) = max (16 * dslots s dp) (16 * k + 16)"
    "inodes t = (inodes s)(dp := (inodes s dp)\<lparr>i_size := i_size (inodes t dp)\<rparr>)"
    "\<And>p. p < K * 512 \<Longrightarrow> file_byte t dp p = patched (file_byte s dp) (16 * k) ?b p"
    using writei_run [of s off ?b dp K] s(1) d(1-6) k b' by (auto simp: word_le_nat_alt o numeral_2_eq_2 b)
  have sl: "dslots t dp = max (dslots s dp) (Suc k)" unfolding dslots_def [of t] t(6) by (simp add: max_def)
  have ty: "i_type (inodes t dp) = T_DIR" "\<forall>i. i_ref (inodes t i) = i_ref (inodes s i)" using d(1) by (subst t(7), simp)+
  have "dir_ok t dp K" using t(3-5) ty d(6) k(2) unfolding dir_ok_def t(6) by (auto simp: max_def)
  have "dent t dp j = (if j = k then de else dent s dp j)" if "16 * j + 16 \<le> K * 512" for j
  proof (cases "j = k")
    case True
    have "file_bytes t dp (16 * k) 16 = ?b"
      using k(2) b by (intro nth_equalityI) (auto simp: file_bytes_def t(8) patched_def)
    then show ?thesis using True dirent_of_bytes [OF de] by (simp add: dent_def)
  next
    case False
    have "file_bytes t dp (16 * j) 16 = file_bytes s dp (16 * j) 16"
      using that b False by (intro nth_equalityI) (auto simp: file_bytes_def t(8) patched_def)
    then show ?thesis using False by (simp add: dent_def)
  qed
  then show ?thesis using t(1,2) sl ty \<open>dir_ok t dp K\<close> unfolding off_def by blast
qed

text \<open>An array of entries in which entry \<open>k\<close> did not match and now does or does not.\<close>

lemma find_upt_snoc: "find P [0..<Suc n] = (case find P [0..<n] of Some k \<Rightarrow> Some k | None \<Rightarrow> if P n then Some n else None)"
proof -
  have "find P (xs @ [y]) = (case find P xs of Some k \<Rightarrow> Some k | None \<Rightarrow> if P y then Some y else None)" for xs y
    by (induction xs) auto
  then show ?thesis by simp
qed

lemma find_same:
  assumes "\<And>j. j < n \<Longrightarrow> Q j = P j" and "k \<le> n" and "\<not> Q k"
  shows "find Q [0..<max n (Suc k)] = find P [0..<n]"
proof -
  have e: "find Q [0..<n] = find P [0..<n]" using assms(1) by (intro find_cong) auto
  show ?thesis
  proof (cases "k = n")
    case True
    then show ?thesis using e assms(3) by (simp add: find_upt_snoc max_def del: upt_Suc split: option.split)
  next
    case False
    then have "max n (Suc k) = n" using assms(2) by simp
    then show ?thesis using e by simp
  qed
qed

lemma find_only:
  assumes "\<And>j. j < n \<Longrightarrow> Q j \<longleftrightarrow> j = k" and "k < n"
  shows "find Q [0..<n] = Some k"
  using assms by (auto simp: find_Some_iff intro!: exI [of _ k])

lemma strncpy_idem: "strncpy (cstr_of (strncpy t n)) n = strncpy t n"
  by (induction t n rule: strncpy.induct) auto

text \<open>Names are the same when their first 14 bytes agree, up to the terminator.\<close>

definition same_name :: "uchar list \<Rightarrow> uchar list \<Rightarrow> bool" where
  "same_name m n \<longleftrightarrow> strncpy (cstr_of m) DIRSIZ = strncpy (cstr_of n) DIRSIZ"

lemma namecmp_same: "namecmp m n = 0 \<longleftrightarrow> same_name m n"
  by (simp add: namecmp_def same_name_def strncmp_strncpy)

lemma same_name_dmatch: "same_name m n \<Longrightarrow> dmatch m de = dmatch n de"
  by (simp add: dmatch_def namecmp_same same_name_def)

lemma dirlink_run:
  fixes s :: "'z cons_state_scheme"
  assumes s: "in_op s 2" "dir_ok s dp K" and room: "16 * dslots s dp + 16 \<le> K * 512"
    and none: "dir_slot s dp name = None"
  defines "k \<equiv> free_slot s dp [0..<dslots s dp]"
  shows "\<exists>t. dirlink dp name inum s = Ok 0 t \<and> in_op t 0 \<and> dir_ok t dp K \<and> (\<forall>i. i_ref (inodes t i) = i_ref (inodes s i))
    \<and> dslots t dp = max (dslots s dp) (Suc k)
    \<and> (\<forall>j. 16 * j + 16 \<le> K * 512 \<longrightarrow>
         dent t dp j = (if j = k then \<lparr>de_inum = ucast inum, de_name = strncpy (cstr_of name) DIRSIZ\<rparr> else dent s dp j))"
proof -
  let ?n = "dslots s dp"
  define de where "de = \<lparr>de_inum = ucast inum, de_name = strncpy (cstr_of name) DIRSIZ\<rparr>"
  note d = dir_okD [OF s(2)]
  have k: "k \<le> ?n" unfolding k_def by (rule free_slot_props(1))
  obtain t where t: "unchanged s t" "dirlookup dp name s = Ok None t"
    using dirlookup_run [OF s, of name] none by auto
  note u = unchanged_dir [OF t(1)]
  obtain v where v: "unchanged t v" "dirlink_slot dp (map (\<lambda>k. of_nat (16 * k)) [0..<?n]) (of_nat (16 * ?n)) t = Ok (of_nat (16 * k)) v"
    using slot_run [OF unchanged_op [OF t(1) s(1)], of dp K "[0..<?n]"] s(2) unfolding u free_slot_def k_def
    by (auto simp del: of_nat_mult)
  note sv = unchanged_trans [OF t(1) v(1)]
  note uv = unchanged_dir [OF sv]
  have "length (de_name de) = 14" by (simp add: de_def)
  from write_entry [OF unchanged_op [OF sv s(1)], of dp K k de, OF _ _ _ this]
  obtain w where w: "writei dp (dirent_bytes de) (of_nat (16 * k)) 16 v = Ok 16 w" "in_op w 0" "dir_ok w dp K"
    "dslots w dp = max ?n (Suc k)" "\<forall>i. i_ref (inodes w i) = i_ref (inodes v i)"
    "\<forall>j. 16 * j + 16 \<le> K * 512 \<longrightarrow> dent w dp j = (if j = k then de else dent s dp j)"
    using s(2) k room unfolding uv by auto
  have sz: "unat (i_size (inodes t dp)) = 16 * ?n" "dirent_offs (i_size (inodes t dp)) = map (\<lambda>k. of_nat (16 * k)) [0..<?n]"
    "(16 * ?n + 15) div 16 = ?n"
    using d(5,9) by (simp_all add: tx_inode [OF t(1)] div_add1_eq)
  have "dirlink dp name inum s = Ok 0 w"
    using w(1) unfolding de_def by (simp add: dirlink_def t(2) sz v(2) del: of_nat_mult)
  then show ?thesis using w(2-6) unfolding de_def by (auto simp: tx_inode [OF sv])
qed

text \<open>What that does to the map from names to inode numbers.\<close>

lemma new_entry_match:
  assumes "i \<noteq> 0"
  shows "dmatch n \<lparr>de_inum = i, de_name = strncpy (cstr_of name) DIRSIZ\<rparr> \<longleftrightarrow> same_name n name"
  using assms by (simp add: dmatch_def namecmp_same same_name_def strncpy_idem)

lemma new_entry_slot:
  fixes s t :: "'z inode_state_scheme" and dp :: nat
  defines "k \<equiv> free_slot s dp [0..<dslots s dp]"
  assumes none: "dir_slot s dp name = None" and i: "i \<noteq> 0" and sz: "dslots t dp = max (dslots s dp) (Suc k)"
    and e: "\<And>j. j < dslots t dp \<Longrightarrow> dent t dp j = (if j = k then \<lparr>de_inum = i, de_name = strncpy (cstr_of name) DIRSIZ\<rparr> else dent s dp j)"
  shows "dir_slot t dp n = (if same_name n name then Some k else dir_slot s dp n)"
    "dir_inum t dp n = (if same_name n name then Some i else dir_inum s dp n)"
proof -
  have k: "k \<le> dslots s dp" "k < dslots t dp" unfolding sz unfolding k_def using free_slot_props(1) [of s dp] by auto
  have fresh: "\<not> dmatch m (dent s dp k)" if "k < dslots s dp" for m
    using free_slot_props(2) [of s dp] that unfolding k_def by (simp add: dmatch_def)
  have new: "dmatch n (dent t dp j) = (if j = k then same_name n name else dmatch n (dent s dp j))" if "j < dslots t dp" for j
    using e [OF that] new_entry_match [OF i] by simp
  show slot: "dir_slot t dp n = (if same_name n name then Some k else dir_slot s dp n)"
  proof (cases "same_name n name")
    case True
    have "\<not> dmatch n (dent s dp j)" if "j < dslots s dp" for j
      using none that same_name_dmatch [OF True] by (simp add: dir_slot_def find_None_iff)
    then have "dmatch n (dent t dp j) \<longleftrightarrow> j = k" if "j < dslots t dp" for j
      using that new [OF that] True k(1) unfolding sz by (cases "j = k") (auto simp: max_def split: if_splits)
    then show ?thesis using True k(2) unfolding dir_slot_def by (simp add: find_only)
  next
    case False
    have "find (\<lambda>j. dmatch n (dent t dp j)) [0..<max (dslots s dp) (Suc k)] = find (\<lambda>j. dmatch n (dent s dp j)) [0..<dslots s dp]"
    proof (rule find_same)
      show "dmatch n (dent t dp j) = dmatch n (dent s dp j)" if "j < dslots s dp" for j
        using new [of j] that False fresh sz by auto
      show "\<not> dmatch n (dent t dp k)" using new [OF k(2)] False by simp
    qed (rule k(1))
    then show ?thesis using False unfolding dir_slot_def sz by simp
  qed
  show "dir_inum t dp n = (if same_name n name then Some i else dir_inum s dp n)"
  proof (cases "same_name n name")
    case True
    then show ?thesis using slot e [OF k(2)] by (simp add: dir_inum_def)
  next
    case False
    have "dent t dp j = dent s dp j" if "dir_slot s dp n = Some j" for j
    proof -
      have "j < dslots s dp" "dmatch n (dent s dp j)" using find_SomeD [OF that [unfolded dir_slot_def]] by auto
      then show ?thesis using e [of j] fresh sz by (cases "j = k") auto
    qed
    then show ?thesis using False slot by (cases "dir_slot s dp n") (simp_all add: dir_inum_def)
  qed
qed

section \<open>Round trip\<close>

lemma iget_any:
  fixes s :: "'z inode_state_scheme"
  assumes "in_kernel s" and "icache_free s"
  shows "\<exists>i t. iget dev inum s = Ok i t \<and> i_dev (inodes t i) = dev \<and> i_inum (inodes t i) = inum \<and> (\<exists>u. iput i t = Ok () u)"
proof (cases "find (\<lambda>i. icache_hit dev inum (inodes s i)) [0..<NINODE]")
  case None
  obtain i where i: "find (\<lambda>i. i_ref (inodes s i) = 0) [0..<NINODE] = Some i"
    using assms(2) by (cases "find (\<lambda>i. i_ref (inodes s i) = 0) [0..<NINODE]") (auto simp: find_None_iff icache_free_def)
  define t where "t = with_inode i (\<lambda>x. x\<lparr>i_dev := dev, i_inum := inum, i_ref := 1, i_flags := 0\<rparr>) s"
  have "iget dev inum s = Ok i t" unfolding t_def by (rule iget_new [OF assms(1) None i])
  moreover have "iput i t = Ok () (add_ref i (-1) t)" using assms(1) by (intro iput_run) (simp_all add: t_def iput_keeps_def)
  ultimately show ?thesis by (auto simp: t_def)
next
  case (Some i)
  define t where "t = add_ref i 1 s"
  have h: "icache_hit dev inum (inodes s i)" using find_SomeD [OF Some] by auto
  have "iget dev inum s = Ok i t" using iget_found [OF assms(1) Some] by (simp add: t_def add_ref_def)
  moreover have "iput i t = Ok () (add_ref i (-1) t)"
    using assms(1) h by (intro iput_run) (simp_all add: t_def add_ref_def iput_keeps_def icache_hit_def)
  ultimately show ?thesis using h by (auto simp: t_def add_ref_def icache_hit_def)
qed

lemma lookup_present:
  fixes s :: "'z cons_state_scheme"
  assumes s: "in_op s k" "dir_ok s dp K" "icache_free s" and i: "dir_inum s dp name = Some i"
  shows "\<exists>ip off t. dirlookup dp name s = Ok (Some (ip, off)) t \<and> i_dev (inodes t ip) = 1 \<and> i_inum (inodes t ip) = ucast i
    \<and> (\<exists>u. dirlink dp name inum s = Ok (-1) u)"
proof -
  obtain j where j: "dir_slot s dp name = Some j" "i = de_inum (dent s dp j)" using i by (auto simp: dir_inum_def)
  obtain t where t: "unchanged s t"
    "dirlookup dp name s = bind (iget 1 (ucast i)) (\<lambda>ip. return (Some (ip, of_nat (16 * j)))) t"
    using dirlookup_run [OF s(1,2), of name] unfolding j by auto
  have "in_kernel t" using in_opD(5) [OF unchanged_op [OF t(1) s(1)]] by (simp add: bio_inv_def)
  moreover have "icache_free t" using s(3) by (simp add: icache_free_def tx_inode [OF t(1)])
  ultimately obtain ip u v where u: "iget 1 (ucast i) t = Ok ip u" "i_dev (inodes u ip) = 1" "i_inum (inodes u ip) = ucast i"
    and v: "iput ip u = Ok () v"
    using iget_any [of t 1 "ucast i"] by blast
  have "dirlookup dp name s = Ok (Some (ip, of_nat (16 * j))) u" using t(2) u(1) by simp
  moreover from this v have "dirlink dp name inum s = Ok (-1) v" by (simp add: dirlink_def)
  ultimately show ?thesis using u(2,3) by blast
qed

text \<open>
  C31: A directory is a map from names to inode numbers. \<open>dirlink\<close> with a name the directory does
  not have sets the name to the number and leaves every other name as it is, in a free slot or at
  the end; names agree when their first 14 bytes do. The following \<open>dirlookup\<close> of the name returns
  a pointer to that inode, and a second \<open>dirlink\<close> of the name fails with -1.
\<close>

theorem dirlink_dirlookup:
  fixes s :: "'z cons_state_scheme"
  assumes s: "in_op s 2" "dir_ok s dp K" "icache_free s" and room: "16 * dslots s dp + 16 \<le> K * 512"
    and i: "ucast inum \<noteq> (0 :: ushort)" and none: "dir_inum s dp name = None"
  shows "\<exists>t ip off u v. dirlink dp name inum s = Ok 0 t \<and> dir_ok t dp K
    \<and> (\<forall>n. dir_inum t dp n = (if same_name n name then Some (ucast inum) else dir_inum s dp n))
    \<and> dirlookup dp name t = Ok (Some (ip, off)) u \<and> i_dev (inodes u ip) = 1 \<and> i_inum (inodes u ip) = ucast (ucast inum :: ushort)
    \<and> dirlink dp name other t = Ok (-1) v"
proof -
  have n: "dir_slot s dp name = None" using none by (simp add: dir_inum_def)
  obtain t where t: "dirlink dp name inum s = Ok 0 t" "in_op t 0" "dir_ok t dp K" "\<forall>i. i_ref (inodes t i) = i_ref (inodes s i)"
    "dslots t dp = max (dslots s dp) (Suc (free_slot s dp [0..<dslots s dp]))"
    "\<forall>j. 16 * j + 16 \<le> K * 512 \<longrightarrow> dent t dp j = (if j = free_slot s dp [0..<dslots s dp]
       then \<lparr>de_inum = ucast inum, de_name = strncpy (cstr_of name) DIRSIZ\<rparr> else dent s dp j)"
    using dirlink_run [OF s(1,2) room n, of inum] by blast
  have map: "dir_inum t dp m = (if same_name m name then Some (ucast inum) else dir_inum s dp m)" for m
    using dir_okD(6) [OF t(3)] t(6) by (intro new_entry_slot(2) [OF n i t(5)]) simp
  moreover have "icache_free t" using s(3) t(4) by (simp add: icache_free_def)
  then obtain ip off u v where "dirlookup dp name t = Ok (Some (ip, off)) u" "i_dev (inodes u ip) = 1"
    "i_inum (inodes u ip) = ucast (ucast inum :: ushort)" "dirlink dp name other t = Ok (-1) v"
    using lookup_present [OF t(2,3), of name "ucast inum" other] map [of name] by (auto simp: same_name_def)
  ultimately show ?thesis using t(1,3) by blast
qed

theorem dirlink_dirlookup_witness:
  "\<exists>t ip off u. dirlink 0 (chars ''init'') 7 (with_inode 0 (\<lambda>_. sample_file\<lparr>i_type := T_DIR, i_size := 0, i_ref := 1\<rparr>) (cons_boot sample_disk ())) = Ok 0 t
    \<and> dirlookup 0 (chars ''init'') t = Ok (Some (ip, off)) u \<and> i_inum (inodes u ip) = 7"
proof -
  define x where "x = sample_file\<lparr>i_type := T_DIR, i_size := 0, i_ref := 1\<rparr>"
  have x: "i_addrs x = [100, 101] @ replicate 11 0" "i_dev x = 1" "i_inum x = 5" "i_size x = 0" "i_type x = T_DIR"
    by (simp_all add: x_def sample_file_def sample_inode_def)
  define s where "s = with_inode 0 (\<lambda>_. x) (cons_boot sample_disk ())"
  note b = sample_blocks [OF x(1-3), where z = "()", folded s_def]
  have d: "dir_ok s 0 2" using b(1-3) by (simp add: dir_ok_def b(5) x)
  have z: "dslots s 0 = 0" by (simp add: dslots_def b(5) x)
  have f: "icache_free s" unfolding icache_free_def by (intro exI [of _ 1]) (simp add: NINODE_def b(5) empty_inode_def)
  have "dir_inum s 0 (chars ''init'') = None" by (simp add: dir_inum_def dir_slot_def z)
  then show ?thesis
    using dirlink_dirlookup [OF b(4) d f, of 7 "chars ''init''" 8] z unfolding x_def [symmetric] s_def [symmetric] by auto
qed

section \<open>Paths\<close>

text \<open>The reference: cut the path at every slash and drop the empty pieces.\<close>

fun split_at :: "'a \<Rightarrow> 'a list \<Rightarrow> 'a list list" where
  "split_at c [] = [[]]"
| "split_at c (x # xs) =
     (if x = c then [] # split_at c xs
      else (case split_at c xs of [] \<Rightarrow> [[x]] | p # ps \<Rightarrow> (x # p) # ps))"

definition path_elems :: "uchar list \<Rightarrow> uchar list list" where
  "path_elems path = filter (\<lambda>e. e \<noteq> []) (split_at slash path)"

lemma split_at_ne: "split_at c xs \<noteq> []"
  by (cases xs) (auto split: list.split)

lemma split_at_takeWhile:
  "split_at c xs = takeWhile (\<lambda>x. x \<noteq> c) xs #
     (case dropWhile (\<lambda>x. x \<noteq> c) xs of [] \<Rightarrow> [] | _ # ys \<Rightarrow> split_at c ys)"
  by (induction xs) (auto split: list.splits)

lemma path_elems_empty [simp]: "path_elems [] = []"
  by (simp add: path_elems_def)

lemma path_elems_slashes: "path_elems (dropWhile (\<lambda>c. c = slash) path) = path_elems path"
  by (induction path) (auto simp: path_elems_def)

lemma path_elems_element:
  assumes "p \<noteq> []" "hd p \<noteq> slash"
  shows "path_elems p = takeWhile (\<lambda>c. c \<noteq> slash) p # path_elems (dropWhile (\<lambda>c. c = slash) (dropWhile (\<lambda>c. c \<noteq> slash) p))"
proof -
  let ?e = "takeWhile (\<lambda>c. c \<noteq> slash) p" and ?r = "dropWhile (\<lambda>c. c \<noteq> slash) p"
  have "?e \<noteq> []" using assms by (cases p) auto
  then have "path_elems p = ?e # filter (\<lambda>e. e \<noteq> []) (case ?r of [] \<Rightarrow> [] | _ # ys \<Rightarrow> split_at slash ys)"
    unfolding path_elems_def by (subst split_at_takeWhile) simp
  moreover have "filter (\<lambda>e. e \<noteq> []) (case ?r of [] \<Rightarrow> [] | _ # ys \<Rightarrow> split_at slash ys) = path_elems ?r"
  proof (cases ?r)
    case Nil
    show ?thesis unfolding Nil by simp
  next
    case (Cons x ys)
    then have "x = slash" using hd_dropWhile [of "\<lambda>c. c \<noteq> slash" p] by auto
    then show ?thesis using Cons by (simp add: path_elems_def)
  qed
  ultimately show ?thesis by (simp add: path_elems_slashes)
qed

lemma path_elems_Nil: "dropWhile (\<lambda>c. c = slash) p = p \<Longrightarrow> path_elems p = [] \<longleftrightarrow> p = []"
proof (cases p)
  case (Cons c q)
  assume "dropWhile (\<lambda>c. c = slash) p = p"
  then have "hd p \<noteq> slash" using Cons length_dropWhile_le [of "\<lambda>c. c = slash" q] by (auto split: if_splits)
  then show ?thesis using path_elems_element [of p] Cons by simp
qed (simp add: path_elems_def)

text \<open>The name that a buffer of 14 bytes holds.\<close>

definition buf_name :: "uchar list \<Rightarrow> uchar list" where
  "buf_name b = takeWhile (\<lambda>c. c \<noteq> 0) (take DIRSIZ b)"

lemma buf_name_splice:
  assumes "0 \<notin> set e" and "length name = DIRSIZ"
  shows "buf_name (if length e \<ge> DIRSIZ then splice 0 (take DIRSIZ e) name else splice 0 (e @ [0]) name) = take DIRSIZ e"
proof -
  have tw: "takeWhile (\<lambda>c. c \<noteq> 0) (xs @ ys) = xs @ takeWhile (\<lambda>c. c \<noteq> 0) ys" if "0 \<notin> set xs" for xs ys :: "uchar list"
    using that by (intro takeWhile_append2) auto
  have "0 \<notin> set (take DIRSIZ e)" using assms(1) by (meson in_set_takeD)
  then show ?thesis
    using assms tw [of "take DIRSIZ e" "[]"] tw [of e] by (simp add: buf_name_def splice_def min_def)
qed

text \<open>
  C34: \<open>skipelem\<close> steps through the elements of a path: it fails exactly when no element is
  left, and otherwise stores the first element, cut to 14 bytes, and returns a path with the
  remaining ones, which is empty exactly when there are none. Leading, doubled and trailing
  slashes do not matter. The path it returns is shorter, so the walk of \<open>namex\<close> ends.
\<close>

theorem skipelem_elements:
  assumes "0 \<notin> set path" and "length name = DIRSIZ"
  shows "case path_elems path of
      [] \<Rightarrow> skipelem path name = None
    | e # es \<Rightarrow> \<exists>path' name'. skipelem path name = Some (path', name') \<and> buf_name name' = take DIRSIZ e \<and> length name' = DIRSIZ
        \<and> path_elems path' = es \<and> (path' = [] \<longleftrightarrow> es = []) \<and> length path' < length path"
proof -
  let ?p = "dropWhile (\<lambda>c. c = slash) path"
  let ?e = "takeWhile (\<lambda>c. c \<noteq> slash) ?p" and ?r = "dropWhile (\<lambda>c. c = slash) (dropWhile (\<lambda>c. c \<noteq> slash) ?p)"
  let ?n = "if length ?e \<ge> DIRSIZ then splice 0 (take DIRSIZ ?e) name else splice 0 (?e @ [0]) name"
  show ?thesis
  proof (cases "?p = []")
    case True
    then have "path_elems path = []" using path_elems_slashes [of path] unfolding True by simp
    with True show ?thesis by (simp add: skipelem_def)
  next
    case False
    then have "hd ?p \<noteq> slash" by (rule hd_dropWhile)
    then have e: "path_elems path = ?e # path_elems ?r" using path_elems_element [OF False] path_elems_slashes [of path] by simp
    have sk: "skipelem path name = Some (?r, ?n)" using False by (simp add: skipelem_def Let_def)
    have z: "0 \<notin> set ?e" using assms(1) by (meson set_dropWhileD set_takeWhileD)
    have "length ?n = DIRSIZ" using assms(2) by auto
    moreover have "path_elems ?r = [] \<longleftrightarrow> ?r = []" by (rule path_elems_Nil) (simp add: dropWhile_idem)
    ultimately show ?thesis
      unfolding e using sk skipelem_shorter [OF sk] buf_name_splice [OF z assms(2)] by auto
  qed
qed

theorem skipelem_elements_witness:
  "\<exists>p n. skipelem (chars ''//usr//bin/'') (replicate 14 0) = Some (p, n) \<and> buf_name n = chars ''usr'' \<and> path_elems p = [chars ''bin'']"
proof -
  have "path_elems (chars ''//usr//bin/'') = [chars ''usr'', chars ''bin'']" by (simp add: path_elems_def)
  then show ?thesis using skipelem_elements [of "chars ''//usr//bin/''" "replicate 14 0"] by auto
qed

end
