(* ===== verification/Tty.thy ===== *)
theory Tty
  imports Console Frames
begin

text \<open>
  The console as a terminal. Output goes to the screen and the serial line and stays inside
  the screen's memory. Input is a line discipline: the ring buffer of \<open>consoleintr\<close> and
  \<open>consoleread\<close> is a queue of finished lines and one line that can still be edited.
\<close>

section \<open>Output\<close>

lemma cons_frame [simp]:
  "panicked (acquired lk s) = panicked s" "cons_locking (acquired lk s) = cons_locking s" "crt (acquired lk s) = crt s"
  "crt_pos (acquired lk s) = crt_pos s" "uart (acquired lk s) = uart s" "uart_in (acquired lk s) = uart_in s"
  "uart_out (acquired lk s) = uart_out s" "kbd_in (acquired lk s) = kbd_in s" "kbd_shift (acquired lk s) = kbd_shift s"
  "input_buf (acquired lk s) = input_buf s" "input_r (acquired lk s) = input_r s" "input_w (acquired lk s) = input_w s"
  "input_e (acquired lk s) = input_e s"
  by (simp_all add: acquired_def)

lemma acquired_cons [simp]:
  "(acquired lk s)\<lparr>uart_in := v\<rparr> = acquired lk (s\<lparr>uart_in := v\<rparr>)" "(acquired lk s)\<lparr>idt_null := b\<rparr> = acquired lk (s\<lparr>idt_null := b\<rparr>)"
  "(acquired lk s)\<lparr>input_buf := f\<rparr> = acquired lk (s\<lparr>input_buf := f\<rparr>)" "(acquired lk s)\<lparr>input_r := r\<rparr> = acquired lk (s\<lparr>input_r := r\<rparr>)"
  "(acquired lk s)\<lparr>input_w := r\<rparr> = acquired lk (s\<lparr>input_w := r\<rparr>)" "(acquired lk s)\<lparr>input_e := r\<rparr> = acquired lk (s\<lparr>input_e := r\<rparr>)"
  "(acquired lk s)\<lparr>crt := x, crt_pos := q, uart_out := y\<rparr> = acquired lk (s\<lparr>crt := x, crt_pos := q, uart_out := y\<rparr>)"
  by (simp_all add: acquired_def)

text \<open>The cells of the screen that are used, of the 2000 that the display has.\<close>

definition screen_ok :: "'z cons_state_scheme \<Rightarrow> bool" where
  "screen_ok s \<longleftrightarrow> \<not> panicked s \<and> unat (crt_pos s) < 24 * 80"

text \<open>\<open>t\<close> is \<open>s\<close> after the bytes \<open>ys\<close> went to the serial line and something to the screen.\<close>

definition shown :: "uchar list \<Rightarrow> 'z cons_state_scheme \<Rightarrow> 'z cons_state_scheme \<Rightarrow> bool" where
  "shown ys s t \<longleftrightarrow> (\<exists>x q. t = s\<lparr>crt := x, crt_pos := q, uart_out := (if uart s then uart_out s @ ys else uart_out s)\<rparr>
     \<and> unat q < 24 * 80 \<and> (\<forall>i\<ge>24 * 80. x i = crt s i))"

lemma shownI:
  "t = s\<lparr>crt := x, crt_pos := q, uart_out := (if uart s then uart_out s @ ys else uart_out s)\<rparr> \<Longrightarrow>
   unat q < 24 * 80 \<Longrightarrow> (\<And>i. 24 * 80 \<le> i \<Longrightarrow> x i = crt s i) \<Longrightarrow> shown ys s t"
  unfolding shown_def by blast

lemma shown_refl: "screen_ok s \<Longrightarrow> shown [] s s"
  by (rule shownI [where x = "crt s" and q = "crt_pos s"]) (simp_all add: screen_ok_def)

lemma shown_trans: "shown xs s t \<Longrightarrow> shown ys t u \<Longrightarrow> shown (xs @ ys) s u"
  unfolding shown_def by (elim exE conjE, intro exI conjI) auto

lemma shown_ok: "screen_ok s \<Longrightarrow> shown ys s t \<Longrightarrow> screen_ok t"
  by (auto simp: screen_ok_def shown_def)

lemma shown_acquired: "shown ys (acquired lk s) t \<Longrightarrow> \<exists>u. t = acquired lk u \<and> shown ys s u"
  unfolding shown_def by (elim exE) (simp, blast)

lemma screen_acquired [simp]: "screen_ok (acquired lk s) = screen_ok s"
  by (simp add: screen_ok_def)

lemma shown_frame:
  assumes "shown ys s t"
  shows "settled t = settled s" "lock_free lk t = lock_free lk s" "cons_locking t = cons_locking s" "uart t = uart s"
    "uart_in t = uart_in s" "kbd_in t = kbd_in s" "kbd_shift t = kbd_shift s" "input_buf t = input_buf s" "input_r t = input_r s"
    "input_w t = input_w s" "input_e t = input_e s" "ptable t = ptable s" "inodes t = inodes s" "sleeplocks t = sleeplocks s"
    "mem t = mem s" "curproc t = curproc s" "mycpu t = mycpu s"
  using assms by (auto simp: shown_def settled_def lock_free_def)

lemma shown_out: "shown ys s t \<Longrightarrow> uart_out t = (if uart s then uart_out s @ ys else uart_out s)"
  by (auto simp: shown_def)

definition cga_end :: "nat \<Rightarrow> ('z cons_state_scheme, unit) op" where
  "cga_end pos =
     bind (if pos div 80 \<ge> 24 then
             bind (modify (\<lambda>s. s\<lparr>crt := (\<lambda>i. if i < 23 * 80 then crt s (i + 80) else crt s i)\<rparr>)) (\<lambda>_.
             bind (panic_if (pos - 80 > 24 * 80) ''undefined'') (\<lambda>_.
             bind (modify (\<lambda>s. s\<lparr>crt := (\<lambda>i. if pos - 80 \<le> i \<and> i < 24 * 80 then 0 else crt s i)\<rparr>)) (\<lambda>_.
             return (pos - 80))))
           else return pos) (\<lambda>pos.
     bind (modify (\<lambda>s. s\<lparr>crt_pos := of_nat pos\<rparr>)) (\<lambda>_.
     modify (\<lambda>s. s\<lparr>crt := (crt s)(pos := 0x20 OR 0x0700)\<rparr>)))"

lemma cga_end_run:
  assumes "pos \<le> 24 * 80"
  shows "\<exists>x q. cga_end pos s = Ok () (s\<lparr>crt := x, crt_pos := q\<rparr>) \<and> unat q < 24 * 80 \<and> (\<forall>i\<ge>24 * 80. x i = crt s i)"
proof (cases "pos = 1920")
  case True
  let ?x = "(\<lambda>i. if 1840 \<le> i \<and> i < 1920 then 0 else if i < 1840 then crt s (i + 80) else crt s i)(1840 := 0x20 OR 0x0700)"
  show ?thesis unfolding True by (intro exI [of _ ?x] exI [of _ 1840]) (simp add: cga_end_def cong: if_cong)
next
  case False
  then have "pos < 1920" using assms by simp
  moreover from this have "\<not> pos div 80 \<ge> 24" by (simp add: less_eq_div_iff_mult_less_eq)
  ultimately show ?thesis
    by (intro exI [of _ "(crt s)(pos := 0x20 OR 0x0700)"] exI [of _ "of_nat pos"]) (simp add: cga_end_def unat_of_nat)
qed

lemma cgaputc_cga_end:
  "cgaputc c =
     bind (gets (\<lambda>s. unat (crt_pos s))) (\<lambda>pos.
     bind (if c = 10 then return (pos + 80 - pos mod 80)
           else if c = BACKSPACE then return (if pos > 0 then pos - 1 else pos)
           else bind (modify (\<lambda>s. s\<lparr>crt := (crt s)(pos := word_of_int c AND 0xff OR 0x0700)\<rparr>)) (\<lambda>_.
                return (pos + 1))) cga_end)"
  by (simp only: cgaputc_def cga_end_def [abs_def])

lemma newline_pos:
  assumes "p < 1920"
  shows "p + 80 - p mod 80 \<le> (1920 :: nat)"
proof -
  have "p - p mod 80 = 80 * (p div 80)" by (simp add: minus_mod_eq_mult_div)
  moreover have "p div 80 < 24" using assms by (intro less_mult_imp_div_less) simp
  ultimately show ?thesis using mod_less_eq_dividend [of p 80] by linarith
qed

lemma cgaputc_run:
  assumes "unat (crt_pos s) < 24 * 80"
  shows "\<exists>x q. cgaputc c s = Ok () (s\<lparr>crt := x, crt_pos := q\<rparr>) \<and> unat q < 24 * 80 \<and> (\<forall>i\<ge>24 * 80. x i = crt s i)"
proof -
  define p where "p = unat (crt_pos s)"
  define q where "q = (if c = 10 then p + 80 - p mod 80 else if c = BACKSPACE then (if p > 0 then p - 1 else p) else p + 1)"
  define y where "y = (if c = 10 \<or> c = BACKSPACE then crt s else (crt s)(p := word_of_int c AND 0xff OR 0x0700))"
  have p: "p < 1920" using assms by (simp add: p_def)
  then have y: "y i = crt s i" if "1920 \<le> i" for i using that by (simp add: y_def)
  have "q \<le> 1920" using p newline_pos [OF p] by (auto simp: q_def)
  have "cgaputc c s = cga_end q (s\<lparr>crt := y\<rparr>)"
    by (cases "c = 10"; cases "c = BACKSPACE") (simp_all add: cgaputc_cga_end q_def y_def p_def [symmetric])
  moreover obtain x r where "cga_end q (s\<lparr>crt := y\<rparr>) = Ok () (s\<lparr>crt := y\<rparr>\<lparr>crt := x, crt_pos := r\<rparr>)" "unat r < 24 * 80"
    "\<forall>i\<ge>24 * 80. x i = crt (s\<lparr>crt := y\<rparr>) i"
    using cga_end_run [of q "s\<lparr>crt := y\<rparr>"] \<open>q \<le> 1920\<close> by auto
  ultimately show ?thesis using y by auto
qed

definition echo_bytes :: "int \<Rightarrow> uchar list" where
  "echo_bytes c = (if c = BACKSPACE then [8, 0x20, 8] else [word_of_int c])"

lemma uartputc_run: "uartputc c s = Ok () (if uart s then s\<lparr>uart_out := uart_out s @ [c]\<rparr> else s)"
  by (simp add: uartputc_def)

lemma consputc_cgaputc:
  assumes "\<not> panicked s"
  shows "consputc c s = cgaputc c (if uart s then s\<lparr>uart_out := uart_out s @ echo_bytes c\<rparr> else s)"
proof (cases "uart s")
  case True
  with assms show ?thesis by (simp add: consputc_def uartputc_run echo_bytes_def)
next
  case False
  with assms show ?thesis by (simp add: consputc_def uartputc_run)
qed

lemma consputc_run:
  assumes "screen_ok s"
  shows "\<exists>t. consputc c s = Ok () t \<and> shown (echo_bytes c) s t"
proof -
  have s: "\<not> panicked s" "unat (crt_pos s) < 24 * 80" using assms by (simp_all add: screen_ok_def)
  define u where "u = (if uart s then s\<lparr>uart_out := uart_out s @ echo_bytes c\<rparr> else s)"
  have u: "unat (crt_pos u) < 24 * 80" using s(2) by (simp add: u_def)
  obtain x q where x: "cgaputc c u = Ok () (u\<lparr>crt := x, crt_pos := q\<rparr>)" "unat q < 24 * 80" "\<And>i. 24 * 80 \<le> i \<Longrightarrow> x i = crt u i"
    using cgaputc_run [OF u, of c] by blast
  have "consputc c s = Ok () (u\<lparr>crt := x, crt_pos := q\<rparr>)"
    unfolding consputc_cgaputc [OF s(1)] u_def [symmetric] by (rule x(1))
  moreover have "shown (echo_bytes c) s (u\<lparr>crt := x, crt_pos := q\<rparr>)"
    using x(2,3) by (intro shownI [where x = x and q = q]) (simp_all add: u_def)
  ultimately show ?thesis by blast
qed

lemma for_each_shown:
  assumes "\<And>x s. x \<in> set xs \<Longrightarrow> screen_ok s \<Longrightarrow> \<exists>t. m x s = Ok () t \<and> shown (f x) s t" and "screen_ok s"
  shows "\<exists>t. for_each xs m s = Ok () t \<and> shown (concat (map f xs)) s t"
  using assms
proof (induction xs arbitrary: s)
  case Nil
  then show ?case by (simp add: shown_refl)
next
  case (Cons x xs)
  obtain t where t: "m x s = Ok () t" "shown (f x) s t" using Cons.prems by force
  obtain u where "for_each xs m t = Ok () u" "shown (concat (map f xs)) t u"
    using Cons.IH [of t] Cons.prems shown_ok [OF Cons.prems(2) t(2)] by force
  with t show ?case using shown_trans by fastforce
qed

lemma echo_char: "echo_bytes (uint (c :: uchar)) = [c]" "echo_bytes (sint (c :: uchar)) = [c]"
proof -
  have "uint c < 256" using uint_bounded [of c] by simp
  then show "echo_bytes (uint c) = [c]" by (simp add: echo_bytes_def BACKSPACE_def)
  have "sint c < 128" using sint_lt [of c] by simp
  then show "echo_bytes (sint c) = [c]" by (simp add: echo_bytes_def BACKSPACE_def)
qed

lemma consputc_char:
  fixes c :: uchar
  assumes "screen_ok s"
  shows "\<exists>t. consputc (uint c) s = Ok () t \<and> shown [c] s t" "\<exists>t. consputc (sint c) s = Ok () t \<and> shown [c] s t"
  using consputc_run [OF assms, of "uint c"] consputc_run [OF assms, of "sint c"] by (simp_all only: echo_char)

lemma put_bytes:
  fixes xs :: "uchar list"
  assumes "screen_ok s"
  shows "\<exists>t. for_each xs (\<lambda>c. consputc (uint c)) s = Ok () t \<and> shown xs s t"
    "\<exists>t. for_each xs (\<lambda>c. consputc (sint c)) s = Ok () t \<and> shown xs s t"
  using for_each_shown [where f = "\<lambda>c. [c]", OF consputc_char(1) assms]
    for_each_shown [where f = "\<lambda>c. [c]", OF consputc_char(2) assms]
  by (simp_all add: concat_map_singleton)

section \<open>Formatted output\<close>

text \<open>The text of \<open>cprintf\<close>, when the arguments fit the format.\<close>

fun hex_text :: "nat \<Rightarrow> 'w::len word \<Rightarrow> uchar list" where
  "hex_text 0 x = []"
| "hex_text (Suc n) x = digits ! unat (drop_bit (LENGTH('w) - 4) x) # hex_text n (push_bit 4 x)"

definition arg_text :: "uchar \<Rightarrow> fmt_arg \<Rightarrow> uchar list option" where
  "arg_text d a = (case a of
     Arg_int v \<Rightarrow> if d = of_char CHR ''d'' then Some (rev (print_d_buf v)) else None
   | Arg_uint v \<Rightarrow> if d = of_char CHR ''x'' then Some (hex_text 8 v) else None
   | Arg_addr v \<Rightarrow> if d = of_char CHR ''p'' then Some (hex_text 16 v) else None
   | Arg_str t \<Rightarrow> if d = of_char CHR ''s'' then Some (case t of None \<Rightarrow> chars ''(null)'' | Some xs \<Rightarrow> xs) else None)"

fun fmt_text :: "uchar list \<Rightarrow> fmt_arg list \<Rightarrow> uchar list option" where
  "fmt_text [] args = Some []"
| "fmt_text [c] args = Some (if c = of_char CHR ''%'' then [] else [c])"
| "fmt_text (c # d # fmt) args =
     (if c \<noteq> of_char CHR ''%'' then map_option (Cons c) (fmt_text (d # fmt) args)
      else if d \<in> {of_char CHR ''d'', of_char CHR ''x'', of_char CHR ''p'', of_char CHR ''s''} then
        (case args of [] \<Rightarrow> None
         | a # args' \<Rightarrow> (case arg_text d a of None \<Rightarrow> None | Some xs \<Rightarrow> map_option ((@) xs) (fmt_text fmt args')))
      else map_option ((@) (if d = of_char CHR ''%'' then [d] else [c, d])) (fmt_text fmt args))"

definition prints :: "('z cons_state_scheme, unit) op \<Rightarrow> uchar list \<Rightarrow> bool" where
  "prints m ys \<longleftrightarrow> (\<forall>s. screen_ok s \<longrightarrow> (\<exists>t. m s = Ok () t \<and> shown ys s t))"

lemma prints_run: "prints m ys \<Longrightarrow> screen_ok s \<Longrightarrow> \<exists>t. m s = Ok () t \<and> shown ys s t"
  by (simp add: prints_def)

lemma prints_return: "prints (return ()) []"
  by (simp add: prints_def shown_refl)

lemma prints_bind:
  assumes "prints m xs" and "prints k ys"
  shows "prints (bind m (\<lambda>_. k)) (xs @ ys)"
  unfolding prints_def
proof (intro allI impI)
  fix s :: "'a cons_state_scheme"
  assume s: "screen_ok s"
  obtain t where t: "m s = Ok () t" "shown xs s t" using prints_run [OF assms(1) s] by blast
  obtain u where "k t = Ok () u" "shown ys t u" using prints_run [OF assms(2) shown_ok [OF s t(2)]] by blast
  with t show "\<exists>t. bind m (\<lambda>_. k) s = Ok () t \<and> shown (xs @ ys) s t" using shown_trans by auto
qed

lemma prints_char: "prints (consputc (uint (c :: uchar))) [c]"
  unfolding prints_def by (intro allI impI consputc_char(1))

lemma prints_bytes:
  "prints (for_each xs (\<lambda>c. consputc (uint (c :: uchar)))) xs" "prints (for_each xs (\<lambda>c. consputc (sint (c :: uchar)))) xs"
  unfolding prints_def using put_bytes by blast+

lemma prints_hex: "prints (print_x_loop n x) (hex_text n x)"
  by (induction n arbitrary: x) (simp_all add: prints_return prints_bind [OF prints_char, simplified])

lemma prints_number: "prints (print_x32 v) (hex_text 8 v)" "prints (print_x64 w) (hex_text 16 w)" "prints (print_d i) (rev (print_d_buf i))"
  unfolding print_x32_def print_x64_def print_d_def by (rule prints_hex prints_bytes)+

lemma prints_cprintf_loop: "fmt_text fmt args = Some ys \<Longrightarrow> prints (cprintf_loop fmt args) ys"
proof (induction fmt args arbitrary: ys rule: fmt_text.induct)
  case (1 args)
  then show ?case by (simp add: prints_return)
next
  case (2 c args)
  then show ?case by (auto simp: prints_return prints_char)
next
  case (3 c d fmt args)
  consider (plain) "c \<noteq> of_char CHR ''%''"
    | (arg) "c = of_char CHR ''%''" "d \<in> {of_char CHR ''d'', of_char CHR ''x'', of_char CHR ''p'', of_char CHR ''s''}"
    | (other) "c = of_char CHR ''%''" "d \<notin> {of_char CHR ''d'', of_char CHR ''x'', of_char CHR ''p'', of_char CHR ''s''}"
    by blast
  then show ?case
  proof cases
    case plain
    then obtain zs where "fmt_text (d # fmt) args = Some zs" "ys = [c] @ zs" using 3(4) by auto
    then show ?thesis using plain prints_bind [OF prints_char 3(1)] by simp
  next
    case arg
    then obtain a args' xs zs where a: "args = a # args'" "arg_text d a = Some xs" "fmt_text fmt args' = Some zs" "ys = xs @ zs"
      using 3(4) by (auto split: list.splits option.splits)
    note p = 3(2) [OF _ arg(2) a(1,2,3)]
    show ?thesis
      using a arg p by (auto simp: arg_text_def split: fmt_arg.splits if_splits intro: prints_bind prints_bytes prints_number)
  next
    case other
    then obtain zs where zs: "fmt_text fmt args = Some zs" "ys = (if d = of_char CHR ''%'' then [d] else [c, d]) @ zs"
      using 3(4) by auto
    note p = 3(3) [OF _ other(2) zs(1)]
    have "prints (consputc (of_char CHR ''%'')) [of_char CHR ''%'']" using prints_char [of "of_char CHR ''%''"] by simp
    from prints_bind [OF this prints_bind [OF prints_char p]] prints_bind [OF this p] show ?thesis
      using other zs(2) by (cases "d = of_char CHR ''%''") simp_all
  qed
qed

lemma cprintf_run:
  assumes "fmt_text (chars fmt) args = Some ys" and s: "screen_ok s" "settled s" "lock_free L_cons s"
  shows "\<exists>t. cprintf fmt args s = Ok () t \<and> shown ys s t"
proof (cases "cons_locking s")
  case True
  obtain t where t: "cprintf_loop (chars fmt) args (acquired L_cons s) = Ok () t" "shown ys (acquired L_cons s) t"
    using prints_run [OF prints_cprintf_loop [OF assms(1)], of "acquired L_cons s"] s by auto
  then obtain u where u: "t = acquired L_cons u" "shown ys s u" using shown_acquired by blast
  then have "cprintf fmt args s = Ok () u"
    using True s t(1) shown_frame [OF u(2)] by (simp add: cprintf_def)
  with u show ?thesis by blast
next
  case False
  obtain t where t: "cprintf_loop (chars fmt) args s = Ok () t" "shown ys s t"
    using prints_run [OF prints_cprintf_loop [OF assms(1)] s(1)] by blast
  with False show ?thesis by (simp add: cprintf_def)
qed

section \<open>States in which the console works\<close>

definition tty_ready :: "'z cons_state_scheme \<Rightarrow> bool" where
  "tty_ready s \<longleftrightarrow> screen_ok s \<and> settled s \<and> lock_free L_cons s \<and> lock_free L_ptable s"

text \<open>What the handling of a key leaves alone.\<close>

definition tty_frame :: "'z cons_state_scheme \<Rightarrow> 'z cons_state_scheme \<Rightarrow> bool" where
  "tty_frame s t \<longleftrightarrow> locks t = locks s \<and> cpus t = cpus s \<and> mycpu t = mycpu s \<and> curproc t = curproc s
     \<and> (\<forall>p. p_pid (ptable t p) = p_pid (ptable s p) \<and> p_killed (ptable t p) = p_killed (ptable s p)) \<and> inodes t = inodes s \<and> sleeplocks t = sleeplocks s
     \<and> uart t = uart s \<and> uart_in t = uart_in s \<and> kbd_in t = kbd_in s \<and> kbd_shift t = kbd_shift s"

lemma tty_frame_refl [simp]: "tty_frame s s"
  by (simp add: tty_frame_def)

lemma tty_frame_trans: "tty_frame s t \<Longrightarrow> tty_frame t u \<Longrightarrow> tty_frame s u"
  by (simp add: tty_frame_def)

lemma shown_tty_frame: "shown ys s t \<Longrightarrow> tty_frame s t"
  by (auto simp: shown_def tty_frame_def)

lemma tty_ready_frame: "tty_ready s \<Longrightarrow> tty_frame s t \<Longrightarrow> screen_ok t \<Longrightarrow> tty_ready t"
  by (simp add: tty_ready_def tty_frame_def settled_def lock_free_def)

lemma shown_ready: "tty_ready s \<Longrightarrow> shown ys s t \<Longrightarrow> tty_ready t"
  by (metis shown_ok shown_tty_frame tty_ready_def tty_ready_frame)

text \<open>An operation that writes to the console and does nothing else.\<close>

definition talks :: "('z cons_state_scheme, unit) op \<Rightarrow> bool" where
  "talks m \<longleftrightarrow> (\<forall>s. tty_ready s \<longrightarrow> (\<exists>t ys. m s = Ok () t \<and> shown ys s t))"

lemma talks_return: "talks (return ())"
  by (auto simp: talks_def tty_ready_def intro: shown_refl)

lemma talks_bind: "talks m \<Longrightarrow> talks k \<Longrightarrow> talks (bind m (\<lambda>_. k))"
  unfolding talks_def by (metis bind_Ok shown_ready shown_trans)

lemma talks_gets: "(\<And>x. talks (k x)) \<Longrightarrow> talks (bind (gets f) k)"
  by (simp add: talks_def)

lemma talks_for_each: "(\<And>x. talks (m x)) \<Longrightarrow> talks (for_each xs m)"
  by (induction xs) (simp_all add: talks_return talks_bind)

lemma talks_cprintf: "fmt_text (chars fmt) args \<noteq> None \<Longrightarrow> talks (cprintf fmt args)"
  using cprintf_run unfolding talks_def tty_ready_def by blast

lemma talks_procdump: "talks procdump"
proof -
  have "talks (procdump_one i)" for i
    unfolding procdump_one_def
    by (intro talks_gets) (auto intro!: talks_return talks_bind talks_for_each talks_gets talks_cprintf simp: arg_text_def)
  then show ?thesis unfolding procdump_def by (rule talks_for_each)
qed

section \<open>The line buffer\<close>

definition span_of :: "(nat \<Rightarrow> uchar) \<Rightarrow> uint \<Rightarrow> nat \<Rightarrow> uchar list" where
  "span_of b a n = map (\<lambda>k. b ((unat a + k) mod INPUT_BUF)) [0..<n]"

lemma length_span [simp]: "length (span_of b a n) = n"
  by (simp add: span_of_def)

lemma slot_mod: "unat (a + of_nat k :: uint) mod INPUT_BUF = (unat a + k) mod INPUT_BUF"
proof -
  have "unat (a + of_nat k) = (unat a + k) mod 2 ^ 32" by (simp add: unat_word_ariths unat_of_nat mod_add_right_eq)
  then show ?thesis by (simp add: INPUT_BUF_def mod_mod_cancel)
qed

lemma span_Suc: "span_of b a (Suc n) = span_of b a n @ [b ((unat a + n) mod INPUT_BUF)]"
  by (simp add: span_of_def)

lemma span_Cons: "span_of b a (Suc n) = b (unat a mod INPUT_BUF) # span_of b (a + 1) n"
proof -
  have "(unat (a + 1) + k) mod INPUT_BUF = (unat a + Suc k) mod INPUT_BUF" for k
    using slot_mod [of a 1] mod_add_left_eq [of "unat (a + 1)" INPUT_BUF k] mod_add_left_eq [of "unat a + 1" INPUT_BUF k] by simp
  then have "span_of b a (Suc n) ! i = (b (unat a mod INPUT_BUF) # span_of b (a + 1) n) ! i" if "i < Suc n" for i
    using that by (cases i) (simp_all add: span_of_def del: upt_Suc)
  then show ?thesis by (intro nth_equalityI) simp_all
qed

lemma span_update:
  assumes "n < INPUT_BUF"
  shows "span_of (b((unat a + n) mod INPUT_BUF := c)) a (Suc n) = span_of b a n @ [c]"
proof -
  have "(unat a + k) mod INPUT_BUF \<noteq> (unat a + n) mod INPUT_BUF" if "k < n" for k
  proof
    assume "(unat a + k) mod INPUT_BUF = (unat a + n) mod INPUT_BUF"
    then have "INPUT_BUF dvd (unat a + n) - (unat a + k)" using that by (metis add_le_cancel_left less_imp_le_nat mod_eq_dvd_iff_nat)
    then show False using that assms by (auto dest: dvd_imp_le)
  qed
  then show ?thesis by (simp add: span_Suc) (simp add: span_of_def)
qed

text \<open>The buffer holds the finished input \<open>com\<close> and the line \<open>ed\<close> that is being edited.\<close>

definition line_rep :: "'z cons_state_scheme \<Rightarrow> uchar list \<Rightarrow> uchar list \<Rightarrow> bool" where
  "line_rep s com ed \<longleftrightarrow> length com + length ed \<le> INPUT_BUF
     \<and> input_w s = input_r s + of_nat (length com) \<and> input_e s = input_w s + of_nat (length ed)
     \<and> span_of (input_buf s) (input_r s) (length com + length ed) = com @ ed \<and> 10 \<notin> set ed"

text \<open>What a key does to them.\<close>

definition line_key :: "int \<Rightarrow> uchar list \<times> uchar list \<Rightarrow> uchar list \<times> uchar list" where
  "line_key c q = (case q of (com, ed) \<Rightarrow>
     if c = 0 \<or> c = 16 \<or> c = 26 then (com, ed)
     else if c = 21 then (com, [])
     else if c = 8 \<or> c = 0x7f then (com, butlast ed)
     else if length com + length ed < INPUT_BUF then
       (let ed = ed @ [if c = 13 then 10 else word_of_int c] in
        if c = 13 \<or> c = 10 \<or> c = 4 \<or> length com + length ed = INPUT_BUF then (com @ ed, []) else (com, ed))
     else (com, ed))"

lemma line_repD:
  assumes "line_rep s com ed"
  shows "length com + length ed \<le> INPUT_BUF" "input_w s = input_r s + of_nat (length com)"
    "input_e s = input_r s + of_nat (length com + length ed)" "input_e s = input_w s + of_nat (length ed)"
    "span_of (input_buf s) (input_r s) (length com + length ed) = com @ ed" "10 \<notin> set ed"
  using assms by (simp_all add: line_rep_def)

lemma small_uint: "n \<le> INPUT_BUF \<Longrightarrow> unat (of_nat n :: uint) = n"
  by (simp add: INPUT_BUF_def unat_of_nat)

lemma line_count:
  assumes "line_rep s com ed"
  shows "unat (input_e s - input_r s) = length com + length ed" "unat (input_e s - input_w s) = length ed"
    "input_e s = input_w s \<longleftrightarrow> ed = []"
proof -
  note d = line_repD [OF assms]
  show "unat (input_e s - input_r s) = length com + length ed" using small_uint [OF d(1)] by (simp add: d(3))
  show e: "unat (input_e s - input_w s) = length ed" using d(1) small_uint [of "length ed"] by (simp add: d(4))
  have "input_e s = input_w s \<longleftrightarrow> input_e s - input_w s = 0" by simp
  also have "\<dots> \<longleftrightarrow> unat (input_e s - input_w s) = 0" by (simp only: unat_eq_zero)
  finally show "input_e s = input_w s \<longleftrightarrow> ed = []" using e by simp
qed

lemma line_drop:
  assumes "line_rep s com (ed @ [x])"
  shows "line_rep (s\<lparr>input_e := input_e s - 1\<rparr>) com ed" "input_buf s (unat (input_e s - 1) mod INPUT_BUF) = x"
proof -
  note d = line_repD [OF assms]
  let ?n = "length com + length ed"
  have e: "input_e s - 1 = input_r s + of_nat ?n" by (simp add: d(3))
  have "span_of (input_buf s) (input_r s) (Suc ?n) = com @ ed @ [x]" using d(5) by simp
  then have sp: "span_of (input_buf s) (input_r s) ?n = com @ ed" "input_buf s ((unat (input_r s) + ?n) mod INPUT_BUF) = x"
    by (simp_all add: span_Suc flip: append_assoc)
  show "input_buf s (unat (input_e s - 1) mod INPUT_BUF) = x" unfolding e slot_mod by (rule sp(2))
  show "line_rep (s\<lparr>input_e := input_e s - 1\<rparr>) com ed" using d(1,2,6) sp(1) e by (simp add: line_rep_def)
qed

lemma line_add:
  fixes s :: "'z cons_state_scheme" and c :: uchar
  assumes "line_rep s com ed" and n: "length com + length ed < INPUT_BUF"
  defines "t \<equiv> s\<lparr>input_buf := (input_buf s)(unat (input_e s) mod INPUT_BUF := c), input_e := input_e s + 1\<rparr>"
  shows "c \<noteq> 10 \<Longrightarrow> line_rep t com (ed @ [c])" "line_rep (t\<lparr>input_w := input_e s + 1\<rparr>) (com @ ed @ [c]) []"
proof -
  note d = line_repD [OF assms(1)]
  have e: "unat (input_e s) mod INPUT_BUF = (unat (input_r s) + (length com + length ed)) mod INPUT_BUF"
    unfolding d(3) by (rule slot_mod)
  have sp: "span_of (input_buf t) (input_r s) (Suc (length com + length ed)) = com @ ed @ [c]"
    unfolding t_def e using span_update [OF n] d(5) by simp
  show "line_rep t com (ed @ [c])" if "c \<noteq> 10" using that d sp n by (simp add: line_rep_def t_def)
  show "line_rep (t\<lparr>input_w := input_e s + 1\<rparr>) (com @ ed @ [c]) []"
    using d sp n by (simp add: line_rep_def t_def algebra_simps)
qed

lemma line_full:
  assumes "line_rep s com ed" and "length com + length ed < INPUT_BUF"
  shows "input_e s + 1 = input_r s + of_nat INPUT_BUF \<longleftrightarrow> Suc (length com + length ed) = INPUT_BUF"
proof -
  have "input_e s + 1 = input_r s + of_nat INPUT_BUF \<longleftrightarrow> (of_nat (Suc (length com + length ed)) :: uint) = of_nat INPUT_BUF"
    unfolding line_repD(3) [OF assms(1)] by (simp add: algebra_simps)
  also have "\<dots> \<longleftrightarrow> unat (of_nat (Suc (length com + length ed)) :: uint) = unat (of_nat INPUT_BUF :: uint)"
    by (simp only: unat_eq_iff_word)
  also have "\<dots> \<longleftrightarrow> Suc (length com + length ed) = INPUT_BUF"
    using assms(2) small_uint [of "Suc (length com + length ed)"] small_uint [of INPUT_BUF] by simp
  finally show ?thesis .
qed

lemma shown_line: "shown ys s t \<Longrightarrow> line_rep t com ed = line_rep s com ed"
  using shown_frame [of ys s t] by (simp add: line_rep_def)

lemma input_frame [simp]:
  "screen_ok (s\<lparr>input_e := x\<rparr>) = screen_ok s" "screen_ok (s\<lparr>input_w := x\<rparr>) = screen_ok s" "screen_ok (s\<lparr>input_r := x\<rparr>) = screen_ok s"
  "screen_ok (s\<lparr>input_buf := b\<rparr>) = screen_ok s" "screen_ok (s\<lparr>idt_null := i\<rparr>) = screen_ok s" "screen_ok (woken ch s) = screen_ok s"
  "tty_frame s (s\<lparr>input_e := x\<rparr>)" "tty_frame s (s\<lparr>input_w := x\<rparr>)" "tty_frame s (s\<lparr>input_r := x\<rparr>)"
  "tty_frame s (s\<lparr>input_buf := b, input_e := x\<rparr>)" "tty_frame s (s\<lparr>idt_null := i\<rparr>)"
  by (simp_all add: screen_ok_def tty_frame_def woken_def)

lemma woken_tty [simp]: "tty_frame s (woken ch s)" "line_rep (woken ch s) com ed = line_rep s com ed"
  by (simp_all add: tty_frame_def line_rep_def woken_def wake1_def)

text \<open>\<open>t\<close> is reached from \<open>s\<close> by the handling of keys and the buffer holds the given input.\<close>

definition tty_to :: "'z cons_state_scheme \<Rightarrow> uchar list \<Rightarrow> uchar list \<Rightarrow> 'z cons_state_scheme \<Rightarrow> bool" where
  "tty_to s com ed t \<longleftrightarrow> line_rep t com ed \<and> tty_ready t \<and> tty_frame s t"

lemma tty_toI: "line_rep t com ed \<Longrightarrow> tty_ready s \<Longrightarrow> tty_frame s t \<Longrightarrow> screen_ok t \<Longrightarrow> tty_to s com ed t"
  using tty_ready_frame by (auto simp: tty_to_def)

lemma tty_readyD: "tty_ready s \<Longrightarrow> screen_ok s" "tty_ready s \<Longrightarrow> settled s" "tty_ready s \<Longrightarrow> lock_free L_ptable s"
  by (simp_all add: tty_ready_def)

text \<open>A change of the buffer and then an echo.\<close>

lemma echo_run:
  assumes "tty_ready s" and "tty_frame s u" and "screen_ok u" and "line_rep u com ed"
  shows "\<exists>t. consputc c u = Ok () t \<and> tty_to s com ed t \<and> shown (echo_bytes c) u t"
proof -
  obtain t where t: "consputc c u = Ok () t" "shown (echo_bytes c) u t" using consputc_run [OF assms(3)] by blast
  then have "tty_to s com ed t"
    using assms shown_line [OF t(2)] shown_ok [OF _ t(2)] tty_frame_trans [OF assms(2) shown_tty_frame [OF t(2)]] by (intro tty_toI) auto
  with t show ?thesis by blast
qed

lemma kill_line_run:
  assumes "tty_ready s" and "line_rep s com ed" and "length ed < k"
  shows "\<exists>t. kill_line k s = Ok () t \<and> tty_to s com [] t"
  using assms
proof (induction k arbitrary: s ed)
  case 0
  then show ?case by simp
next
  case (Suc k)
  show ?case
  proof (cases ed rule: rev_cases)
    case Nil
    then show ?thesis using Suc.prems line_count(3) [OF Suc.prems(2)] by (auto intro!: tty_toI simp: tty_readyD)
  next
    case (snoc ed' x)
    note d = line_drop [OF Suc.prems(2) [unfolded snoc]]
    have x: "x \<noteq> 10" "input_e s \<noteq> input_w s" using line_repD(6) [OF Suc.prems(2)] line_count(3) [OF Suc.prems(2)] snoc by auto
    obtain t where t: "consputc BACKSPACE (s\<lparr>input_e := input_e s - 1\<rparr>) = Ok () t" "tty_to s com ed' t"
      using echo_run [OF Suc.prems(1) _ _ d(1), of BACKSPACE] tty_readyD(1) [OF Suc.prems(1)] by auto
    obtain u where u: "kill_line k t = Ok () u" "tty_to t com [] u"
      using Suc.IH [of t ed'] t(2) Suc.prems(3) snoc by (auto simp: tty_to_def)
    have "kill_line (Suc k) s = Ok () u" using d(2) x t(1) u(1) by (simp add: set_input_e_def)
    then show ?thesis using t(2) u(2) tty_frame_trans by (auto simp: tty_to_def)
  qed
qed

lemma shown_input_w:
  assumes "shown ys s t"
  shows "shown ys (s\<lparr>input_w := w\<rparr>) (t\<lparr>input_w := w\<rparr>)"
proof -
  obtain x q where "t = s\<lparr>crt := x, crt_pos := q, uart_out := (if uart s then uart_out s @ ys else uart_out s)\<rparr>"
    "unat q < 24 * 80" "\<forall>i\<ge>24 * 80. x i = crt s i" using assms unfolding shown_def by blast
  then show ?thesis by (intro shownI [where x = x and q = q]) simp_all
qed

lemma insert_run:
  assumes s: "tty_ready s" "line_rep s com ed" and c: "0 \<le> c" "c < 256" "c \<notin> {0, 16, 26, 21, 8, 0x7f}"
    and n: "length com + length ed < INPUT_BUF"
  shows "\<exists>t. consoleintr_char c s = Ok () t \<and> tty_to s (fst (line_key c (com, ed))) (snd (line_key c (com, ed))) t"
proof -
  define d where "d = (if c = 13 then 10 else c)"
  let ?b = "word_of_int d :: uchar"
  define u where "u = s\<lparr>input_buf := (input_buf s)(unat (input_e s) mod INPUT_BUF := ?b), input_e := input_e s + 1\<rparr>"
  note a = line_add [OF s(2) n, of ?b, folded u_def]
  have u: "tty_frame s u" "screen_ok u" using tty_readyD(1) [OF s(1)] by (simp_all add: u_def)
  have cnt: "unat (input_e s - input_r s) < INPUT_BUF" using line_count(1) [OF s(2)] n by simp
  define fin where "fin \<longleftrightarrow> d = 10 \<or> d = 4 \<or> input_e s + 1 = input_r s + of_nat INPUT_BUF"
  have b: "(if c = 13 then 10 else word_of_int c) = ?b" by (simp add: d_def)
  have key: "line_key c (com, ed) = (if fin then (com @ ed @ [?b], []) else (com, ed @ [?b]))"
    using c n unfolding line_key_def fin_def line_full [OF s(2) n] by (simp add: Let_def b) (auto simp: d_def)
  have run: "consoleintr_char c s =
      bind (consputc d) (\<lambda>_. if fin then bind (modify (\<lambda>s. s\<lparr>input_w := input_e s\<rparr>)) (\<lambda>_. wakeup ChInput) else return ()) u"
    using c cnt unfolding consoleintr_char_def Let_def d_def [symmetric] fin_def
    by (simp add: set_input_e_def) (simp add: u_def)
  show ?thesis
  proof (cases fin)
    case True
    obtain t where t: "consputc d u = Ok () t" "shown (echo_bytes d) u t" using consputc_run [OF u(2)] by blast
    let ?w = "t\<lparr>input_w := input_e t\<rparr>"
    have e: "input_e t = input_e s + 1" using shown_frame [OF t(2)] by (simp add: u_def)
    have "shown (echo_bytes d) (u\<lparr>input_w := input_e s + 1\<rparr>) ?w"
      using shown_input_w [OF t(2)] by (simp add: e)
    from shown_line [OF this] a(2) have "line_rep ?w (com @ ed @ [?b]) []" by simp
    moreover have "tty_frame s ?w"
      using tty_frame_trans [OF u(1) tty_frame_trans [OF shown_tty_frame [OF t(2)]]] by simp
    moreover have "screen_ok ?w" using shown_ok [OF u(2) t(2)] by simp
    ultimately have w: "tty_to s (com @ ed @ [?b]) [] ?w" using s(1) by (intro tty_toI)
    then have "settled ?w" "lock_free L_ptable ?w" by (simp_all add: tty_to_def tty_readyD)
    moreover have "tty_to s (com @ ed @ [?b]) [] (woken ChInput ?w)"
      using w s(1) tty_frame_trans [of s ?w "woken ChInput ?w"] by (intro tty_toI) (simp_all add: tty_to_def tty_ready_def)
    ultimately show ?thesis using t(1) True by (simp add: run key)
  next
    case False
    have "uint ?b = d" using c(1,2) by (auto simp: d_def uint_word_of_int_eq take_bit_int_eq_self)
    moreover have "uint (10 :: uchar) = 10" by simp
    ultimately have nb: "?b \<noteq> 10" using False unfolding fin_def by metis
    obtain t where "consputc d u = Ok () t" "tty_to s com (ed @ [?b]) t"
      using echo_run [OF s(1) u a(1) [OF nb], of d] by blast
    then show ?thesis using False by (simp add: run key)
  qed
qed

lemma consoleintr_char_run:
  assumes s: "tty_ready s" "line_rep s com ed" and c: "0 \<le> c" "c < 256"
  shows "\<exists>t. consoleintr_char c s = Ok () t \<and> tty_to s (fst (line_key c (com, ed))) (snd (line_key c (com, ed))) t"
proof -
  note ok = tty_readyD(1) [OF s(1)]
  have id: "tty_to s com ed s" using s ok by (intro tty_toI) auto
  consider "c = 0" | "c = 26" | "c = 16" | "c = 21" | "c = 8 \<or> c = 0x7f"
    | (full) "c \<notin> {0, 16, 26, 21, 8, 0x7f}" "\<not> length com + length ed < INPUT_BUF"
    | (ins) "c \<notin> {0, 16, 26, 21, 8, 0x7f}" "length com + length ed < INPUT_BUF" by blast
  then show ?thesis
  proof cases
    case 1
    then show ?thesis using id by (simp add: consoleintr_char_def line_key_def)
  next
    case 2
    then have "tty_to s com ed (s\<lparr>idt_null := True\<rparr>)" using s ok by (intro tty_toI) (simp_all add: line_rep_def)
    with 2 show ?thesis by (simp add: consoleintr_char_def line_key_def)
  next
    case 3
    obtain t ys where t: "procdump s = Ok () t" "shown ys s t" using talks_procdump s(1) by (auto simp: talks_def)
    then have "tty_to s com ed t" using s shown_line [OF t(2)] shown_ok [OF ok t(2)] shown_tty_frame [OF t(2)] by (intro tty_toI) auto
    with t(1) 3 show ?thesis by (simp add: consoleintr_char_def line_key_def)
  next
    case 4
    then show ?thesis
      using kill_line_run [OF s, of "Suc (length ed)"] line_count(2) [OF s(2)] by (simp add: consoleintr_char_def line_key_def)
  next
    case 5
    show ?thesis
    proof (cases ed rule: rev_cases)
      case Nil
      then show ?thesis using 5 id line_count(3) [OF s(2)] by (auto simp: consoleintr_char_def line_key_def)
    next
      case (snoc ed' x)
      note d = line_drop [OF s(2) [unfolded snoc]]
      obtain t where "consputc BACKSPACE (s\<lparr>input_e := input_e s - 1\<rparr>) = Ok () t" "tty_to s com ed' t"
        using echo_run [OF s(1) _ _ d(1), of BACKSPACE] ok by auto
      then show ?thesis using 5 snoc line_count(3) [OF s(2)] by (auto simp: consoleintr_char_def line_key_def set_input_e_def)
    qed
  next
    case full
    then show ?thesis using id line_count(1) [OF s(2)] by (simp add: consoleintr_char_def line_key_def)
  next
    case ins
    then show ?thesis using insert_run [OF s c] by simp
  qed
qed

section \<open>Sources of keys\<close>

text \<open>
  \<open>consoleintr\<close> takes the function that fetches the next key. What it relies on: the device
  holds a number of keys, the function takes the first or answers that there is none, and only
  it takes keys.
\<close>

definition keys_taken :: "'z cons_state_scheme \<Rightarrow> 'z cons_state_scheme \<Rightarrow> bool" where
  "keys_taken s t \<longleftrightarrow> (\<exists>a b c. t = s\<lparr>uart_in := a, kbd_in := b, kbd_shift := c\<rparr>)"

lemma release_frame:
  assumes "locks t = locks (acquired lk s)" "cpus t = cpus (acquired lk s)" "mycpu t = mycpu s" and s: "settled s" "lock_free lk s"
  shows "release lk t = Ok () (t\<lparr>cpus := cpus s, locks := locks s\<rparr>)"
proof -
  let ?u = "t\<lparr>cpus := cpus s, locks := locks s\<rparr>"
  have "t = acquired lk ?u" using assms(1-3) by (simp add: acquired_def)
  moreover have "release lk (acquired lk ?u) = Ok () ?u"
    using s assms(3) by (intro release_acquired) (simp_all add: settled_def lock_free_def)
  ultimately show ?thesis by simp
qed

locale key_source =
  fixes getc :: "('z cons_state_scheme, int) op" and pending :: "'z cons_state_scheme \<Rightarrow> int list"
  assumes getc_none: "pending s = [] \<Longrightarrow> getc s = Ok (-1) s"
    and getc_some: "pending s = c # cs \<Longrightarrow> \<exists>t. getc s = Ok c t \<and> pending t = cs \<and> keys_taken s t"
    and key_range: "c \<in> set (pending s) \<Longrightarrow> 0 \<le> c \<and> c < 256"
    and pending_frame: "uart t = uart s \<Longrightarrow> uart_in t = uart_in s \<Longrightarrow> kbd_in t = kbd_in s \<Longrightarrow> kbd_shift t = kbd_shift s \<Longrightarrow>
      pending t = pending s"
    and pending_count: "length (pending s) \<le> length (uart_in s) + length (kbd_in s)"
begin

lemma loop_run:
  assumes "tty_ready s" and "line_rep s com ed" and "length (pending s) < k"
  shows "\<exists>t. consoleintr_loop k getc s = Ok () t \<and> pending t = [] \<and> tty_ready t
    \<and> line_rep t (fst (fold line_key (pending s) (com, ed))) (snd (fold line_key (pending s) (com, ed)))
    \<and> (\<exists>u. keys_taken s u \<and> tty_frame u t)"
  using assms
proof (induction k arbitrary: s com ed)
  case 0
  then show ?case by simp
next
  case (Suc k)
  show ?case
  proof (cases "pending s")
    case Nil
    have "keys_taken s s" unfolding keys_taken_def by (intro exI [of _ "uart_in s"] exI [of _ "kbd_in s"] exI [of _ "kbd_shift s"]) simp
    then show ?thesis using Nil Suc.prems getc_none [OF Nil] by auto
  next
    case (Cons c cs)
    have c: "0 \<le> c" "c < 256" using key_range [of c s] Cons by auto
    obtain t where t: "getc s = Ok c t" "pending t = cs" "keys_taken s t" using getc_some [OF Cons] by blast
    then have t': "tty_ready t" "line_rep t com ed"
      using Suc.prems(1,2) by (auto simp: keys_taken_def tty_ready_def screen_ok_def settled_def lock_free_def line_rep_def)
    obtain u where u: "consoleintr_char c t = Ok () u" "tty_to t (fst (line_key c (com, ed))) (snd (line_key c (com, ed))) u"
      using consoleintr_char_run [OF t' c] by blast
    then have pu: "pending u = cs" using pending_frame [of u t] t(2) by (simp add: tty_to_def tty_frame_def)
    obtain v w where v: "consoleintr_loop k getc u = Ok () v" "pending v = []" "tty_ready v"
      "line_rep v (fst (fold line_key cs (line_key c (com, ed)))) (snd (fold line_key cs (line_key c (com, ed))))"
      and w: "keys_taken u w" "tty_frame w v"
      using Suc.IH [of u "fst (line_key c (com, ed))" "snd (line_key c (com, ed))"] u(2) pu Suc.prems(3) Cons
      by (auto simp: tty_to_def)
    have "consoleintr_loop (Suc k) getc s = Ok () v" using t(1) u(1) v(1) c by simp
    moreover have "\<exists>x. keys_taken s x \<and> tty_frame x v"
      using t(3) u(2) w by (auto simp: keys_taken_def tty_to_def tty_frame_def
          intro!: exI [of _ "s\<lparr>uart_in := uart_in v, kbd_in := kbd_in v, kbd_shift := kbd_shift v\<rparr>"])
    ultimately show ?thesis using v Cons by simp
  qed
qed

lemma consoleintr_run:
  assumes s: "tty_ready s" "lock_free L_input s" "line_rep s com ed"
  shows "\<exists>t. consoleintr getc s = Ok () t \<and> pending t = [] \<and> tty_ready t \<and> lock_free L_input t
    \<and> line_rep t (fst (fold line_key (pending s) (com, ed))) (snd (fold line_key (pending s) (com, ed)))
    \<and> (\<exists>u. keys_taken s u \<and> tty_frame u t)"
proof -
  let ?a = "acquired L_input s"
  have a: "tty_ready ?a" "line_rep ?a com ed" using s by (simp_all add: tty_ready_def line_rep_def)
  have pa: "pending ?a = pending s" by (intro pending_frame) simp_all
  let ?k = "length (uart_in s) + length (kbd_in s)"
  obtain t u where t: "consoleintr_loop (Suc ?k) getc ?a = Ok () t" "pending t = []" "tty_ready t"
    "line_rep t (fst (fold line_key (pending s) (com, ed))) (snd (fold line_key (pending s) (com, ed)))"
    and u: "keys_taken ?a u" "tty_frame u t"
    using loop_run [OF a, of "Suc ?k"] pending_count [of s] unfolding pa by auto
  let ?t = "t\<lparr>cpus := cpus s, locks := locks s\<rparr>"
  have f: "locks t = locks ?a" "cpus t = cpus ?a" "mycpu t = mycpu s"
    using u by (auto simp: keys_taken_def tty_frame_def acquired_def)
  have "consoleintr getc s = Ok () ?t"
    using s(1,2) t(1) release_frame [OF f] by (simp add: consoleintr_def tty_ready_def)
  moreover have "pending ?t = []" using t(2) pending_frame [of ?t t] by simp
  moreover have "tty_ready ?t" "lock_free L_input ?t"
    using s(1,2) t(3) f(3) by (simp_all add: tty_ready_def settled_def lock_free_def screen_ok_def)
  moreover have "\<exists>u. keys_taken s u \<and> tty_frame u ?t"
    using u by (auto simp: keys_taken_def tty_frame_def acquired_def
        intro!: exI [of _ "s\<lparr>uart_in := uart_in t, kbd_in := kbd_in t, kbd_shift := kbd_shift t\<rparr>"])
  moreover have "line_rep ?t x y = line_rep t x y" for x y by (simp add: line_rep_def)
  ultimately show ?thesis using t(4) by auto
qed

end

text \<open>The serial line: a key is a byte.\<close>

definition uart_pending :: "'z cons_state_scheme \<Rightarrow> int list" where
  "uart_pending s = (if uart s then map uint (uart_in s) else [])"

interpretation uart_keys: key_source uartgetc uart_pending
proof
  fix s :: "'z cons_state_scheme" and c cs
  show "uart_pending s = [] \<Longrightarrow> uartgetc s = Ok (-1) s"
    by (auto simp: uart_pending_def uartgetc_def split: if_splits)
  assume p: "uart_pending s = c # cs"
  then obtain x xs where x: "uart s" "uart_in s = x # xs" "c = uint x" "cs = map uint xs" by (auto simp: uart_pending_def split: if_splits)
  then have "uartgetc s = Ok c (s\<lparr>uart_in := xs\<rparr>)" by (simp add: uartgetc_def)
  moreover have "keys_taken s (s\<lparr>uart_in := xs\<rparr>)" unfolding keys_taken_def
    by (intro exI [of _ xs] exI [of _ "kbd_in s"] exI [of _ "kbd_shift s"]) simp
  ultimately show "\<exists>t. uartgetc s = Ok c t \<and> uart_pending t = cs \<and> keys_taken s t"
    using x by (auto simp: uart_pending_def)
next
  fix s :: "'z cons_state_scheme" and c
  assume "c \<in> set (uart_pending s)"
  then obtain x :: uchar where "c = uint x" by (auto simp: uart_pending_def split: if_splits)
  then show "0 \<le> c \<and> c < 256" using uint_bounded [of x] by simp
qed (simp_all add: uart_pending_def)

text \<open>The keyboard: a scan code gives a key, or 0, and changes the state of the shift keys.\<close>

definition kbd_step :: "uint \<Rightarrow> uchar \<Rightarrow> int \<times> uint" where
  "kbd_step shift data =
     (if data = 0xE0 then (0, shift OR E0ESC)
      else if data AND 0x80 \<noteq> 0 then
        (0, shift AND NOT (shiftcode (unat (if shift AND E0ESC \<noteq> 0 then data else data AND 0x7F)) OR E0ESC))
      else
        (let (data, shift) = (if shift AND E0ESC \<noteq> 0 then (data OR 0x80, shift AND NOT E0ESC) else (data, shift));
             shift = (shift OR shiftcode (unat data)) XOR togglecode (unat data) in
         (kbd_decode shift (unat data), shift)))"

fun kbd_keys :: "uint \<Rightarrow> uchar list \<Rightarrow> int list" where
  "kbd_keys shift [] = []"
| "kbd_keys shift (d # ds) = (case kbd_step shift d of (c, shift) \<Rightarrow> c # kbd_keys shift ds)"

definition kbd_pending :: "'z cons_state_scheme \<Rightarrow> int list" where
  "kbd_pending s = kbd_keys (kbd_shift s) (kbd_in s)"

lemma kbdgetc_step:
  "kbd_in s = d # ds \<Longrightarrow> kbdgetc s = Ok (fst (kbd_step (kbd_shift s) d)) (s\<lparr>kbd_in := ds, kbd_shift := snd (kbd_step (kbd_shift s) d)\<rparr>)"
  by (simp add: kbdgetc_def kbd_step_def Let_def split: prod.split)

lemma kbd_decode_range: "0 \<le> kbd_decode shift k \<and> kbd_decode shift k < 256"
  using uint_bounded [of "charcode (shift AND (CTL OR SHIFT)) k"] by (simp add: kbd_decode_def Let_def)

lemma kbd_keys_range: "c \<in> set (kbd_keys shift ds) \<Longrightarrow> 0 \<le> c \<and> c < 256"
proof (induction shift ds rule: kbd_keys.induct)
  case (2 shift d ds)
  have "0 \<le> fst (kbd_step shift d) \<and> fst (kbd_step shift d) < 256"
    using kbd_decode_range by (auto simp: kbd_step_def Let_def split: prod.split)
  with 2 show ?case by (cases "kbd_step shift d") auto
qed simp

lemma length_kbd_keys [simp]: "length (kbd_keys shift ds) = length ds"
  by (induction shift ds rule: kbd_keys.induct) (auto split: prod.split)

interpretation kbd_keys: key_source kbdgetc kbd_pending
proof
  fix s :: "'z cons_state_scheme" and c cs
  have "kbd_keys (kbd_shift s) (kbd_in s) = [] \<Longrightarrow> kbd_in s = []" by (metis length_0_conv length_kbd_keys)
  then show "kbd_pending s = [] \<Longrightarrow> kbdgetc s = Ok (-1) s" by (simp add: kbd_pending_def kbdgetc_def)
  assume p: "kbd_pending s = c # cs"
  then obtain d ds where d: "kbd_in s = d # ds" by (cases "kbd_in s") (auto simp: kbd_pending_def)
  let ?t = "s\<lparr>kbd_in := ds, kbd_shift := snd (kbd_step (kbd_shift s) d)\<rparr>"
  have "keys_taken s ?t" unfolding keys_taken_def
    by (intro exI [of _ "uart_in s"] exI [of _ ds] exI [of _ "snd (kbd_step (kbd_shift s) d)"]) simp
  then show "\<exists>t. kbdgetc s = Ok c t \<and> kbd_pending t = cs \<and> keys_taken s t"
    using p kbdgetc_step [OF d] by (auto simp: kbd_pending_def d split: prod.splits)
qed (simp_all add: kbd_pending_def kbd_keys_range)

section \<open>Reading a line\<close>

text \<open>
  What a read of at most \<open>n\<close> bytes takes from the finished input: up to the end of a line or
  \<open>Control-D\<close>, which is left in place when bytes came before it; \<open>None\<close> when more input is needed.
\<close>

fun take_line :: "bool \<Rightarrow> nat \<Rightarrow> uchar list \<Rightarrow> (uchar list \<times> uchar list) option" where
  "take_line some 0 com = Some ([], com)"
| "take_line some (Suc n) [] = None"
| "take_line some (Suc n) (c # com) =
     (if c = 4 then Some ([], if some then c # com else com)
      else if c = 10 then Some ([c], com)
      else map_option (apfst (Cons c)) (take_line True n com))"

lemma line_take:
  assumes "line_rep s (c # com) ed"
  shows "input_r s \<noteq> input_w s" "input_buf s (unat (input_r s) mod INPUT_BUF) = c" "line_rep (s\<lparr>input_r := input_r s + 1\<rparr>) com ed"
proof -
  note d = line_repD [OF assms]
  have sp: "input_buf s (unat (input_r s) mod INPUT_BUF) # span_of (input_buf s) (input_r s + 1) (length com + length ed) = c # com @ ed"
    using d(5) by (simp add: span_Cons)
  then show "input_buf s (unat (input_r s) mod INPUT_BUF) = c" by simp
  have "unat (of_nat (length (c # com)) :: uint) \<noteq> 0" using d(1) small_uint [of "length (c # com)"] by simp
  then show "input_r s \<noteq> input_w s" unfolding d(2) by (metis add.right_neutral add_left_cancel unat_0)
  show "line_rep (s\<lparr>input_r := input_r s + 1\<rparr>) com ed" using d sp by (simp add: line_rep_def algebra_simps)
qed

lemma line_empty: "line_rep s [] ed \<Longrightarrow> input_r s = input_w s"
  by (simp add: line_rep_def)

definition can_lock :: "nat \<Rightarrow> 'z cons_state_scheme \<Rightarrow> bool" where
  "can_lock ip s \<longleftrightarrow> in_kernel s \<and> 1 \<le> i_ref (inodes s ip) \<and> i_flags (inodes s ip) AND I_VALID \<noteq> 0
     \<and> sl_locked (sleeplocks s (SL_inode ip)) = 0"

lemma in_kernel_input [simp]: "in_kernel (s\<lparr>input_r := r\<rparr>) = in_kernel s"
  by (simp add: in_kernel_def quiet_def settled_def lock_free_def del: quietD in_kernelD)

lemma consoleread_end_run:
  assumes "can_lock ip s" and "line_rep s com ed"
  shows "\<exists>t. consoleread_end ip r got (acquired L_input s) = Ok (r, got) t \<and> line_rep t com ed"
proof -
  let ?t = "s\<lparr>sleeplocks := (sleeplocks s)(SL_inode ip := \<lparr>sl_locked = 1, sl_pid = mypid s\<rparr>)\<rparr>"
  have "consoleread_end ip r got (acquired L_input s) = Ok (r, got) ?t"
    using assms(1) by (simp add: can_lock_def consoleread_end_def ilock_def acquiresleep_run)
  moreover have "line_rep ?t com ed" using assms(2) by (simp add: line_rep_def)
  ultimately show ?thesis by blast
qed

lemma consoleread_loop_run:
  assumes "can_lock ip s" and "line_rep s com ed" and "length got + n = target"
    and "this_proc s = Some p" "p_killed (ptable s p) = 0" "c_ncli (this_cpu s) = 0"
  shows "case take_line (got \<noteq> []) n com of
      Some (bs, rest) \<Rightarrow> \<exists>t. consoleread_loop ip target n got (acquired L_input s) = Ok (int (length (got @ bs)), got @ bs) t \<and> line_rep t rest ed
    | None \<Rightarrow> \<exists>t. consoleread_loop ip target n got (acquired L_input s) = Sleep ChInput t"
  using assms
proof (induction n arbitrary: s com got)
  case 0
  then show ?case using consoleread_end_run [OF 0(1,2), of "int target" got] by simp
next
  case (Suc n)
  show ?case
  proof (cases com)
    case Nil
    then show ?thesis
      using Suc.prems line_empty [of s ed] by (simp add: can_lock_def sleep_run)
  next
    case (Cons c cs)
    note l = line_take [OF Suc.prems(2) [unfolded Cons]]
    let ?s = "s\<lparr>input_r := input_r s + 1\<rparr>"
    have cl: "can_lock ip ?s" using Suc.prems(1) by (simp add: can_lock_def)
    have run: "consoleread_loop ip target (Suc n) got (acquired L_input s) =
        (if c = 4 then
          bind (if Suc n < target then modify (\<lambda>s. s\<lparr>input_r := input_r s - 1\<rparr>) else return ()) (\<lambda>_.
          consoleread_end ip (int target - int (Suc n)) got)
        else if c = 10 then consoleread_end ip (int target - int n) (got @ [c])
        else consoleread_loop ip target n (got @ [c])) (acquired L_input ?s)"
      using l by (simp add: Let_def)
    have st: "Suc n < target \<longleftrightarrow> got \<noteq> []" "int target - int (Suc n) = int (length got)" "int target - int n = int (length got) + 1"
      using Suc.prems(3) by auto
    consider "c = 4" | "c = 10" | "c \<noteq> 4" "c \<noteq> 10" by blast
    then show ?thesis
    proof cases
      case 1
      then show ?thesis
        using consoleread_end_run [OF cl l(3), of "int (length got)" got] consoleread_end_run [OF Suc.prems(1,2), of "int (length got)" got]
        unfolding run Cons st by (cases "got = []") simp_all
    next
      case 2
      then show ?thesis
        using consoleread_end_run [OF cl l(3), of "int (length got) + 1" "got @ [c]"] unfolding run Cons st by simp
    next
      case 3
      then show ?thesis
        using Suc.IH [OF cl l(3), of "got @ [c]"] Suc.prems unfolding run Cons
        by (auto simp: settled_def split: option.splits)
    qed
  qed
qed

text \<open>A process that has the inode locked and may sleep.\<close>

definition reader :: "nat \<Rightarrow> 'z cons_state_scheme \<Rightarrow> bool" where
  "reader ip s \<longleftrightarrow> in_kernel s \<and> 1 \<le> i_ref (inodes s ip) \<and> i_flags (inodes s ip) AND I_VALID \<noteq> 0
     \<and> sl_locked (sleeplocks s (SL_inode ip)) \<noteq> 0 \<and> c_ncli (this_cpu s) = 0 \<and> p_killed (ptable s (the (this_proc s))) = 0"

lemma consoleread_run:
  assumes "reader ip s" and "line_rep s com ed"
  shows "case take_line False (nat n) com of
      Some (bs, rest) \<Rightarrow> \<exists>t. consoleread ip n s = Ok (int (length bs), bs) t \<and> line_rep t rest ed
    | None \<Rightarrow> \<exists>t. consoleread ip n s = Sleep ChInput t"
proof -
  let ?u = "(woken (ChSleepLock (SL_inode ip)) s)\<lparr>sleeplocks := (sleeplocks s)(SL_inode ip := free_sleeplock)\<rparr>"
  have k: "in_kernel s" "in_kernel ?u" using assms(1) by (simp_all add: reader_def)
  obtain p where p: "this_proc s = Some p" using k(1) by (auto simp: in_kernel_def)
  have u: "can_lock ip ?u" "line_rep ?u com ed" "this_proc ?u = Some p" "p_killed (ptable ?u p) = 0" "c_ncli (this_cpu ?u) = 0"
    using assms p k(2) by (simp_all add: can_lock_def reader_def free_sleeplock_def line_rep_def woken_def wake1_def)
  have "iunlock ip s = Ok () ?u"
    using assms(1) k(1) by (simp add: iunlock_def reader_def releasesleep_run)
  then have "consoleread ip n s = consoleread_loop ip (nat n) (nat n) [] (acquired L_input ?u)"
    using k(2) by (simp add: consoleread_def)
  with consoleread_loop_run [OF u(1,2) _ u(3-5), of "[]" "nat n"] show ?thesis by (simp split: option.splits prod.splits)
qed

lemma plain_keys:
  assumes "\<forall>x\<in>set xs. x \<notin> {0, 16, 26, 21, 8, 0x7f, 13, 10, 4}" and "length com + length ed + length xs < INPUT_BUF"
  shows "fold line_key (map uint xs) (com, ed) = (com, ed @ xs)"
  using assms
proof (induction xs arbitrary: ed)
  case (Cons x xs)
  have "uint x \<notin> {0, 16, 26, 21, 8, 0x7f, 13, 10, 4}"
    using Cons.prems(1) by (auto simp: word_uint_eq_iff)
  then have "line_key (uint x) (com, ed) = (com, ed @ [x])" using Cons.prems(2) by (simp add: line_key_def)
  with Cons show ?case by simp
qed simp

lemma take_plain_line:
  assumes "\<forall>x\<in>set xs. x \<notin> {10, 4}" and "length xs < n"
  shows "take_line some n (xs @ 10 # rest) = Some (xs @ [10], rest)"
  using assms
proof (induction xs arbitrary: n some)
  case Nil
  then show ?case by (cases n) simp_all
next
  case (Cons x xs)
  then show ?case by (cases n) auto
qed

lemma keys_reader:
  assumes "reader ip s" and "keys_taken s u" and "tty_frame u t"
  shows "reader ip t"
proof -
  have "locks t = locks s" "cpus t = cpus s" "mycpu t = mycpu s" "curproc t = curproc s" "inodes t = inodes s" "sleeplocks t = sleeplocks s"
    "\<And>p. p_killed (ptable t p) = p_killed (ptable s p)"
    using assms(2,3) by (auto simp: keys_taken_def tty_frame_def)
  with assms(1) show ?thesis
    by (simp add: reader_def in_kernel_def quiet_def settled_def lock_free_def del: quietD in_kernelD)
qed

section \<open>Properties\<close>

text \<open>
  C30: The console is a line discipline. Whatever bytes arrive from the serial line or the
  keyboard, the interrupt handler returns with all of them handled, and the ring buffer with its
  three wrapping indices holds exactly what the keys say: a queue of finished input and one
  edited line, where \<open>Control-U\<close> drops the line, backspace its last byte, and a newline,
  \<open>Control-D\<close> or a full buffer finish it.
\<close>

theorem console_line_discipline:
  assumes "tty_ready s" and "lock_free L_input s" and "line_rep s com ed"
  shows "(\<exists>t. uartintr s = Ok () t \<and> uart_pending t = []
      \<and> (case fold line_key (uart_pending s) (com, ed) of (com', ed') \<Rightarrow> line_rep t com' ed'))
    \<and> (\<exists>t. kbdintr s = Ok () t \<and> kbd_pending t = []
      \<and> (case fold line_key (kbd_pending s) (com, ed) of (com', ed') \<Rightarrow> line_rep t com' ed'))"
  using uart_keys.consoleintr_run [OF assms] kbd_keys.consoleintr_run [OF assms]
  unfolding uartintr_def kbdintr_def by (auto simp: case_prod_beta)

text \<open>
  C32: A line typed on the serial line is what the next read of the console returns: the bytes,
  with the carriage return as a newline, when the read asks for enough and the line has fewer
  than 128 bytes.
\<close>

theorem typed_line_is_read:
  assumes s: "reader ip s" "screen_ok s" "line_rep s [] []"
    and xs: "uart s" "uart_in s = xs @ [13]" "\<forall>x\<in>set xs. x \<notin> {0, 16, 26, 21, 8, 0x7f, 13, 10, 4}"
    and n: "length xs < INPUT_BUF" "int (length xs) < n"
  shows "\<exists>t u. uartintr s = Ok () t \<and> consoleread ip n t = Ok (int (length xs) + 1, xs @ [10]) u \<and> line_rep u [] []"
proof -
  have r: "tty_ready s" "lock_free L_input s" using s(1,2) by (simp_all add: tty_ready_def reader_def)
  have "fold line_key (uart_pending s) ([], []) = (xs @ [10], [])"
    using xs n(1) plain_keys [OF xs(3), of "[]" "[]"] by (simp add: uart_pending_def line_key_def)
  then obtain t u where t: "uartintr s = Ok () t" "line_rep t (xs @ [10]) []" "keys_taken s u" "tty_frame u t"
    using uart_keys.consoleintr_run [OF r s(3)] unfolding uartintr_def by auto
  have "take_line False (nat n) (xs @ [10]) = Some (xs @ [10], [])"
    using take_plain_line [of xs "nat n" False "[]"] xs(3) n(2) by auto
  then show ?thesis
    using consoleread_run [OF keys_reader [OF s(1) t(3,4)] t(2), of n] t(1) by (auto simp: add.commute)
qed


section \<open>An example\<close>

text \<open>A machine whose serial line has received some bytes and whose keyboard the code of the key \<open>a\<close>.\<close>

definition terminal :: "uchar list \<Rightarrow> cons_state" where
  "terminal typed = (with_inode 3 (\<lambda>i. i\<lparr>i_ref := 1, i_flags := I_VALID\<rparr>) (cons_boot (\<lambda>_. zero_block) ()))
     \<lparr>uart_in := typed, kbd_in := [0x1E], sleeplocks := (\<lambda>_. free_sleeplock)(SL_inode 3 := \<lparr>sl_locked = 1, sl_pid = 0\<rparr>)\<rparr>"

lemma terminal_reader: "reader 3 (terminal typed)" "screen_ok (terminal typed)" "line_rep (terminal typed) [] []"
  "uart (terminal typed)" "uart_in (terminal typed) = typed" "kbd_in (terminal typed) = [0x1E]" "kbd_shift (terminal typed) = 0"
proof -
  note d = terminal_def cons_boot_def inode_boot_def txn_boot_def cache_boot_def ide_state.defs ide_boot_def with_inode_def
    idle_cpu_def unlocked_def idle_proc_def
  show "reader 3 (terminal typed)"
    by (simp add: d reader_def in_kernel_def quiet_def settled_def lock_free_def I_VALID_def del: quietD in_kernelD)
  show "screen_ok (terminal typed)" "line_rep (terminal typed) [] []"
    "uart (terminal typed)" "uart_in (terminal typed) = typed" "kbd_in (terminal typed) = [0x1E]" "kbd_shift (terminal typed) = 0"
    by (simp_all add: d screen_ok_def line_rep_def span_of_def)
qed

lemma terminal_ready: "tty_ready (terminal typed)" "lock_free L_input (terminal typed)"
  using terminal_reader [of typed] by (simp_all add: tty_ready_def reader_def)

theorem console_line_discipline_witness:
  "\<exists>t u. uartintr (terminal (chars ''lx'' @ [8] @ chars ''s'' @ [13])) = Ok () t \<and> line_rep t (chars ''ls'' @ [10]) []
    \<and> kbdintr (terminal []) = Ok () u \<and> line_rep u [] (chars ''a'')"
proof -
  note terminal = terminal_reader
  let ?k = "chars ''lx'' @ [8] @ chars ''s'' @ [13]"
  have "fold line_key (uart_pending (terminal ?k)) ([], []) = (chars ''ls'' @ [10], [])"
    by (simp add: uart_pending_def terminal line_key_def INPUT_BUF_def)
  then obtain t where "uartintr (terminal ?k) = Ok () t" "line_rep t (chars ''ls'' @ [10]) []"
    using console_line_discipline [OF terminal_ready terminal(3), of ?k] by auto
  moreover have "kbd_pending (terminal []) = [97]"
    by (simp add: kbd_pending_def terminal kbd_step_def kbd_decode_def charcode_def normalmap_def keymap_def Let_def
        shiftcode_def togglecode_def)
  then have "fold line_key (kbd_pending (terminal [])) ([], []) = ([], chars ''a'')" by (simp add: line_key_def INPUT_BUF_def)
  then obtain u where "kbdintr (terminal []) = Ok () u" "line_rep u [] (chars ''a'')"
    using console_line_discipline [OF terminal_ready terminal(3), of "[]"] by auto
  ultimately show ?thesis by blast
qed

theorem typed_line_is_read_witness:
  "\<exists>t u. uartintr (terminal (chars ''ls'' @ [13])) = Ok () t \<and> consoleread 3 100 t = Ok (3, chars ''ls'' @ [10]) u"
  using typed_line_is_read [OF terminal_reader(1-5), of "chars ''ls''" 100] by (auto simp: INPUT_BUF_def)


end
