(* ===== verification/Grep.thy ===== *)
theory Grep
  imports CString
begin

text \<open>
  The pattern matcher of \<open>grep.c\<close> and the loop that prints the matching lines. Patterns and
  texts are the bytes of a C string before its terminator. The meaning of a pattern is given
  apart from the code, as a set of words.
\<close>

section \<open>Matching\<close>

abbreviation dot :: uchar where "dot \<equiv> 0x2E"
abbreviation star :: uchar where "star \<equiv> 0x2A"
abbreviation caret :: uchar where "caret \<equiv> 0x5E"
abbreviation dollar :: uchar where "dollar \<equiv> 0x24"

text \<open>\<open>matchstar\<close> is its do-while loop: each round tries the rest of the pattern and then takes one more byte.\<close>

function matchhere :: "uchar list \<Rightarrow> uchar list \<Rightarrow> bool" and matchstar :: "uchar \<Rightarrow> uchar list \<Rightarrow> uchar list \<Rightarrow> bool" where
  "matchhere re text =
     (case re of
        [] \<Rightarrow> True
      | c # re1 \<Rightarrow>
          (case re1 of
             d # re2 \<Rightarrow>
               if d = star then matchstar c re2 text
               else (case text of [] \<Rightarrow> False | t # ts \<Rightarrow> (c = dot \<or> c = t) \<and> matchhere re1 ts)
           | [] \<Rightarrow>
               if c = dollar then text = []
               else (case text of [] \<Rightarrow> False | t # ts \<Rightarrow> (c = dot \<or> c = t) \<and> matchhere re1 ts)))"
| "matchstar c re text =
     (matchhere re text \<or> (case text of [] \<Rightarrow> False | t # ts \<Rightarrow> (t = c \<or> c = dot) \<and> matchstar c re ts))"
  by pat_completeness auto
termination
  by (relation "measure (\<lambda>x. case x of Inl (re, text) \<Rightarrow> 2 * (length re + length text)
        | Inr (c, re, text) \<Rightarrow> Suc (2 * (length re + length text)))") auto

declare matchhere.simps [simp del] matchstar.simps [simp del]

fun match_from :: "uchar list \<Rightarrow> uchar list \<Rightarrow> bool" where
  "match_from re [] = matchhere re []"
| "match_from re (t # ts) = (matchhere re (t # ts) \<or> match_from re ts)"

definition match :: "uchar list \<Rightarrow> uchar list \<Rightarrow> bool" where
  "match re text = (case re of c # re' \<Rightarrow> if c = caret then matchhere re' text else match_from re text
     | [] \<Rightarrow> match_from re text)"

section \<open>Printing the matching lines\<close>

text \<open>
  The inner loop over the buffer from \<open>p\<close> on: the output, and the bytes from the last value of
  \<open>p\<close> on. \<open>strchr\<close> looks for a newline no further than the first zero byte.
\<close>

lemma dropWhile_shorter: "dropWhile P p = c # q \<Longrightarrow> length q < length p"
  using length_dropWhile_le [of P p] by simp

function grep_scan :: "uchar list \<Rightarrow> uchar list \<Rightarrow> uchar list \<times> uchar list" where
  "grep_scan pattern p =
     (let line = takeWhile (\<lambda>c. c \<noteq> 10 \<and> c \<noteq> 0) p in
      case dropWhile (\<lambda>c. c \<noteq> 10 \<and> c \<noteq> 0) p of
        [] \<Rightarrow> ([], p)
      | c # q \<Rightarrow>
          if c = 10 then
            (case grep_scan pattern q of (out, rest) \<Rightarrow> ((if match pattern line then line @ [10] else []) @ out, rest))
          else ([], p))"
  by pat_completeness auto
termination
  by (relation "measure (length o snd)") (auto dest: dropWhile_shorter)

declare grep_scan.simps [simp del]

text \<open>
  What a descriptor gives to successive reads: the input arrives in pieces, and a read returns
  at most the bytes it asks for of the next piece, none when there is no input.
\<close>

fun read_piece :: "nat \<Rightarrow> uchar list list \<Rightarrow> uchar list \<times> uchar list list" where
  "read_piece k [] = ([], [])"
| "read_piece k (p # ps) = (take k p, if length p \<le> k then ps else drop k p # ps)"

lemma read_piece_shorter:
  "read_piece k ps = (bs, ps') \<Longrightarrow> bs \<noteq> [] \<Longrightarrow> sum_list (map length ps') < sum_list (map length ps)"
  by (cases ps) (auto split: if_splits)

text \<open>The outer loop, with the \<open>m\<close> bytes that are in the buffer. The output is what goes to descriptor 1.\<close>

function grep_loop :: "uchar list \<Rightarrow> uchar list \<Rightarrow> uchar list list \<Rightarrow> uchar list" where
  "grep_loop pattern b ps =
     (case read_piece (1023 - length b) ps of (bs, ps') \<Rightarrow>
      if bs = [] then []
      else
        (case grep_scan pattern (b @ bs) of (out, p) \<Rightarrow>
         out @ grep_loop pattern (if length p = length (b @ bs) then [] else p) ps'))"
  by pat_completeness auto
termination
  by (relation "measure (\<lambda>(pattern, b, ps). sum_list (map length ps))") (auto dest: read_piece_shorter [OF sym])

declare grep_loop.simps [simp del]

definition grep :: "uchar list \<Rightarrow> uchar list list \<Rightarrow> uchar list" where
  "grep pattern ps = grep_loop pattern [] ps"

section \<open>The language of a pattern\<close>

text \<open>A pattern is a list of bytes, each with or without a star, and perhaps an anchor at its end.\<close>

fun atoms :: "uchar list \<Rightarrow> (bool \<times> uchar) list \<times> bool" where
  "atoms [] = ([], False)"
| "atoms [c] = (if c = dollar then ([], True) else ([(False, c)], False))"
| "atoms (c # d # re) =
     (if d = star then (case atoms re of (as, e) \<Rightarrow> ((True, c) # as, e))
      else (case atoms (d # re) of (as, e) \<Rightarrow> ((False, c) # as, e)))"

definition fits :: "uchar \<Rightarrow> uchar \<Rightarrow> bool" where
  "fits c x \<longleftrightarrow> c = dot \<or> c = x"

fun words_of :: "(bool \<times> uchar) list \<Rightarrow> uchar list set" where
  "words_of [] = {[]}"
| "words_of ((False, c) # as) = {x # w | x w. fits c x \<and> w \<in> words_of as}"
| "words_of ((True, c) # as) = {u @ w | u w. (\<forall>x\<in>set u. fits c x) \<and> w \<in> words_of as}"

definition matches_at :: "uchar list \<Rightarrow> uchar list \<Rightarrow> bool" where
  "matches_at re text \<longleftrightarrow> (\<exists>u v. text = u @ v \<and> u \<in> words_of (fst (atoms re)) \<and> (snd (atoms re) \<longrightarrow> v = []))"

definition matches :: "uchar list \<Rightarrow> uchar list \<Rightarrow> bool" where
  "matches re text \<longleftrightarrow> (if re \<noteq> [] \<and> hd re = caret then matches_at (tl re) text
     else \<exists>pre suf. text = pre @ suf \<and> matches_at re suf)"

lemma matches_at_Nil: "matches_at [] text"
  by (auto simp: matches_at_def)

lemma matches_at_dollar: "matches_at [dollar] text \<longleftrightarrow> text = []"
  by (auto simp: matches_at_def)

lemma matches_at_plain:
  assumes "re = [] \<longrightarrow> c \<noteq> dollar" and "re \<noteq> [] \<longrightarrow> hd re \<noteq> star"
  shows "matches_at (c # re) text \<longleftrightarrow> (case text of [] \<Rightarrow> False | t # ts \<Rightarrow> (c = dot \<or> c = t) \<and> matches_at re ts)"
proof -
  let ?W = "words_of (fst (atoms re))" and ?e = "snd (atoms re)"
  have a: "atoms (c # re) = ((False, c) # fst (atoms re), ?e)" using assms by (cases re) (auto split: prod.split)
  have "matches_at (c # re) text \<longleftrightarrow> (\<exists>x w v. text = x # w @ v \<and> fits c x \<and> w \<in> ?W \<and> (?e \<longrightarrow> v = []))"
  proof
    assume "matches_at (c # re) text"
    then obtain u v where u: "text = u @ v" "u \<in> words_of (fst (atoms (c # re)))" "?e \<longrightarrow> v = []"
      unfolding matches_at_def a by auto
    then obtain x w where "u = x # w" "fits c x" "w \<in> ?W" unfolding a by auto
    moreover from this(1) u(1) have "text = x # w @ v" by simp
    ultimately show "\<exists>x w v. text = x # w @ v \<and> fits c x \<and> w \<in> ?W \<and> (?e \<longrightarrow> v = [])" using u(3) by blast
  next
    assume "\<exists>x w v. text = x # w @ v \<and> fits c x \<and> w \<in> ?W \<and> (?e \<longrightarrow> v = [])"
    then obtain x w v where "text = (x # w) @ v" "x # w \<in> words_of (fst (atoms (c # re)))" "snd (atoms (c # re)) \<longrightarrow> v = []"
      unfolding a by auto
    then show "matches_at (c # re) text" unfolding matches_at_def by blast
  qed
  then show ?thesis by (cases "text") (auto simp: matches_at_def fits_def)
qed

lemma matches_at_star:
  "matches_at (c # star # re) text \<longleftrightarrow>
   matches_at re text \<or> (case text of [] \<Rightarrow> False | t # ts \<Rightarrow> (t = c \<or> c = dot) \<and> matches_at (c # star # re) ts)"
  (is "?l \<longleftrightarrow> ?r")
proof -
  have a: "atoms (c # star # re) = ((True, c) # fst (atoms re), snd (atoms re))" by (simp split: prod.split)
  let ?W = "words_of (fst (atoms re))" and ?e = "snd (atoms re)"
  have l: "matches_at (c # star # re) ts \<longleftrightarrow> (\<exists>u w v. ts = u @ w @ v \<and> (\<forall>x\<in>set u. fits c x) \<and> w \<in> ?W \<and> (?e \<longrightarrow> v = []))" for ts
  proof
    assume "matches_at (c # star # re) ts"
    then obtain y v where y: "ts = y @ v" "y \<in> words_of (fst (atoms (c # star # re)))" "?e \<longrightarrow> v = []"
      unfolding matches_at_def a by auto
    then obtain u w where "y = u @ w" "\<forall>x\<in>set u. fits c x" "w \<in> ?W" unfolding a by auto
    moreover from this(1) y(1) have "ts = u @ w @ v" by simp
    ultimately show "\<exists>u w v. ts = u @ w @ v \<and> (\<forall>x\<in>set u. fits c x) \<and> w \<in> ?W \<and> (?e \<longrightarrow> v = [])" using y(3) by blast
  next
    assume "\<exists>u w v. ts = u @ w @ v \<and> (\<forall>x\<in>set u. fits c x) \<and> w \<in> ?W \<and> (?e \<longrightarrow> v = [])"
    then obtain u w v where w: "ts = u @ w @ v" "\<forall>x\<in>set u. fits c x" "w \<in> ?W" "?e \<longrightarrow> v = []" by blast
    then have "ts = (u @ w) @ v" "u @ w \<in> words_of (fst (atoms (c # star # re)))" "snd (atoms (c # star # re)) \<longrightarrow> v = []"
      unfolding a by auto
    then show "matches_at (c # star # re) ts" unfolding matches_at_def by blast
  qed
  show ?thesis
  proof
    assume ?l
    then obtain u w v where u: "text = u @ w @ v" "\<forall>x\<in>set u. fits c x" "w \<in> ?W" "?e \<longrightarrow> v = []" unfolding l by blast
    show ?r
    proof (cases u)
      case Nil
      then have "matches_at re text" unfolding matches_at_def using u by (intro exI [of _ w] exI [of _ v]) simp
      then show ?thesis ..
    next
      case (Cons x u')
      then have "matches_at (c # star # re) (u' @ w @ v)"
        unfolding l using u by (intro exI [of _ u'] exI [of _ w] exI [of _ v]) simp
      with Cons u(1,2) show ?thesis by (auto simp: fits_def)
    qed
  next
    assume ?r
    then consider "matches_at re text" | t ts where "text = t # ts" "fits c t" "matches_at (c # star # re) ts"
      by (cases "text") (auto simp: fits_def)
    then show ?l
    proof cases
      case 1
      then obtain w v where "text = w @ v" "w \<in> ?W" "?e \<longrightarrow> v = []" unfolding matches_at_def by blast
      then show ?thesis unfolding l by (intro exI [of _ "[]"] exI [of _ w] exI [of _ v]) simp
    next
      case 2
      then obtain u w v where "ts = u @ w @ v" "\<forall>x\<in>set u. fits c x" "w \<in> ?W" "?e \<longrightarrow> v = []" unfolding l by blast
      with 2(1,2) show ?thesis unfolding l by (intro exI [of _ "t # u"] exI [of _ w] exI [of _ v]) simp
    qed
  qed
qed

lemma matchhere_matches:
  "matchhere re text \<longleftrightarrow> matches_at re text" "matchstar c re text \<longleftrightarrow> matches_at (c # star # re) text"
proof (induction re "text" and c re "text" rule: matchhere_matchstar.induct)
  case (1 re "text")
  show ?case
  proof (cases re)
    case Nil
    then show ?thesis by (simp add: matchhere.simps matches_at_Nil)
  next
    case (Cons c re1)
    show ?thesis
    proof (cases "re1 \<noteq> [] \<and> hd re1 = star")
      case True
      then obtain re2 where re2: "re1 = star # re2" by (cases re1) auto
      have "matchstar c re2 text = matches_at (c # star # re2) text" by (rule 1(2) [OF Cons re2 refl])
      then show ?thesis using Cons re2 by (simp add: matchhere.simps)
    next
      case False
      show ?thesis
      proof (cases "re1 = [] \<and> c = dollar")
        case True
        with Cons show ?thesis by (simp add: matchhere.simps matches_at_dollar)
      next
        case nd: False
        have "matchhere re text = (case text of [] \<Rightarrow> False | t # ts \<Rightarrow> (c = dot \<or> c = t) \<and> matchhere re1 ts)"
          using Cons False nd by (subst matchhere.simps) (auto split: list.split)
        moreover have "matchhere re1 ts = matches_at re1 ts" if "text = t # ts" for t ts
        proof (cases re1)
          case Nil
          then show ?thesis using nd by (intro 1(1) [OF Cons Nil _ that]) simp
        next
          case (Cons d re2)
          then show ?thesis using False by (intro 1(3) [OF \<open>re = c # re1\<close> Cons _ that]) simp
        qed
        ultimately show ?thesis
          using Cons matches_at_plain [of re1 c "text"] False nd by (auto split: list.split)
      qed
    qed
  qed
next
  case (2 c re "text")
  then show ?case unfolding matches_at_star [of c re "text"] matchstar.simps [of c re "text"] by (cases "text") auto
qed

lemma match_from_matches: "match_from re text \<longleftrightarrow> (\<exists>pre suf. text = pre @ suf \<and> matches_at re suf)"
proof (induction "text")
  case (Cons t ts)
  then show ?case by (auto simp: matchhere_matches Cons_eq_append_conv)
qed (simp add: matchhere_matches)

lemma match_matches: "match re text \<longleftrightarrow> matches re text"
  by (auto simp: match_def matches_def matchhere_matches match_from_matches split: list.split)

section \<open>What is printed\<close>

definition line_text :: "uchar list list \<Rightarrow> uchar list" where
  "line_text ls = concat (map (\<lambda>l. l @ [10]) ls)"

lemma line_text_simps [simp]:
  "line_text [] = []" "line_text (l # ls) = l @ [10] @ line_text ls" "line_text (ls @ ms) = line_text ls @ line_text ms"
  "line_text ls = [] \<longleftrightarrow> ls = []"
  by (auto simp: line_text_def)

definition plain_line :: "uchar list \<Rightarrow> bool" where
  "plain_line l \<longleftrightarrow> 10 \<notin> set l \<and> 0 \<notin> set l"

lemma scan_line: "plain_line l \<Longrightarrow> takeWhile (\<lambda>c. c \<noteq> 10 \<and> c \<noteq> 0) (l @ 10 # q) = l \<and> dropWhile (\<lambda>c. c \<noteq> 10 \<and> c \<noteq> 0) (l @ 10 # q) = 10 # q"
  by (induction l) (auto simp: plain_line_def)

lemma scan_rest: "plain_line r \<Longrightarrow> dropWhile (\<lambda>c. c \<noteq> 10 \<and> c \<noteq> 0) r = []"
  by (auto simp: plain_line_def)

lemma grep_scan_lines:
  assumes "\<forall>l\<in>set ls. plain_line l" and "plain_line rest"
  shows "grep_scan pattern (line_text ls @ rest) = (line_text (filter (match pattern) ls), rest)"
  using assms
proof (induction ls)
  case Nil
  then show ?case by (subst grep_scan.simps) (simp add: scan_rest Let_def)
next
  case (Cons l ls)
  then show ?case by (subst grep_scan.simps) (simp add: scan_line Let_def)
qed

text \<open>A part of a text of lines is a number of whole lines and the beginning of the next.\<close>

lemma line_text_prefix:
  assumes "buf @ rem = line_text ls" and "\<forall>l\<in>set ls. plain_line l"
  shows "\<exists>j rest. buf = line_text (take j ls) @ rest \<and> plain_line rest \<and> rest @ rem = line_text (drop j ls)"
  using assms
proof (induction ls arbitrary: buf)
  case Nil
  then show ?case by (intro exI [of _ 0] exI [of _ "[]"]) (simp add: plain_line_def)
next
  case (Cons l ls)
  have e: "buf @ rem = (l @ [10]) @ line_text ls" using Cons.prems(1) by simp
  show ?case
  proof (cases "length buf < length (l @ [10])")
    case True
    have "take (length buf) (buf @ rem) = take (length buf) ((l @ [10]) @ line_text ls)" by (simp only: e)
    then have "buf = take (length buf) l" using True by simp
    then have "plain_line buf" using Cons.prems(2) by (metis plain_line_def in_set_takeD list.set_intros(1))
    with Cons.prems(1) show ?thesis by (intro exI [of _ 0] exI [of _ buf]) simp
  next
    case False
    have "take (length (l @ [10])) (buf @ rem) = l @ [10]" by (simp only: e) simp
    then have "take (length (l @ [10])) buf = l @ [10]" using False by simp
    then obtain buf' where b: "buf = (l @ [10]) @ buf'" by (metis append_take_drop_id)
    then have "buf' @ rem = line_text ls" using e by simp
    then obtain j rest where "buf' = line_text (take j ls) @ rest" "plain_line rest" "rest @ rem = line_text (drop j ls)"
      using Cons.IH Cons.prems(2) by force
    with b show ?thesis by (intro exI [of _ "Suc j"] exI [of _ rest]) simp
  qed
qed

lemma grep_loop_lines:
  assumes "b @ rem = line_text ls" "\<forall>l\<in>set ls. plain_line l \<and> length l < 1023" "plain_line b" "length b < 1023"
  shows "grep_loop pattern b (if rem = [] then [] else [rem]) = line_text (filter (match pattern) ls)"
  using assms
proof (induction "length rem" arbitrary: b rem ls rule: less_induct)
  case less
  show ?case
  proof (cases "rem = []")
    case True
    then have "b = line_text ls" using less.prems(1) by simp
    then have "ls = []" using less.prems(3) by (cases ls) (auto simp: plain_line_def)
    then show ?thesis using True by (simp add: grep_loop.simps)
  next
    case False
    define bs where "bs = take (1023 - length b) rem"
    define rem' where "rem' = drop (1023 - length b) rem"
    have br: "rem = bs @ rem'" "bs \<noteq> []" using False less.prems(4) by (simp_all add: bs_def rem'_def)
    have shorter: "length rem' < length rem" unfolding rem'_def length_drop using False less.prems(4) by (intro diff_less) simp_all
    have full: "length (b @ bs) = 1023 \<or> rem' = []"
      using less.prems(4) by (cases "length rem \<le> 1023 - length b") (simp_all add: bs_def rem'_def)
    have "(b @ bs) @ rem' = line_text ls" using less.prems(1) br(1) by simp
    then obtain j rest where j: "b @ bs = line_text (take j ls) @ rest" "plain_line rest" "rest @ rem' = line_text (drop j ls)"
      using line_text_prefix less.prems(2) by blast
    have "line_text (take j ls) \<noteq> []"
    proof
      assume z: "line_text (take j ls) = []"
      then have nl: "10 \<notin> set (b @ bs)" using j(2) unfolding j(1) z by (simp add: plain_line_def)
      show False
      proof (cases ls)
        case Nil
        then show False using less.prems(1) br(2) False by simp
      next
        case (Cons l ls')
        have e: "(b @ bs) @ rem' = (l @ [10]) @ line_text ls'" using less.prems(1) br(1) Cons by simp
        have "length l < 1023" using less.prems(2) Cons by simp
        then have "length (l @ [10]) \<le> length (b @ bs)" using full arg_cong [OF e, of length] by auto
        moreover have "take (length (l @ [10])) ((b @ bs) @ rem') = l @ [10]" unfolding e by simp
        ultimately have "take (length (l @ [10])) (b @ bs) = l @ [10]" by simp
        then have "10 \<in> set (take (length (l @ [10])) (b @ bs))" by simp
        then show False using nl by (meson in_set_takeD)
      qed
    qed
    then have short: "length rest < length (b @ bs)" unfolding j(1) by simp
    have "length rest < 1023" using short less.prems(4) full by (auto simp: bs_def)
    then have ih: "grep_loop pattern rest (if rem' = [] then [] else [rem']) = line_text (filter (match pattern) (drop j ls))"
      using less.hyps [OF shorter j(3)] less.prems(2) j(2) by (meson in_set_dropD)
    have rd: "read_piece (1023 - length b) [rem] = (bs, if rem' = [] then [] else [rem'])"
      by (simp add: bs_def rem'_def)
    have "grep_scan pattern (b @ bs) = (line_text (filter (match pattern) (take j ls)), rest)"
      unfolding j(1) using less.prems(2) by (intro grep_scan_lines j(2)) (meson in_set_takeD)
    then have "grep_loop pattern b [rem] =
        line_text (filter (match pattern) (take j ls)) @ line_text (filter (match pattern) (drop j ls))"
      using br(2) short ih by (subst grep_loop.simps) (simp add: rd del: read_piece.simps)
    also have "\<dots> = line_text (filter (match pattern) ls)"
      by (metis append_take_drop_id filter_append line_text_simps(3))
    finally show ?thesis using False by simp
  qed
qed

text \<open>
  C36: On a file of text lines, each shorter than 1023 bytes, \<open>grep\<close> prints exactly the lines in
  which the pattern matches, in order, however the buffer of 1024 bytes cuts the file. A pattern
  matches in a line when some part of the line is a word of the pattern's language: bytes stand for
  themselves, a dot for any byte, a starred byte for any number of repetitions, a caret at the start
  and a dollar sign at the end anchor the part.
\<close>

theorem grep_prints_matching_lines:
  assumes "ls \<noteq> []" and "\<forall>l\<in>set ls. plain_line l \<and> length l < 1023"
  shows "grep pattern [line_text ls] = line_text (filter (matches pattern) ls)"
proof -
  have "match pattern = matches pattern" using match_matches by (intro ext) simp
  then show ?thesis
    using grep_loop_lines [of "[]" "line_text ls" ls pattern] assms by (simp add: grep_def plain_line_def)
qed

theorem grep_prints_matching_lines_witness:
  "grep (map of_char ''^a.*z$'') [line_text [map of_char ''abcz'', map of_char ''xaz'', map of_char ''az'']]
     = line_text [map of_char ''abcz'', map of_char ''az'']"
proof -
  let ?ls = "[map of_char ''abcz'', map of_char ''xaz'', map of_char ''az''] :: uchar list list"
  have "filter (matches (map of_char ''^a.*z$'')) ?ls = [map of_char ''abcz'', map of_char ''az'']"
    unfolding match_matches [symmetric] by (simp add: match_def matchhere.simps matchstar.simps)
  then show ?thesis
    using grep_prints_matching_lines [of ?ls "map of_char ''^a.*z$''"] by (simp add: plain_line_def)
qed

end
