(* ===== verification/User.thy ===== *)
theory User
  imports Tty Sysfile
begin

text \<open>
  The user programs, over the system calls of \<open>user.h\<close>. What the kernel does for a process is a
  parameter: the record \<open>os\<close> holds one function for each call on a world of any type, as the
  process sees it. \<open>fork\<close> returns in the child or in the parent. \<open>exit\<close> ends the program.
  Strings are the bytes before the terminator, and a loop around a call that can go on without end
  takes the number of rounds it may make. \<open>read\<close> gives the bytes it has stored, or nothing at all
  where the call returns -1.
\<close>

section \<open>System calls\<close>

record 'w os =
  os_fork :: "('w, int) op"
  os_wait :: "('w, int) op"
  os_pipe :: "('w, int \<times> int \<times> int) op"
  os_write :: "int \<Rightarrow> uchar list \<Rightarrow> ('w, int) op"
  os_read :: "int \<Rightarrow> nat \<Rightarrow> ('w, uchar list option) op"
  os_close :: "int \<Rightarrow> ('w, int) op"
  os_kill :: "int \<Rightarrow> ('w, int) op"
  os_exec :: "uchar list \<Rightarrow> uchar list list \<Rightarrow> ('w, int) op"
  os_open :: "uchar list \<Rightarrow> uint \<Rightarrow> ('w, int) op"
  os_mknod :: "uchar list \<Rightarrow> ushort \<Rightarrow> ushort \<Rightarrow> ('w, int) op"
  os_unlink :: "uchar list \<Rightarrow> ('w, int) op"
  os_fstat :: "int \<Rightarrow> ('w, int \<times> stat) op"
  os_link :: "uchar list \<Rightarrow> uchar list \<Rightarrow> ('w, int) op"
  os_mkdir :: "uchar list \<Rightarrow> ('w, int) op"
  os_chdir :: "uchar list \<Rightarrow> ('w, int) op"
  os_dup :: "int \<Rightarrow> ('w, int) op"
  os_sleep :: "int \<Rightarrow> ('w, int) op"

definition os_exit :: "('w, 'a) op" where
  "os_exit = (\<lambda>w. Exited w)"

text \<open>\<open>stat\<close> of \<open>ulib.c\<close>.\<close>

definition ulib_stat :: "'w os \<Rightarrow> uchar list \<Rightarrow> ('w, int \<times> stat option) op" where
  "ulib_stat os n =
     bind (os_open os n 0) (\<lambda>fd.
     if fd < 0 then return (-1, None)
     else
       bind (os_fstat os fd) (\<lambda>(r, st).
       bind (os_close os fd) (\<lambda>_.
       return (r, Some st))))"

section \<open>Formatted output\<close>

definition putc :: "'w os \<Rightarrow> int \<Rightarrow> uchar \<Rightarrow> ('w, unit) op" where
  "putc os fd c = bind (os_write os fd [c]) (\<lambda>_. return ())"

primrec user_print_x :: "'w os \<Rightarrow> int \<Rightarrow> nat \<Rightarrow> 'a::len word \<Rightarrow> ('w, unit) op" where
  "user_print_x os fd 0 x = return ()"
| "user_print_x os fd (Suc n) x =
     bind (putc os fd (digits ! unat (drop_bit (LENGTH('a) - 4) x))) (\<lambda>_. user_print_x os fd n (push_bit 4 x))"

definition user_print_d :: "'w os \<Rightarrow> int \<Rightarrow> int \<Rightarrow> ('w, unit) op" where
  "user_print_d os fd v = for_each (rev (print_d_buf v)) (putc os fd)"

fun printf_loop :: "'w os \<Rightarrow> int \<Rightarrow> uchar list \<Rightarrow> fmt_arg list \<Rightarrow> ('w, unit) op" where
  "printf_loop os fd [] args = return ()"
| "printf_loop os fd [c] args = (if c = of_char CHR ''%'' then return () else putc os fd c)"
| "printf_loop os fd (c # d # fmt) args =
     (if c \<noteq> of_char CHR ''%'' then bind (putc os fd c) (\<lambda>_. printf_loop os fd (d # fmt) args)
      else if d = of_char CHR ''c'' then
        (case args of Arg_int v # args' \<Rightarrow> bind (putc os fd (word_of_int v)) (\<lambda>_. printf_loop os fd fmt args')
         | _ \<Rightarrow> panic ''undefined'')
      else if d = of_char CHR ''d'' then
        (case args of Arg_int v # args' \<Rightarrow> bind (user_print_d os fd v) (\<lambda>_. printf_loop os fd fmt args')
         | _ \<Rightarrow> panic ''undefined'')
      else if d = of_char CHR ''x'' then
        (case args of Arg_uint v # args' \<Rightarrow> bind (user_print_x os fd 8 v) (\<lambda>_. printf_loop os fd fmt args')
         | _ \<Rightarrow> panic ''undefined'')
      else if d = of_char CHR ''p'' then
        (case args of Arg_addr v # args' \<Rightarrow> bind (user_print_x os fd 16 v) (\<lambda>_. printf_loop os fd fmt args')
         | _ \<Rightarrow> panic ''undefined'')
      else if d = of_char CHR ''s'' then
        (case args of
           Arg_str t # args' \<Rightarrow>
             bind (for_each (case t of None \<Rightarrow> chars ''(null)'' | Some xs \<Rightarrow> xs) (putc os fd)) (\<lambda>_. printf_loop os fd fmt args')
         | _ \<Rightarrow> panic ''undefined'')
      else if d = of_char CHR ''%'' then bind (putc os fd d) (\<lambda>_. printf_loop os fd fmt args)
      else bind (putc os fd c) (\<lambda>_. bind (putc os fd d) (\<lambda>_. printf_loop os fd fmt args)))"

definition printf :: "'w os \<Rightarrow> int \<Rightarrow> string \<Rightarrow> fmt_arg list \<Rightarrow> ('w, unit) op" where
  "printf os fd fmt args = printf_loop os fd (chars fmt) args"

abbreviation nl :: string where "nl \<equiv> [CHR 0x0A]"
abbreviation str_arg :: "uchar list \<Rightarrow> fmt_arg" where "str_arg s \<equiv> Arg_str (Some s)"


section \<open>Programs that read files\<close>

primrec cat :: "'w os \<Rightarrow> nat \<Rightarrow> int \<Rightarrow> ('w, unit) op" where
  "cat os 0 fd = (\<lambda>w. Diverge)"
| "cat os (Suc k) fd =
     bind (os_read os fd 512) (\<lambda>r.
     case r of
       None \<Rightarrow> bind (printf os 1 (''cat: read error'' @ nl) []) (\<lambda>_. os_exit)
     | Some bs \<Rightarrow>
         if bs = [] then return ()
         else
           bind (os_write os 1 bs) (\<lambda>n.
           if n \<noteq> int (length bs) then bind (printf os 1 (''cat: write error'' @ nl) []) (\<lambda>_. os_exit)
           else cat os k fd))"

definition cat_main :: "'w os \<Rightarrow> nat \<Rightarrow> uchar list list \<Rightarrow> ('w, unit) op" where
  "cat_main os k argv =
     (if length argv \<le> 1 then bind (cat os k 0) (\<lambda>_. os_exit)
      else
        bind (for_each (tl argv) (\<lambda>a.
          bind (os_open os a 0) (\<lambda>fd.
          if fd < 0 then bind (printf os 1 (''cat: cannot open %s'' @ nl) [str_arg a]) (\<lambda>_. os_exit)
          else bind (cat os k fd) (\<lambda>_. bind (os_close os fd) (\<lambda>_. return ()))))) (\<lambda>_.
        os_exit))"

text \<open>The counters of \<open>wc\<close> are lines, words, bytes and \<open>inword\<close>, 32 bits each.\<close>

type_synonym counts = "uint \<times> uint \<times> uint \<times> bool"

definition wc_byte :: "uchar \<Rightarrow> counts \<Rightarrow> counts" where
  "wc_byte b = (\<lambda>(l, w, c, inword).
     let c = c + 1;
         l = (if b = 10 then l + 1 else l)
     in if b \<in> set [32, 13, 9, 10, 11] then (l, w, c, False)
        else if \<not> inword then (l, w + 1, c, True)
        else (l, w, c, inword))"

primrec wc_loop :: "'w os \<Rightarrow> nat \<Rightarrow> int \<Rightarrow> counts \<Rightarrow> ('w, counts option) op" where
  "wc_loop os 0 fd x = (\<lambda>w. Diverge)"
| "wc_loop os (Suc k) fd x =
     bind (os_read os fd 512) (\<lambda>r.
     case r of
       None \<Rightarrow> return None
     | Some bs \<Rightarrow> if bs = [] then return (Some x) else wc_loop os k fd (fold wc_byte bs x))"

definition wc :: "'w os \<Rightarrow> nat \<Rightarrow> int \<Rightarrow> uchar list \<Rightarrow> ('w, unit) op" where
  "wc os k fd name =
     bind (wc_loop os k fd (0, 0, 0, False)) (\<lambda>r.
     case r of
       None \<Rightarrow> bind (printf os 1 (''wc: read error'' @ nl) []) (\<lambda>_. os_exit)
     | Some (l, w, c, inword) \<Rightarrow>
         printf os 1 (''%d %d %d %s'' @ nl) [Arg_int (sint l), Arg_int (sint w), Arg_int (sint c), str_arg name])"

definition wc_main :: "'w os \<Rightarrow> nat \<Rightarrow> uchar list list \<Rightarrow> ('w, unit) op" where
  "wc_main os k argv =
     (if length argv \<le> 1 then bind (wc os k 0 []) (\<lambda>_. os_exit)
      else
        bind (for_each (tl argv) (\<lambda>a.
          bind (os_open os a 0) (\<lambda>fd.
          if fd < 0 then bind (printf os 1 (''wc: cannot open %s'' @ nl) [str_arg a]) (\<lambda>_. os_exit)
          else bind (wc os k fd a) (\<lambda>_. bind (os_close os fd) (\<lambda>_. return ()))))) (\<lambda>_.
        os_exit))"

section \<open>Listing a directory\<close>

text \<open>The name behind the last slash, padded with blanks to 14 bytes.\<close>

definition fmtname :: "uchar list \<Rightarrow> uchar list" where
  "fmtname path =
     (let p = rev (takeWhile (\<lambda>c. c \<noteq> 47) (rev path)) in
      if length p \<ge> DIRSIZ then p else p @ replicate (DIRSIZ - length p) 32)"

definition ls_line :: "'w os \<Rightarrow> uchar list \<Rightarrow> stat \<Rightarrow> ('w, unit) op" where
  "ls_line os path st =
     printf os 1 (''%s %d %d %d'' @ nl)
       [str_arg (fmtname path), Arg_int (sint (st_type st)), Arg_int (sint (st_ino st)), Arg_int (sint (st_size st))]"

text \<open>
  The entries of the directory. A record is the two bytes of the number and the fourteen of the
  name, which ends at its first zero byte where it has one.
\<close>

primrec ls_entries :: "'w os \<Rightarrow> nat \<Rightarrow> int \<Rightarrow> uchar list \<Rightarrow> ('w, unit) op" where
  "ls_entries os 0 fd path = (\<lambda>w. Diverge)"
| "ls_entries os (Suc k) fd path =
     bind (os_read os fd 16) (\<lambda>r.
     case r of
       None \<Rightarrow> return ()
     | Some de \<Rightarrow>
         if length de \<noteq> 16 then return ()
         else if de ! 0 = 0 \<and> de ! 1 = 0 then ls_entries os k fd path
         else
           (let b = path @ [47] @ takeWhile (\<lambda>c. c \<noteq> 0) (drop 2 de) in
            bind (ulib_stat os b) (\<lambda>(r, st).
            bind (case st of
                    Some st \<Rightarrow> if r < 0 then printf os 1 (''ls: cannot stat %s'' @ nl) [str_arg b] else ls_line os b st
                  | None \<Rightarrow> printf os 1 (''ls: cannot stat %s'' @ nl) [str_arg b]) (\<lambda>_.
            ls_entries os k fd path))))"

definition ls :: "'w os \<Rightarrow> nat \<Rightarrow> uchar list \<Rightarrow> ('w, unit) op" where
  "ls os k path =
     bind (os_open os path 0) (\<lambda>fd.
     if fd < 0 then printf os 2 (''ls: cannot open %s'' @ nl) [str_arg path]
     else
       bind (os_fstat os fd) (\<lambda>(r, st).
       if r < 0 then
         bind (printf os 2 (''ls: cannot stat %s'' @ nl) [str_arg path]) (\<lambda>_. bind (os_close os fd) (\<lambda>_. return ()))
       else
         bind (if st_type st = T_FILE then ls_line os path st
               else if st_type st = T_DIR then
                 (if length path + 1 + DIRSIZ + 1 > 512 then printf os 1 (''ls: path too long'' @ nl) []
                  else ls_entries os k fd path)
               else return ()) (\<lambda>_.
         bind (os_close os fd) (\<lambda>_. return ()))))"

definition ls_main :: "'w os \<Rightarrow> nat \<Rightarrow> uchar list list \<Rightarrow> ('w, unit) op" where
  "ls_main os k argv =
     (if length argv < 2 then bind (ls os k [46]) (\<lambda>_. os_exit)
      else bind (for_each (tl argv) (ls os k)) (\<lambda>_. os_exit))"

section \<open>Small programs\<close>

primrec echo_args :: "'w os \<Rightarrow> uchar list list \<Rightarrow> ('w, unit) op" where
  "echo_args os [] = return ()"
| "echo_args os (a # as) =
     bind (printf os 1 ''%s%s'' [str_arg a, str_arg (if as \<noteq> [] then [32] else [10])]) (\<lambda>_. echo_args os as)"

definition echo_main :: "'w os \<Rightarrow> uchar list list \<Rightarrow> ('w, unit) op" where
  "echo_main os argv = bind (echo_args os (tl argv)) (\<lambda>_. os_exit)"

definition ln_main :: "'w os \<Rightarrow> uchar list list \<Rightarrow> ('w, unit) op" where
  "ln_main os argv =
     (if length argv \<noteq> 3 then bind (printf os 2 (''Usage: ln old new'' @ nl) []) (\<lambda>_. os_exit)
      else
        bind (os_link os (argv ! 1) (argv ! 2)) (\<lambda>r.
        bind (if r < 0 then printf os 2 (''link %s %s: failed'' @ nl) [str_arg (argv ! 1), str_arg (argv ! 2)] else return ()) (\<lambda>_.
        os_exit)))"

primrec rm_loop :: "'w os \<Rightarrow> uchar list list \<Rightarrow> ('w, unit) op" where
  "rm_loop os [] = return ()"
| "rm_loop os (a # as) =
     bind (os_unlink os a) (\<lambda>r.
     if r < 0 then printf os 2 (''rm: %s failed to delete'' @ nl) [str_arg a] else rm_loop os as)"

definition rm_main :: "'w os \<Rightarrow> uchar list list \<Rightarrow> ('w, unit) op" where
  "rm_main os argv =
     (if length argv < 2 then bind (printf os 2 (''Usage: rm files...'' @ nl) []) (\<lambda>_. os_exit)
      else bind (rm_loop os (tl argv)) (\<lambda>_. os_exit))"

primrec mkdir_loop :: "'w os \<Rightarrow> uchar list list \<Rightarrow> ('w, unit) op" where
  "mkdir_loop os [] = return ()"
| "mkdir_loop os (a # as) =
     bind (os_mkdir os a) (\<lambda>r.
     if r < 0 then printf os 2 (''mkdir: %s failed to create'' @ nl) [str_arg a] else mkdir_loop os as)"

definition mkdir_main :: "'w os \<Rightarrow> uchar list list \<Rightarrow> ('w, unit) op" where
  "mkdir_main os argv =
     (if length argv < 2 then bind (printf os 2 (''Usage: mkdir files...'' @ nl) []) (\<lambda>_. os_exit)
      else bind (mkdir_loop os (tl argv)) (\<lambda>_. os_exit))"

definition kill_main :: "'w os \<Rightarrow> uchar list list \<Rightarrow> ('w, unit) op" where
  "kill_main os argv =
     (if length argv < 2 then bind (printf os 2 (''usage: kill pid...'' @ nl) []) (\<lambda>_. os_exit)
      else
        bind (for_each (tl argv) (\<lambda>a.
          case atoi (Suc (length a)) (cstr_of a) of
            Some n \<Rightarrow> bind (os_kill os (sint n)) (\<lambda>_. return ())
          | None \<Rightarrow> panic ''undefined'')) (\<lambda>_.
        os_exit))"

definition zombie_main :: "'w os \<Rightarrow> ('w, unit) op" where
  "zombie_main os =
     bind (os_fork os) (\<lambda>pid.
     bind (if pid > 0 then os_sleep os 5 else return 0) (\<lambda>_.
     os_exit))"

section \<open>The first process\<close>

primrec init_wait :: "'w os \<Rightarrow> nat \<Rightarrow> int \<Rightarrow> ('w, unit) op" where
  "init_wait os 0 pid = (\<lambda>w. Diverge)"
| "init_wait os (Suc k) pid =
     bind (os_wait os) (\<lambda>wpid.
     if wpid \<ge> 0 \<and> wpid \<noteq> pid then bind (printf os 1 (''zombie!'' @ nl) []) (\<lambda>_. init_wait os k pid)
     else return ())"

primrec init_loop :: "'w os \<Rightarrow> nat \<Rightarrow> ('w, unit) op" where
  "init_loop os 0 = (\<lambda>w. Diverge)"
| "init_loop os (Suc k) =
     bind (printf os 1 (''init: starting sh'' @ nl) []) (\<lambda>_.
     bind (os_fork os) (\<lambda>pid.
     if pid < 0 then bind (printf os 1 (''init: fork failed'' @ nl) []) (\<lambda>_. os_exit)
     else if pid = 0 then
       bind (os_exec os (chars ''sh'') [chars ''sh'']) (\<lambda>_.
       bind (printf os 1 (''init: exec sh failed'' @ nl) []) (\<lambda>_. os_exit))
     else bind (init_wait os k pid) (\<lambda>_. init_loop os k)))"

definition init_main :: "'w os \<Rightarrow> nat \<Rightarrow> ('w, unit) op" where
  "init_main os k =
     bind (os_open os (chars ''console'') 2) (\<lambda>fd.
     bind (if fd < 0 then
             bind (os_mknod os (chars ''console'') 1 1) (\<lambda>_. os_open os (chars ''console'') 2)
           else return fd) (\<lambda>_.
     bind (os_dup os 0) (\<lambda>_.
     bind (os_dup os 0) (\<lambda>_.
     init_loop os k))))"

section \<open>Test programs\<close>

definition forktest_printf :: "'w os \<Rightarrow> int \<Rightarrow> string \<Rightarrow> ('w, unit) op" where
  "forktest_printf os fd s = bind (os_write os fd (chars s)) (\<lambda>_. return ())"

text \<open>The two loops: the number of children made before \<open>fork\<close> fails, and the waits for them.\<close>

primrec forktest_forks :: "'w os \<Rightarrow> nat \<Rightarrow> nat \<Rightarrow> ('w, nat) op" where
  "forktest_forks os 0 n = return n"
| "forktest_forks os (Suc k) n =
     bind (os_fork os) (\<lambda>pid. if pid < 0 then return n else if pid = 0 then os_exit else forktest_forks os k (Suc n))"

primrec forktest_waits :: "'w os \<Rightarrow> nat \<Rightarrow> ('w, unit) op" where
  "forktest_waits os 0 = return ()"
| "forktest_waits os (Suc n) =
     bind (os_wait os) (\<lambda>r.
     if r < 0 then bind (forktest_printf os 1 (''wait stopped early'' @ nl)) (\<lambda>_. os_exit) else forktest_waits os n)"

definition forktest :: "'w os \<Rightarrow> ('w, unit) op" where
  "forktest os =
     bind (forktest_printf os 1 (''fork test'' @ nl)) (\<lambda>_.
     bind (forktest_forks os 1000 0) (\<lambda>n.
     if n = 1000 then bind (forktest_printf os 1 (''fork claimed to work N times!'' @ nl)) (\<lambda>_. os_exit)
     else
       bind (forktest_waits os n) (\<lambda>_.
       bind (os_wait os) (\<lambda>r.
       if r \<noteq> -1 then bind (forktest_printf os 1 (''wait got too many'' @ nl)) (\<lambda>_. os_exit)
       else forktest_printf os 1 (''fork test OK'' @ nl)))))"

definition forktest_main :: "'w os \<Rightarrow> ('w, unit) op" where
  "forktest_main os = bind (forktest os) (\<lambda>_. os_exit)"

primrec stressfs_forks :: "'w os \<Rightarrow> nat \<Rightarrow> nat \<Rightarrow> ('w, nat) op" where
  "stressfs_forks os 0 i = return i"
| "stressfs_forks os (Suc k) i =
     bind (os_fork os) (\<lambda>pid. if pid > 0 then return i else stressfs_forks os k (Suc i))"

definition stressfs_main :: "'w os \<Rightarrow> ('w, unit) op" where
  "stressfs_main os =
     bind (printf os 1 (''stressfs starting'' @ nl) []) (\<lambda>_.
     bind (stressfs_forks os 4 0) (\<lambda>i.
     bind (printf os 1 (''write %d'' @ nl) [Arg_int (int i)]) (\<lambda>_.
     let path = chars ''stressfs'' @ [48 + of_nat i] in
     bind (os_open os path 0x202) (\<lambda>fd.
     bind (for_each [0..<20] (\<lambda>_. bind (os_write os fd (replicate 512 97)) (\<lambda>_. return ()))) (\<lambda>_.
     bind (os_close os fd) (\<lambda>_.
     bind (printf os 1 (''read'' @ nl) []) (\<lambda>_.
     bind (os_open os path 0) (\<lambda>fd.
     bind (for_each [0..<20] (\<lambda>_. bind (os_read os fd 512) (\<lambda>_. return ()))) (\<lambda>_.
     bind (os_close os fd) (\<lambda>_.
     bind (os_wait os) (\<lambda>_.
     os_exit)))))))))))"

section \<open>What \<open>wc\<close> prints\<close>

text \<open>
  The words of a text by themselves: the longest stretches without a blank. What a program sees of
  a file: \<open>reads\<close> says that successive reads give the pieces and then the end of the file.
\<close>

definition blank :: "uchar \<Rightarrow> bool" where
  "blank b \<longleftrightarrow> b = 32 \<or> b = 13 \<or> b = 9 \<or> b = 10 \<or> b = 11"

function words :: "uchar list \<Rightarrow> uchar list list" where
  "words s =
     (case dropWhile blank s of
        [] \<Rightarrow> []
      | c # r \<Rightarrow> (c # takeWhile (\<lambda>b. \<not> blank b) r) # words (dropWhile (\<lambda>b. \<not> blank b) r))"
  by pat_completeness auto
termination
proof (relation "measure length")
  fix s c r assume "dropWhile blank s = c # r"
  then have "length r < length s" using length_dropWhile_le [of blank s] by simp
  moreover have "length (dropWhile (\<lambda>b. \<not> blank b) r) \<le> length r" by (rule length_dropWhile_le)
  ultimately show "(dropWhile (\<lambda>b. \<not> blank b) r, s) \<in> measure length" by simp
qed simp

declare words.simps [simp del]

primrec reads :: "'w os \<Rightarrow> int \<Rightarrow> nat \<Rightarrow> uchar list list \<Rightarrow> 'w \<Rightarrow> 'w \<Rightarrow> bool" where
  "reads os fd n [] w w' \<longleftrightarrow> os_read os fd n w = Ok (Some []) w'"
| "reads os fd n (p # ps) w w' \<longleftrightarrow> p \<noteq> [] \<and> (\<exists>w1. os_read os fd n w = Ok (Some p) w1 \<and> reads os fd n ps w1 w')"

definition writes_to :: "'w os \<Rightarrow> int \<Rightarrow> ('w \<Rightarrow> uchar list) \<Rightarrow> bool" where
  "writes_to os fd out \<longleftrightarrow>
     (\<forall>bs w. \<exists>w'. os_write os fd bs w = Ok (int (length bs)) w' \<and> out w' = out w @ bs)"

lemma words_blank: "blank b \<Longrightarrow> words (b # s) = words s"
  by (simp add: words.simps [of "b # s"] words.simps [of s])

lemma words_letter: "\<not> blank b \<Longrightarrow> length (words (b # s)) = Suc (length (words (dropWhile (\<lambda>b. \<not> blank b) s)))"
  by (simp add: words.simps [of "b # s"])

lemma words_Nil [simp]: "words [] = []"
  by (simp add: words.simps)

lemma words_le: "length (words s) \<le> length s"
proof (induction s rule: words.induct)
  case (1 s)
  show ?case
  proof (cases "dropWhile blank s")
    case Nil
    then show ?thesis by (subst words.simps) (simp only: list.case list.size)
  next
    case (Cons c r)
    then have "length (words (dropWhile (\<lambda>b. \<not> blank b) r)) \<le> length r"
      using 1 length_dropWhile_le [of "\<lambda>b. \<not> blank b" r] by force
    moreover have "length r < length s" using Cons length_dropWhile_le [of blank s] by simp
    ultimately show ?thesis using Cons by (simp add: words.simps [of s])
  qed
qed

lemma sint_small: "n < 2 ^ 31 \<Longrightarrow> sint (of_nat n :: uint) = int n"
  by (simp add: sint_uint unsigned_of_nat signed_take_bit_int_eq_self take_bit_nat_eq_self of_nat_take_bit [symmetric])

lemma wc_fold:
  "\<exists>i. fold wc_byte bs (l, w, c, inword) =
    (l + of_nat (count_list bs 10), w + of_nat (length (words (if inword then dropWhile (\<lambda>b. \<not> blank b) bs else bs))),
     c + of_nat (length bs), i)"
proof (induction bs arbitrary: l w c inword)
  case (Cons b bs)
  show ?case
  proof (cases "blank b")
    case True
    then have s: "wc_byte b (l, w, c, inword) = (if b = 10 then l + 1 else l, w, c + 1, False)"
      by (auto simp: wc_byte_def blank_def)
    show ?thesis using Cons [of "if b = 10 then l + 1 else l" w "c + 1" False] True
      by (auto simp: s words_blank algebra_simps)
  next
    case False
    then have s: "wc_byte b (l, w, c, inword) = (l, if inword then w else w + 1, c + 1, True)" and n: "b \<noteq> 10"
      by (auto simp: wc_byte_def blank_def)
    show ?thesis using Cons [of l "if inword then w else w + 1" "c + 1" True] False n
      by (auto simp: s words_letter algebra_simps)
  qed
qed simp

lemma wc_loop_reads:
  "reads os fd 512 ps w w' \<Longrightarrow> length ps < k \<Longrightarrow> wc_loop os k fd x w = Ok (Some (fold wc_byte (concat ps) x)) w'"
proof (induction ps arbitrary: w x k)
  case Nil
  then show ?case by (cases k) simp_all
next
  case (Cons p ps)
  then obtain j w1 where k: "k = Suc j" "p \<noteq> []" "os_read os fd 512 w = Ok (Some p) w1" "reads os fd 512 ps w1 w'" "length ps < j"
    by (cases k) auto
  then show ?case using Cons.IH [OF k(4,5)] by simp
qed

text \<open>Output that a part of a program appends.\<close>

definition puts :: "('w \<Rightarrow> uchar list) \<Rightarrow> uchar list \<Rightarrow> ('w, unit) op \<Rightarrow> bool" where
  "puts out bs m \<longleftrightarrow> (\<forall>w. \<exists>w'. m w = Ok () w' \<and> out w' = out w @ bs)"

lemma puts_return [intro]: "puts out [] (return ())"
  by (simp add: puts_def)

lemma puts_bind [intro]: "puts out as m \<Longrightarrow> puts out bs n \<Longrightarrow> puts out (as @ bs) (bind m (\<lambda>_. n))"
  unfolding puts_def by (metis append.assoc bind_Ok)

lemma puts_putc: "writes_to os fd out \<Longrightarrow> puts out [c] (putc os fd c)"
  unfolding puts_def putc_def writes_to_def by (metis bind_Ok)

lemma puts_each: "writes_to os fd out \<Longrightarrow> puts out bs (for_each bs (putc os fd))"
proof (induction bs)
  case (Cons b bs)
  then show ?case using puts_bind [OF puts_putc [OF Cons.prems] Cons.IH [OF Cons.prems], of b] by simp
qed auto

lemma puts_print_d: "writes_to os fd out \<Longrightarrow> puts out (rev (print_d_buf v)) (user_print_d os fd v)"
  unfolding user_print_d_def by (rule puts_each)

lemma puts_wc_line:
  assumes "writes_to os 1 out"
  shows "puts out (rev (print_d_buf x) @ [32] @ rev (print_d_buf y) @ [32] @ rev (print_d_buf z) @ [32] @ name @ [10])
    (printf os 1 (''%d %d %d %s'' @ nl) [Arg_int x, Arg_int y, Arg_int z, str_arg name])"
proof -
  note p = puts_bind [OF puts_print_d [OF assms]] puts_bind [OF puts_putc [OF assms]] puts_bind [OF puts_each [OF assms]]
    puts_putc [OF assms]
  show ?thesis by (simp add: printf_def) (intro p [simplified])
qed

text \<open>
  C37: On a file of less than 2 gigabytes \<open>wc\<close> prints the number of newlines, of words and of bytes
  of the file and the name, whatever pieces the reads return. It takes one round for each piece
  and one for the end of the file. A word is a longest stretch of bytes that are not blanks, also
  where it lies in two pieces.
\<close>

theorem wc_counts:
  assumes "writes_to os 1 out" and "reads os fd 512 ps w w'" and "length ps < k" and "length (concat ps) < 2 ^ 31"
  shows "\<exists>t. wc os k fd name w = Ok () t \<and>
    out t = out w' @ rev (print_d_buf (int (count_list (concat ps) 10))) @ [32] @
      rev (print_d_buf (int (length (words (concat ps))))) @ [32] @
      rev (print_d_buf (int (length (concat ps)))) @ [32] @ name @ [10]"
proof -
  let ?t = "concat ps"
  obtain i where i: "fold wc_byte ?t (0, 0, 0, False) = (of_nat (count_list ?t 10), of_nat (length (words ?t)), of_nat (length ?t), i)"
    using wc_fold [of ?t 0 0 0 False] by auto
  have "count_list ?t 10 \<le> length ?t" "length (words ?t) \<le> length ?t" by (rule count_le_length) (rule words_le)
  then have "sint (of_nat (count_list ?t 10) :: uint) = int (count_list ?t 10)"
    "sint (of_nat (length (words ?t)) :: uint) = int (length (words ?t))" "sint (of_nat (length ?t) :: uint) = int (length ?t)"
    using assms(4) by (auto intro!: sint_small)
  then show ?thesis
    using wc_loop_reads [OF assms(2,3), of "(0, 0, 0, False)"] puts_wc_line [OF assms(1)]
    by (simp add: wc_def i puts_def)
qed

text \<open>A process with one file to read and one to write: the pieces that are left and what was written.\<close>

definition filter_os :: "(uchar list list \<times> uchar list) os" where
  "filter_os = \<lparr>os_fork = return (-1), os_wait = return (-1), os_pipe = return (-1, 0, 0),
     os_write = (\<lambda>fd bs (ps, out). Ok (int (length bs)) (ps, out @ bs)),
     os_read = (\<lambda>fd n (ps, out). case ps of [] \<Rightarrow> Ok (Some []) ([], out) | p # ps \<Rightarrow> Ok (Some p) (ps, out)),
     os_close = (\<lambda>fd. return 0), os_kill = (\<lambda>pid. return (-1)), os_exec = (\<lambda>a b. return (-1)), os_open = (\<lambda>a b. return 3),
     os_mknod = (\<lambda>a b c. return (-1)), os_unlink = (\<lambda>a. return (-1)),
     os_fstat = (\<lambda>fd. return (-1, \<lparr>st_type = 0, st_dev = 0, st_ino = 0, st_nlink = 0, st_size = 0\<rparr>)),
     os_link = (\<lambda>a b. return (-1)), os_mkdir = (\<lambda>a. return (-1)), os_chdir = (\<lambda>a. return (-1)), os_dup = (\<lambda>fd. return (-1)),
     os_sleep = (\<lambda>n. return 0)\<rparr>"

theorem wc_counts_witness:
  "\<exists>t. wc filter_os 3 0 (chars ''f'') ([chars ''ab c'', chars ''d'' @ [10]], []) = Ok () t \<and> snd t = chars ''1 2 6 f'' @ [10]"
proof -
  have "writes_to filter_os 1 snd" by (auto simp: writes_to_def filter_os_def)
  moreover have "reads filter_os 0 512 [chars ''ab c'', chars ''d'' @ [10]] ([chars ''ab c'', chars ''d'' @ [10]], []) ([], [])"
    by (simp add: filter_os_def)
  ultimately show ?thesis
    using wc_counts [of filter_os snd 0 "[chars ''ab c'', chars ''d'' @ [10]]" _ _ 3 "chars ''f''"]
    by (fastforce simp: words.simps blank_def print_d_buf_def dec_digits.simps digits_def)
qed

end
