(* ===== verification/Sh.thy ===== *)
theory Sh
  imports User
begin

text \<open>
  The shell, \<open>sh.c\<close>: its parser, its interpreter of commands and its main loop. A pointer into the
  input line is its offset, and the parser is a state transformer on the offset \<open>*ps\<close>. Its \<open>panic\<close>
  ends the parse with the message, which \<open>parsecmd\<close> prints. The functions that call each other
  take the depth they may reach, the loops the rounds they may make. \<open>malloc\<close> gives new memory.
\<close>

section \<open>Commands\<close>

text \<open>A string of a command is a pair of pointers while the line is parsed, its bytes when it runs.\<close>

datatype 'p cmd =
    EXEC "'p list"
  | REDIR "'p cmd" 'p uint int
  | PIPE "'p cmd" "'p cmd"
  | LIST "'p cmd" "'p cmd"
  | BACK "'p cmd"

type_synonym span = "nat \<times> nat"

definition MAXARGS :: nat where [simp]: "MAXARGS = 10"

definition O_WRONLY_CREATE :: uint where [simp]: "O_WRONLY_CREATE = 0x201"

section \<open>Tokens\<close>

definition whitespace :: "uchar \<Rightarrow> bool" where
  "whitespace c \<longleftrightarrow> c \<in> set [32, 9, 13, 10, 11]"

definition symbols :: "uchar \<Rightarrow> bool" where
  "symbols c \<longleftrightarrow> c \<in> set (chars ''<|>&;()'')"

text \<open>The byte under a pointer, and the loops that move a pointer on while it is before the end.\<close>

definition char_at :: "uchar list \<Rightarrow> nat \<Rightarrow> uchar" where
  "char_at b s = (if s < length b then b ! s else 0)"

function skip :: "(uchar \<Rightarrow> bool) \<Rightarrow> uchar list \<Rightarrow> nat \<Rightarrow> nat" where
  "skip P b s = (if s < length b \<and> P (b ! s) then skip P b (Suc s) else s)"
  by pat_completeness auto
termination
  by (relation "measure (\<lambda>(P, b, s). length b - s)") auto

declare skip.simps [simp del]

definition gettoken :: "uchar list \<Rightarrow> (nat, uchar \<times> span) op" where
  "gettoken b s0 =
     (let q = skip whitespace b s0;
          c = char_at b q;
          (ret, eq) =
            (if c = 0 then (0, q)
             else if c \<in> set (chars ''|();&<'') then (c, Suc q)
             else if c = of_char CHR ''>'' then
               (if char_at b (Suc q) = of_char CHR ''>'' then (of_char CHR ''+'', Suc (Suc q)) else (c, Suc q))
             else (of_char CHR ''a'', skip (\<lambda>c. \<not> whitespace c \<and> \<not> symbols c) b q))
      in Ok (ret, q, eq) (skip whitespace b eq))"

definition peek :: "uchar list \<Rightarrow> string \<Rightarrow> (nat, bool) op" where
  "peek b toks s0 =
     (let s = skip whitespace b s0 in Ok (char_at b s \<noteq> 0 \<and> char_at b s \<in> set (chars toks)) s)"

section \<open>Parser\<close>

primrec parseredirs :: "nat \<Rightarrow> uchar list \<Rightarrow> span cmd \<Rightarrow> (nat, span cmd) op" where
  "parseredirs 0 b cmd = (\<lambda>s. Diverge)"
| "parseredirs (Suc k) b cmd =
     bind (peek b ''<>'') (\<lambda>more.
     if \<not> more then return cmd
     else
       bind (gettoken b) (\<lambda>(tok, _).
       bind (gettoken b) (\<lambda>(t, file).
       if t \<noteq> of_char CHR ''a'' then panic ''missing file for redirection''
       else
         parseredirs k b
           (if tok = of_char CHR ''<'' then REDIR cmd file 0 0
            else if tok = of_char CHR ''>'' then REDIR cmd file O_WRONLY_CREATE 1
            else if tok = of_char CHR ''+'' then REDIR cmd file O_WRONLY_CREATE 1
            else cmd))))"

text \<open>
  \<open>parseexec\<close> holds the command it fills in and the redirections around it by two pointers;
  storing an argument changes the command inside the redirections.
\<close>

fun add_arg :: "'p \<Rightarrow> 'p cmd \<Rightarrow> 'p cmd" where
  "add_arg a (EXEC as) = EXEC (as @ [a])"
| "add_arg a (REDIR c f m fd) = REDIR (add_arg a c) f m fd"
| "add_arg a c = c"

primrec parseargs :: "nat \<Rightarrow> uchar list \<Rightarrow> nat \<Rightarrow> span cmd \<Rightarrow> (nat, span cmd) op" where
  "parseargs 0 b argc ret = (\<lambda>s. Diverge)"
| "parseargs (Suc k) b argc ret =
     bind (peek b ''|)&;'') (\<lambda>stop.
     if stop then return ret
     else
       bind (gettoken b) (\<lambda>(tok, a).
       if tok = 0 then return ret
       else if tok \<noteq> of_char CHR ''a'' then panic ''syntax''
       else if Suc argc \<ge> MAXARGS then panic ''too many args''
       else
         bind (parseredirs k b (add_arg a ret)) (\<lambda>ret.
         parseargs k b (Suc argc) ret)))"

primrec parsebacks :: "nat \<Rightarrow> uchar list \<Rightarrow> span cmd \<Rightarrow> (nat, span cmd) op" where
  "parsebacks 0 b cmd = (\<lambda>s. Diverge)"
| "parsebacks (Suc k) b cmd =
     bind (peek b ''&'') (\<lambda>more.
     if \<not> more then return cmd
     else bind (gettoken b) (\<lambda>_. parsebacks k b (BACK cmd)))"

fun parseline :: "nat \<Rightarrow> uchar list \<Rightarrow> (nat, span cmd) op"
and parsepipe :: "nat \<Rightarrow> uchar list \<Rightarrow> (nat, span cmd) op"
and parseexec :: "nat \<Rightarrow> uchar list \<Rightarrow> (nat, span cmd) op"
and parseblock :: "nat \<Rightarrow> uchar list \<Rightarrow> (nat, span cmd) op" where
  "parseline 0 b = (\<lambda>s. Diverge)"
| "parseline (Suc k) b =
     bind (parsepipe k b) (\<lambda>cmd.
     bind (parsebacks k b cmd) (\<lambda>cmd.
     bind (peek b '';'') (\<lambda>more.
     if more then
       bind (gettoken b) (\<lambda>_.
       bind (parseline k b) (\<lambda>right.
       return (LIST cmd right)))
     else return cmd)))"
| "parsepipe 0 b = (\<lambda>s. Diverge)"
| "parsepipe (Suc k) b =
     bind (parseexec k b) (\<lambda>cmd.
     bind (peek b ''|'') (\<lambda>more.
     if more then
       bind (gettoken b) (\<lambda>_.
       bind (parsepipe k b) (\<lambda>right.
       return (PIPE cmd right)))
     else return cmd))"
| "parseexec 0 b = (\<lambda>s. Diverge)"
| "parseexec (Suc k) b =
     bind (peek b ''('') (\<lambda>block.
     if block then parseblock k b
     else
       bind (parseredirs k b (EXEC [])) (\<lambda>ret.
       parseargs k b 0 ret))"
| "parseblock 0 b = (\<lambda>s. Diverge)"
| "parseblock (Suc k) b =
     bind (peek b ''('') (\<lambda>open.
     if \<not> open then panic ''parseblock''
     else
       bind (gettoken b) (\<lambda>_.
       bind (parseline k b) (\<lambda>cmd.
       bind (peek b '')'') (\<lambda>close.
       if \<not> close then panic ''syntax - missing )''
       else
         bind (gettoken b) (\<lambda>_.
         parseredirs k b cmd)))))"

primrec nulterminate :: "span cmd \<Rightarrow> uchar list \<Rightarrow> uchar list" where
  "nulterminate (EXEC as) b = fold (\<lambda>(q, eq) b. b[eq := 0]) as b"
| "nulterminate (REDIR c f m fd) b = (nulterminate c b)[snd f := 0]"
| "nulterminate (PIPE l r) b = nulterminate r (nulterminate l b)"
| "nulterminate (LIST l r) b = nulterminate r (nulterminate l b)"
| "nulterminate (BACK c) b = nulterminate c b"

section \<open>Running commands\<close>

definition sh_panic :: "'w os \<Rightarrow> string \<Rightarrow> ('w, 'a) op" where
  "sh_panic os s = bind (printf os 2 (''%s'' @ nl) [str_arg (chars s)]) (\<lambda>_. os_exit)"

definition fork1 :: "'w os \<Rightarrow> ('w, int) op" where
  "fork1 os = bind (os_fork os) (\<lambda>pid. if pid = -1 then sh_panic os ''fork'' else return pid)"

text \<open>The string a pointer stands for. The result of \<open>parsecmd\<close> is the tree with its strings.\<close>

definition string_at :: "uchar list \<Rightarrow> nat \<Rightarrow> uchar list" where
  "string_at b q = takeWhile (\<lambda>c. c \<noteq> 0) (drop q b)"

definition parsecmd :: "'w os \<Rightarrow> nat \<Rightarrow> uchar list \<Rightarrow> ('w, uchar list cmd) op" where
  "parsecmd os k b =
     (\<lambda>w. case parseline k b 0 of
        Ok cmd s \<Rightarrow>
          (let s = skip whitespace b s in
           if s \<noteq> length b then
             bind (printf os 2 (''leftovers: %s'' @ nl) [str_arg (drop s b)]) (\<lambda>_. sh_panic os ''syntax'') w
           else Ok (map_cmd (\<lambda>(q, eq). string_at (nulterminate cmd b) q) cmd) w)
      | Panic m \<Rightarrow> sh_panic os m w
      | _ \<Rightarrow> Diverge)"

primrec runcmd :: "'w os \<Rightarrow> uchar list cmd \<Rightarrow> ('w, unit) op" where
  "runcmd os (EXEC argv) =
     (case argv of
        [] \<Rightarrow> os_exit
      | a # _ \<Rightarrow>
          bind (os_exec os a argv) (\<lambda>_.
          bind (printf os 2 (''exec %s failed'' @ nl) [str_arg a]) (\<lambda>_. os_exit)))"
| "runcmd os (REDIR cmd file mode fd) =
     bind (os_close os fd) (\<lambda>_.
     bind (os_open os file mode) (\<lambda>r.
     if r < 0 then bind (printf os 2 (''open %s failed'' @ nl) [str_arg file]) (\<lambda>_. os_exit)
     else bind (runcmd os cmd) (\<lambda>_. os_exit)))"
| "runcmd os (LIST left right) =
     bind (fork1 os) (\<lambda>pid.
     bind (if pid = 0 then runcmd os left else return ()) (\<lambda>_.
     bind (os_wait os) (\<lambda>_.
     bind (runcmd os right) (\<lambda>_. os_exit))))"
| "runcmd os (PIPE left right) =
     bind (os_pipe os) (\<lambda>(r, p0, p1).
     if r < 0 then sh_panic os ''pipe''
     else
       bind (fork1 os) (\<lambda>pid.
       bind (if pid = 0 then
               bind (os_close os 1) (\<lambda>_. bind (os_dup os p1) (\<lambda>_. bind (os_close os p0) (\<lambda>_.
               bind (os_close os p1) (\<lambda>_. runcmd os left))))
             else return ()) (\<lambda>_.
       bind (fork1 os) (\<lambda>pid.
       bind (if pid = 0 then
               bind (os_close os 0) (\<lambda>_. bind (os_dup os p0) (\<lambda>_. bind (os_close os p0) (\<lambda>_.
               bind (os_close os p1) (\<lambda>_. runcmd os right))))
             else return ()) (\<lambda>_.
       bind (os_close os p0) (\<lambda>_.
       bind (os_close os p1) (\<lambda>_.
       bind (os_wait os) (\<lambda>_.
       bind (os_wait os) (\<lambda>_.
       os_exit)))))))))"
| "runcmd os (BACK cmd) =
     bind (fork1 os) (\<lambda>pid.
     bind (if pid = 0 then runcmd os cmd else return ()) (\<lambda>_. os_exit))"

section \<open>Main loop\<close>

text \<open>\<open>gets\<close> with the number of bytes that still fit before the terminator.\<close>

primrec gets_line :: "'w os \<Rightarrow> nat \<Rightarrow> ('w, uchar list) op" where
  "gets_line os 0 = return []"
| "gets_line os (Suc room) =
     bind (os_read os 0 1) (\<lambda>r.
     case r of
       Some (c # _) \<Rightarrow>
         if c = 10 \<or> c = 13 then return [c] else bind (gets_line os room) (\<lambda>line. return (c # line))
     | _ \<Rightarrow> return [])"

definition getcmd :: "'w os \<Rightarrow> ('w, uchar list option) op" where
  "getcmd os =
     bind (printf os 2 ''$ '' []) (\<lambda>_.
     bind (gets_line os 99) (\<lambda>line.
     let line = string_at line 0 in
     return (if line = [] then None else Some line)))"

primrec sh_open :: "'w os \<Rightarrow> nat \<Rightarrow> ('w, unit) op" where
  "sh_open os 0 = (\<lambda>w. Diverge)"
| "sh_open os (Suc k) =
     bind (os_open os (chars ''console'') 2) (\<lambda>fd.
     if fd \<ge> 3 then bind (os_close os fd) (\<lambda>_. return ())
     else if fd \<ge> 0 then sh_open os k
     else return ())"

primrec sh_loop :: "'w os \<Rightarrow> nat \<Rightarrow> ('w, unit) op" where
  "sh_loop os 0 = (\<lambda>w. Diverge)"
| "sh_loop os (Suc k) =
     bind (getcmd os) (\<lambda>line.
     case line of
       None \<Rightarrow> return ()
     | Some b \<Rightarrow>
         if take 3 b = chars ''cd '' then
           (let dir = drop 3 (butlast b) in
            bind (os_chdir os dir) (\<lambda>r.
            bind (if r < 0 then printf os 2 (''cannot cd %s'' @ nl) [str_arg dir] else return ()) (\<lambda>_.
            sh_loop os k)))
         else
           bind (fork1 os) (\<lambda>pid.
           bind (if pid = 0 then bind (parsecmd os (4 * length b + 4) b) (runcmd os) else return ()) (\<lambda>_.
           bind (os_wait os) (\<lambda>_.
           sh_loop os k))))"

definition sh_main :: "'w os \<Rightarrow> nat \<Rightarrow> ('w, unit) op" where
  "sh_main os k = bind (sh_open os k) (\<lambda>_. bind (sh_loop os k) (\<lambda>_. os_exit))"

section \<open>The parser ends\<close>

text \<open>
  A string of the line: its bytes are neither blank nor symbols, and the byte behind it is one of
  these or the end of the line. A command is well formed when all its strings are, and no list of
  arguments fills the array of ten with its terminator.
\<close>

definition word_char :: "uchar \<Rightarrow> bool" where
  "word_char c \<longleftrightarrow> \<not> whitespace c \<and> \<not> symbols c"

definition span_ok :: "uchar list \<Rightarrow> span \<Rightarrow> bool" where
  "span_ok b = (\<lambda>(q, e). q < e \<and> e \<le> length b \<and> (\<forall>i. q \<le> i \<and> i < e \<longrightarrow> word_char (b ! i)) \<and>
     (e < length b \<longrightarrow> \<not> word_char (b ! e)))"

primrec cmd_ok :: "uchar list \<Rightarrow> span cmd \<Rightarrow> bool" where
  "cmd_ok b (EXEC as) \<longleftrightarrow> length as < MAXARGS \<and> (\<forall>a\<in>set as. span_ok b a)"
| "cmd_ok b (REDIR c f m fd) \<longleftrightarrow> cmd_ok b c \<and> span_ok b f"
| "cmd_ok b (PIPE l r) \<longleftrightarrow> cmd_ok b l \<and> cmd_ok b r"
| "cmd_ok b (LIST l r) \<longleftrightarrow> cmd_ok b l \<and> cmd_ok b r"
| "cmd_ok b (BACK c) \<longleftrightarrow> cmd_ok b c"

text \<open>The number of arguments of a command under construction.\<close>

fun argc_is :: "nat \<Rightarrow> 'p cmd \<Rightarrow> bool" where
  "argc_is n (EXEC as) \<longleftrightarrow> length as = n"
| "argc_is n (REDIR c f m fd) \<longleftrightarrow> argc_is n c"
| "argc_is n c \<longleftrightarrow> False"

lemma add_arg_ok:
  "cmd_ok b c \<Longrightarrow> argc_is n c \<Longrightarrow> Suc n < MAXARGS \<Longrightarrow> span_ok b a \<Longrightarrow> cmd_ok b (add_arg a c) \<and> argc_is (Suc n) (add_arg a c)"
  by (induction a c rule: add_arg.induct) auto

lemma skip_ge: "s \<le> skip P b s"
  by (induction P b s rule: skip.induct) (subst skip.simps, auto)

lemma skip_le: "s \<le> length b \<Longrightarrow> skip P b s \<le> length b"
  by (induction P b s rule: skip.induct) (subst skip.simps, auto)

lemma skip_in: "s \<le> i \<Longrightarrow> i < skip P b s \<Longrightarrow> P (b ! i)"
proof (induction P b s rule: skip.induct)
  case (1 P b s)
  show ?case
  proof (cases "s < length b \<and> P (b ! s)")
    case True
    then show ?thesis using 1 by (cases "i = s") (auto simp: skip.simps [of P b s])
  next
    case False
    then show ?thesis using 1(2,3) by (subst (asm) skip.simps) auto
  qed
qed

lemma skip_stop: "skip P b s < length b \<Longrightarrow> \<not> P (b ! skip P b s)"
proof (induction P b s rule: skip.induct)
  case (1 P b s)
  then show ?case by (cases "s < length b \<and> P (b ! s)") (auto simp: skip.simps [of P b s])
qed

lemma skip_more: "s < length b \<Longrightarrow> P (b ! s) \<Longrightarrow> s < skip P b s"
  using skip_ge [of "Suc s" P b] by (subst skip.simps) simp

lemma skip_skip [simp]: "skip P b (skip P b s) = skip P b s"
  using skip_stop [of P b s] by (subst skip.simps) auto

text \<open>A part of the parser that comes to an end, forward in the line, with a result or a message.\<close>

definition parses :: "uchar list \<Rightarrow> nat \<Rightarrow> (nat, 'a) op \<Rightarrow> ('a \<Rightarrow> nat \<Rightarrow> bool) \<Rightarrow> bool" where
  "parses b s m Q \<longleftrightarrow> (case m s of Ok c t \<Rightarrow> s \<le> t \<and> t \<le> length b \<and> Q c t | Panic _ \<Rightarrow> True | _ \<Rightarrow> False)"

lemma parses_return [simp]: "parses b s (return c) Q \<longleftrightarrow> s \<le> length b \<and> Q c s"
  by (simp add: parses_def)

lemma parses_panic [simp]: "parses b s (panic msg) Q"
  by (simp add: parses_def panic_def)

lemma parses_bind:
  assumes "parses b s m Q" and "\<And>c t. s \<le> t \<Longrightarrow> t \<le> length b \<Longrightarrow> Q c t \<Longrightarrow> parses b t (f c) R"
  shows "parses b s (bind m f) R"
proof (cases "m s")
  case (Ok c t)
  then have t: "s \<le> t" "t \<le> length b" "Q c t" using assms(1) by (simp_all add: parses_def)
  then show ?thesis using assms(2) [OF t] Ok by (auto simp: parses_def split: res.splits)
qed (use assms(1) in \<open>simp_all add: parses_def\<close>)

lemma parses_mono: "parses b s m Q \<Longrightarrow> (\<And>c t. s \<le> t \<Longrightarrow> t \<le> length b \<Longrightarrow> Q c t \<Longrightarrow> R c t) \<Longrightarrow> parses b s m R"
  by (auto simp: parses_def split: res.splits)

text \<open>A token is found, and the parser moves on, wherever the rest of the line is not blank.\<close>

definition ready :: "uchar list \<Rightarrow> nat \<Rightarrow> bool" where
  "ready b s \<longleftrightarrow> skip whitespace b s < length b"

lemma symbols_list: "c \<in> set (chars ''|();&<'') \<Longrightarrow> c \<noteq> 0 \<and> c \<noteq> of_char CHR ''a''" "of_char CHR ''>'' \<noteq> (of_char CHR ''a'' :: uchar)"
  "of_char CHR ''+'' \<noteq> (of_char CHR ''a'' :: uchar)" "of_char CHR ''+'' \<noteq> (0 :: uchar)" "of_char CHR ''>'' \<noteq> (0 :: uchar)"
  "of_char CHR ''a'' \<noteq> (0 :: uchar)"
  by auto

lemma gettoken_parses:
  assumes "0 \<notin> set b" and "s \<le> length b"
  shows "parses b s (gettoken b) (\<lambda>(tok, a) t. (ready b s \<longrightarrow> s < t) \<and> (tok \<noteq> 0 \<longrightarrow> ready b s) \<and> (tok = of_char CHR ''a'' \<longrightarrow> span_ok b a))"
proof -
  define q where "q = skip whitespace b s"
  have q: "s \<le> q" "q \<le> length b" by (simp_all add: q_def skip_ge skip_le assms)
  have rd: "ready b s \<longleftrightarrow> q < length b" by (simp add: ready_def q_def)
  have nz: "char_at b q = 0 \<longleftrightarrow> \<not> q < length b" using assms(1) by (auto simp: char_at_def dest: nth_mem)
  have ws: "q < length b \<Longrightarrow> \<not> whitespace (b ! q)" using skip_stop [of whitespace b s] by (simp add: q_def)
  define e where "e = skip (\<lambda>c. \<not> whitespace c \<and> \<not> symbols c) b q"
  have e: "q \<le> e" "e \<le> length b" by (simp_all add: e_def skip_ge skip_le q)
  have span: "q < e \<and> span_ok b (q, e)" if "q < length b" "\<not> symbols (b ! q)"
    using skip_more [of q b "\<lambda>c. \<not> whitespace c \<and> \<not> symbols c"] skip_in [of q _ "\<lambda>c. \<not> whitespace c \<and> \<not> symbols c" b]
      skip_stop [of "\<lambda>c. \<not> whitespace c \<and> \<not> symbols c" b q] that ws e(2)
    unfolding span_ok_def word_char_def e_def [symmetric] by auto
  have gt: "char_at b (Suc q) = of_char CHR ''>'' \<Longrightarrow> Suc q < length b" by (auto simp: char_at_def split: if_splits)
  have step: "x \<le> skip whitespace b x" "x \<le> length b \<Longrightarrow> skip whitespace b x \<le> length b" for x by (simp_all add: skip_ge skip_le)
  show ?thesis
  proof (cases "q < length b")
    case False
    then have "char_at b q = 0" using nz by simp
    then show ?thesis using q step [of q] False
      by (simp add: parses_def gettoken_def Let_def q_def [symmetric] rd)
  next
    case True
    note defs = parses_def gettoken_def Let_def q_def [symmetric] e_def [symmetric] rd
    consider "char_at b q \<in> set (chars ''|();&<'')" | "char_at b q = of_char CHR ''>''" "char_at b (Suc q) = of_char CHR ''>''"
      | "char_at b q = of_char CHR ''>''" "char_at b (Suc q) \<noteq> of_char CHR ''>''"
      | "char_at b q \<notin> set (chars ''|();&<'')" "char_at b q \<noteq> of_char CHR ''>''" by blast
    then show ?thesis
    proof cases
      case 1
      then show ?thesis using True q step [of "Suc q"] symbols_list(1) [OF 1] by (simp add: defs del: set_map)
    next
      case 2
      then show ?thesis using gt q step [of "Suc (Suc q)"] by (simp add: defs True)
    next
      case 3
      then show ?thesis using True q step [of "Suc q"] by (simp add: defs)
    next
      case 4
      then have "\<not> symbols (b ! q)" using True by (auto simp: symbols_def char_at_def)
      then show ?thesis using 4 True q span step [of e] e nz by (simp add: defs)
    qed
  qed
qed

lemma peek_parses:
  assumes "s \<le> length b"
  shows "parses b s (peek b toks) (\<lambda>r t. r \<longrightarrow> ready b t)"
proof -
  have "char_at b (skip whitespace b s) \<noteq> 0 \<Longrightarrow> skip whitespace b s < length b" by (auto simp: char_at_def split: if_splits)
  then show ?thesis using assms by (auto simp: parses_def peek_def Let_def ready_def skip_ge skip_le)
qed

lemmas parse_steps = parses_bind [OF peek_parses] parses_bind [OF gettoken_parses]

lemma parseredirs_parses:
  assumes "0 \<notin> set b"
  shows "s \<le> length b \<Longrightarrow> length b - s < k \<Longrightarrow> cmd_ok b c \<Longrightarrow>
    parses b s (parseredirs k b c) (\<lambda>c' t. cmd_ok b c' \<and> (\<forall>n. argc_is n c \<longrightarrow> argc_is n c'))"
proof (induction k arbitrary: s c)
  case (Suc k)
  show ?case
    unfolding parseredirs.simps
  proof (rule parse_steps(1) [OF Suc.prems(1)])
    fix more t assume t: "s \<le> t" "t \<le> length b" "more \<longrightarrow> ready b t"
    show "parses b t (if \<not> more then return c else bind (gettoken b) (\<lambda>(tok, _). bind (gettoken b) (\<lambda>(t, file).
        if t \<noteq> of_char CHR ''a'' then panic ''missing file for redirection''
        else parseredirs k b (if tok = of_char CHR ''<'' then REDIR c file 0 0 else if tok = of_char CHR ''>'' then REDIR c file O_WRONLY_CREATE 1
            else if tok = of_char CHR ''+'' then REDIR c file O_WRONLY_CREATE 1 else c))))
      (\<lambda>c' t. cmd_ok b c' \<and> (\<forall>n. argc_is n c \<longrightarrow> argc_is n c'))"
    proof (cases more)
      case True
      then have r: "ready b t" using t by simp
      have step: "parses b u (parseredirs k b d) (\<lambda>c' t. cmd_ok b c' \<and> (\<forall>n. argc_is n c \<longrightarrow> argc_is n c'))"
        if "t < u" "u \<le> length b" "cmd_ok b d" "\<forall>n. argc_is n c \<longrightarrow> argc_is n d" for u d
      proof -
        have "length b - u < k" using that(1,2) t(1) Suc.prems(2) by linarith
        then show ?thesis using Suc.IH [OF that(2) _ that(3)] that(4) by (auto elim!: parses_mono)
      qed
      show ?thesis using True Suc.prems(3) r
        by (auto intro!: parse_steps(2) assms t step split: prod.split)
    qed (use t Suc.prems(3) in simp)
  qed
qed simp

lemma parseargs_parses:
  assumes "0 \<notin> set b"
  shows "s \<le> length b \<Longrightarrow> length b - s < k \<Longrightarrow> cmd_ok b c \<Longrightarrow> argc_is n c \<Longrightarrow> parses b s (parseargs k b n c) (\<lambda>c' t. cmd_ok b c')"
proof (induction k arbitrary: s c n)
  case (Suc k)
  have step: "parses b u (bind (parseredirs k b (add_arg a c)) (parseargs k b (Suc n))) (\<lambda>c' t. cmd_ok b c')"
    if "s < u" "u \<le> length b" "span_ok b a" "Suc n < MAXARGS" for u a
  proof (rule parses_bind)
    have k: "length b - u < k" using that Suc.prems(2) by linarith
    have a: "cmd_ok b (add_arg a c)" "argc_is (Suc n) (add_arg a c)" using add_arg_ok Suc.prems(3,4) that(3,4) by blast+
    show "parses b u (parseredirs k b (add_arg a c)) (\<lambda>c' t. cmd_ok b c' \<and> argc_is (Suc n) c')"
      by (rule parses_mono [OF parseredirs_parses [OF assms that(2) k a(1)]]) (use a(2) in blast)
    fix c' t assume "u \<le> t" "t \<le> length b" "cmd_ok b c' \<and> argc_is (Suc n) c'"
    then show "parses b t (parseargs k b (Suc n) c') (\<lambda>c' t. cmd_ok b c')" using k by (intro Suc.IH) auto
  qed
  show ?case
    unfolding parseargs.simps
  proof (rule parse_steps(1) [OF Suc.prems(1)])
    fix stop t assume t: "s \<le> t" "t \<le> length b"
    show "parses b t (if stop then return c else bind (gettoken b) (\<lambda>(tok, a). if tok = 0 then return c
        else if tok \<noteq> of_char CHR ''a'' then panic ''syntax'' else if MAXARGS \<le> Suc n then panic ''too many args''
        else bind (parseredirs k b (add_arg a c)) (parseargs k b (Suc n)))) (\<lambda>c' t. cmd_ok b c')"
    proof (cases stop)
      case False
      show ?thesis unfolding if_not_P [OF False]
        by (rule parse_steps(2) [OF assms t(2)]) (use t Suc.prems(3) in \<open>auto intro!: step\<close>)
    qed (use t Suc.prems(3) in simp)
  qed
qed simp

lemma parsebacks_parses:
  assumes "0 \<notin> set b"
  shows "s \<le> length b \<Longrightarrow> length b - s < k \<Longrightarrow> cmd_ok b c \<Longrightarrow> parses b s (parsebacks k b c) (\<lambda>c' t. cmd_ok b c')"
proof (induction k arbitrary: s c)
  case (Suc k)
  have step: "parses b u (parsebacks k b (BACK c)) (\<lambda>c' t. cmd_ok b c')" if "s < u" "u \<le> length b" for u
    using that Suc.prems by (intro Suc.IH) auto
  show ?case
    unfolding parsebacks.simps
  proof (rule parse_steps(1) [OF Suc.prems(1)])
    fix more t assume t: "s \<le> t" "t \<le> length b" "more \<longrightarrow> ready b t"
    show "parses b t (if \<not> more then return c else bind (gettoken b) (\<lambda>_. parsebacks k b (BACK c))) (\<lambda>c' t. cmd_ok b c')"
    proof (cases more)
      case True
      then have "parses b t (bind (gettoken b) (\<lambda>_. parsebacks k b (BACK c))) (\<lambda>c' t. cmd_ok b c')"
        by (intro parse_steps(2) [OF assms t(2)] step) (use t in auto)
      with True show ?thesis by simp
    qed (use t Suc.prems(3) in simp)
  qed
qed simp

text \<open>The end of \<open>parseline\<close> and of \<open>parsepipe\<close>: a separator, and a command to the right of it.\<close>

lemma tail_parses:
  assumes "0 \<notin> set b" "s \<le> length b" "cmd_ok b c" "\<And>r. cmd_ok b r \<Longrightarrow> cmd_ok b (f c r)"
    and p: "\<And>x. s < x \<Longrightarrow> x \<le> length b \<Longrightarrow> parses b x p (\<lambda>c t. cmd_ok b c)"
  shows "parses b s (bind (peek b toks) (\<lambda>more.
    if more then bind (gettoken b) (\<lambda>_. bind p (\<lambda>right. return (f c right))) else return c)) (\<lambda>c t. cmd_ok b c)"
proof (rule parse_steps(1) [OF assms(2)])
  fix more v assume v: "s \<le> v" "v \<le> length b" "more \<longrightarrow> ready b v"
  have r: "parses b x (bind p (\<lambda>right. return (f c right))) (\<lambda>c t. cmd_ok b c)" if "v < x" "x \<le> length b" for x
    by (rule parses_bind [OF p]) (use that v assms(4) in auto)
  show "parses b v (if more then bind (gettoken b) (\<lambda>_. bind p (\<lambda>right. return (f c right))) else return c) (\<lambda>c t. cmd_ok b c)"
    by (cases more) (use v assms(1,3) in \<open>auto intro!: parse_steps(2) r\<close>)
qed

lemma block_parses:
  assumes "0 \<notin> set b" "s \<le> length b" "length b - s \<le> k"
    and p: "\<And>x. s < x \<Longrightarrow> x \<le> length b \<Longrightarrow> parses b x (parseline k b) (\<lambda>c t. cmd_ok b c)"
  shows "parses b s (parseblock (Suc k) b) (\<lambda>c t. cmd_ok b c)"
proof -
  have close: "parses b x (bind (peek b '')'') (\<lambda>close. if \<not> close then panic ''syntax - missing )''
      else bind (gettoken b) (\<lambda>_. parseredirs k b c))) (\<lambda>c t. cmd_ok b c)" if x: "s < x" "x \<le> length b" "cmd_ok b c" for x c
  proof (rule parse_steps(1) [OF x(2)])
    fix close y assume y: "x \<le> y" "y \<le> length b" "close \<longrightarrow> ready b y"
    have r: "parses b z (parseredirs k b c) (\<lambda>c t. cmd_ok b c)" if "y \<le> z" "z \<le> length b" for z
      by (rule parses_mono [OF parseredirs_parses [OF assms(1) that(2) _ x(3)]]) (use that x y assms(3) in auto)
    show "parses b y (if \<not> close then panic ''syntax - missing )'' else bind (gettoken b) (\<lambda>_. parseredirs k b c)) (\<lambda>c t. cmd_ok b c)"
      by (cases close) (use y assms(1) in \<open>auto intro!: parse_steps(2) r\<close>)
  qed
  have inner: "parses b x (bind (parseline k b) (\<lambda>cmd. bind (peek b '')'') (\<lambda>close. if \<not> close then panic ''syntax - missing )''
      else bind (gettoken b) (\<lambda>_. parseredirs k b cmd)))) (\<lambda>c t. cmd_ok b c)" if "s < x" "x \<le> length b" for x
    by (rule parses_bind [OF p [OF that]], rule close) (use that in auto)
  show ?thesis
    unfolding parseblock.simps
  proof (rule parse_steps(1) [OF assms(2)])
    fix bracket y assume y: "s \<le> y" "y \<le> length b" "bracket \<longrightarrow> ready b y"
    show "parses b y (if \<not> bracket then panic ''parseblock'' else bind (gettoken b) (\<lambda>_. bind (parseline k b) (\<lambda>cmd.
        bind (peek b '')'') (\<lambda>close. if \<not> close then panic ''syntax - missing )''
        else bind (gettoken b) (\<lambda>_. parseredirs k b cmd))))) (\<lambda>c t. cmd_ok b c)"
      by (cases bracket) (use y in \<open>auto intro!: parse_steps(2) [OF assms(1)] inner\<close>)
  qed
qed

lemma exec_parses:
  assumes "0 \<notin> set b" "s \<le> length b" "length b - s < k"
    and p: "\<And>x. s \<le> x \<Longrightarrow> x \<le> length b \<Longrightarrow> parses b x (parseblock k b) (\<lambda>c t. cmd_ok b c)"
  shows "parses b s (parseexec (Suc k) b) (\<lambda>c t. cmd_ok b c)"
  unfolding parseexec.simps
proof (rule parse_steps(1) [OF assms(2)])
  fix block t assume t: "s \<le> t" "t \<le> length b"
  have "parses b t (bind (parseredirs k b (EXEC [])) (parseargs k b 0)) (\<lambda>c t. cmd_ok b c)"
    by (rule parses_bind [OF parseredirs_parses [OF assms(1) t(2)]]) (use assms t in \<open>auto intro!: parseargs_parses\<close>)
  then show "parses b t (if block then parseblock k b else bind (parseredirs k b (EXEC [])) (parseargs k b 0)) (\<lambda>c t. cmd_ok b c)"
    using p t by simp
qed

text \<open>
  How deep the calls may go: a round of \<open>parseline\<close>, \<open>parsepipe\<close>, \<open>parseexec\<close> and \<open>parseblock\<close>
  takes at least one byte of the line.
\<close>

lemma parse_parses:
  assumes "0 \<notin> set b"
  shows "s \<le> length b \<Longrightarrow> 4 * (length b - s) + 4 \<le> k \<Longrightarrow> parses b s (parseline k b) (\<lambda>c t. cmd_ok b c)"
    and "s \<le> length b \<Longrightarrow> 4 * (length b - s) + 3 \<le> k \<Longrightarrow> parses b s (parsepipe k b) (\<lambda>c t. cmd_ok b c)"
    and "s \<le> length b \<Longrightarrow> 4 * (length b - s) + 2 \<le> k \<Longrightarrow> parses b s (parseexec k b) (\<lambda>c t. cmd_ok b c)"
    and "s \<le> length b \<Longrightarrow> 4 * (length b - s) + 1 \<le> k \<Longrightarrow> parses b s (parseblock k b) (\<lambda>c t. cmd_ok b c)"
proof (induction k arbitrary: s)
  case (Suc k)
  {
    case 1
    have tail: "parses b t (bind (parsebacks k b c) (\<lambda>cmd. bind (peek b '';'') (\<lambda>more.
        if more then bind (gettoken b) (\<lambda>_. bind (parseline k b) (\<lambda>right. return (LIST cmd right))) else return cmd))) (\<lambda>c t. cmd_ok b c)"
      if "s \<le> t" "t \<le> length b" "cmd_ok b c" for t c
    proof (rule parses_bind [OF parsebacks_parses [OF assms that(2)]])
      show "length b - t < k" using 1 that by linarith
    qed (use that 1 in \<open>auto intro!: tail_parses [OF assms] Suc.IH(1)\<close>)
    show ?case unfolding parseline.simps
      by (rule parses_bind [OF Suc.IH(2) [OF 1(1)]]) (use 1 tail in auto)
  next
    case 2
    then show ?case unfolding parsepipe.simps
      by (intro parses_bind [OF Suc.IH(3) [OF 2(1)]] tail_parses [OF assms] Suc.IH(2)) auto
  next
    case 3
    then show ?case by (intro exec_parses [OF assms] Suc.IH(4)) auto
  next
    case 4
    then show ?case by (intro block_parses [OF assms] Suc.IH(1)) auto
  }
qed simp_all

section \<open>Terminating the strings\<close>

text \<open>The line after some bytes that are in no string were set to zero.\<close>

definition cut :: "uchar list \<Rightarrow> uchar list \<Rightarrow> bool" where
  "cut b b' \<longleftrightarrow> length b' = length b \<and> (\<forall>i<length b. b' ! i = b ! i \<or> b' ! i = 0 \<and> \<not> word_char (b ! i))"

lemma cut_refl: "cut b b"
  by (simp add: cut_def)

lemma cut_update:
  assumes "cut b b'" "span_ok b a"
  shows "cut b (b'[snd a := 0])"
  unfolding cut_def
proof (intro conjI allI impI)
  fix i assume i: "i < length b"
  show "b'[snd a := 0] ! i = b ! i \<or> b'[snd a := 0] ! i = 0 \<and> \<not> word_char (b ! i)"
    using assms i by (cases "i = snd a") (auto simp: cut_def span_ok_def)
qed (use assms in \<open>simp add: cut_def\<close>)

lemma cut_fold: "cut b b' \<Longrightarrow> \<forall>a\<in>set as. span_ok b a \<Longrightarrow> cut b (fold (\<lambda>(q, eq) b. b[eq := 0]) as b')"
  by (induction as arbitrary: b') (auto dest: cut_update)

lemma cut_nulterminate: "cut b b' \<Longrightarrow> cmd_ok b c \<Longrightarrow> cut b (nulterminate c b')"
  by (induction c arbitrary: b') (auto simp: cut_update cut_fold)

lemma fold_zero: "b ! i = 0 \<or> i \<in> snd ` set as \<Longrightarrow> i < length b \<Longrightarrow> fold (\<lambda>(q, eq) b. b[eq := 0]) as b ! i = 0"
proof (induction as arbitrary: b)
  case (Cons a as)
  then show ?case using Cons.IH [of "b[snd a := 0]"] by (cases "i = snd a") (auto simp: case_prod_beta)
qed simp

lemma nulterminate_length [simp]: "length (nulterminate c b) = length b"
proof -
  have "length (fold (\<lambda>(q, eq) b. b[eq := 0]) as b) = length b" for as :: "span list" and b :: "uchar list"
    by (induction as arbitrary: b) auto
  then show ?thesis by (induction c arbitrary: b) auto
qed

lemma nulterminate_zero: "b ! i = 0 \<or> i \<in> snd ` set_cmd c \<Longrightarrow> i < length b \<Longrightarrow> nulterminate c b ! i = 0"
proof (induction c arbitrary: b)
  case (EXEC as)
  then show ?case by (auto intro: fold_zero)
next
  case (REDIR c f m fd)
  then show ?case by (cases "i = snd f") auto
next
  case (PIPE l r)
  from PIPE.prems have "nulterminate l b ! i = 0 \<or> i \<in> snd ` set_cmd r" using PIPE.IH(1) [of b] by (simp add: image_Un) blast
  then show ?case using PIPE.IH(2) [of "nulterminate l b"] PIPE.prems(2) by simp
next
  case (LIST l r)
  from LIST.prems have "nulterminate l b ! i = 0 \<or> i \<in> snd ` set_cmd r" using LIST.IH(1) [of b] by (simp add: image_Un) blast
  then show ?case using LIST.IH(2) [of "nulterminate l b"] LIST.prems(2) by simp
qed simp

lemma span_in: "cmd_ok b c \<Longrightarrow> a \<in> set_cmd c \<Longrightarrow> span_ok b a"
  by (induction c) auto

lemma string_terminated:
  assumes "0 \<notin> set b" "cmd_ok b c" "(q, e) \<in> set_cmd c"
  shows "string_at (nulterminate c b) q = take (e - q) (drop q b)"
proof -
  let ?n = "nulterminate c b"
  have sp: "q < e" "e \<le> length b" "\<And>i. q \<le> i \<Longrightarrow> i < e \<Longrightarrow> word_char (b ! i)"
    using span_in [OF assms(2,3)] by (auto simp: span_ok_def)
  have same: "?n ! i = b ! i" if "q \<le> i" "i < e" for i
    using cut_nulterminate [OF cut_refl assms(2)] sp(2) sp(3) [OF that] that unfolding cut_def by (meson less_le_trans)
  have t: "take (e - q) (drop q ?n) = take (e - q) (drop q b)"
    by (rule nth_equalityI) (use sp same in auto)
  have nz: "0 \<notin> set (take (e - q) (drop q b))" using assms(1) by (meson in_set_dropD in_set_takeD)
  have z: "drop e ?n = [] \<or> hd (drop e ?n) = 0"
    using nulterminate_zero [of b e c] assms(3) sp(2) by (cases "e < length b") (force simp: hd_drop_conv_nth)+
  have "drop q ?n = take (e - q) (drop q b) @ drop e ?n"
    using append_take_drop_id [of "e - q" "drop q ?n"] sp(1) by (simp add: t)
  moreover have "takeWhile (\<lambda>c. c \<noteq> 0) (xs @ ys) = xs" if "0 \<notin> set xs" "ys = [] \<or> hd ys = 0" for xs ys :: "uchar list"
    using that by (induction xs) (cases ys, auto)+
  ultimately show ?thesis unfolding string_at_def using nz z by simp
qed

text \<open>
  C35: The recursive parser of the shell ends on every line: with four levels of calls for each byte
  and four more it returns a command or stops with one of its messages, and never runs out.
  The pointers of the command lie in the line, no argument array overflows, and after
  \<open>nulterminate\<close> each argument and file name is exactly the word of the line it was parsed from,
  although words are ended by overwriting the bytes between them.
\<close>

theorem sh_parser_total:
  assumes "0 \<notin> set b"
  shows "(\<exists>msg. parseline (4 * length b + 4) b 0 = Panic msg) \<or>
    (\<exists>c s. parseline (4 * length b + 4) b 0 = Ok c s \<and> s \<le> length b \<and> cmd_ok b c \<and>
      (\<forall>(q, e)\<in>set_cmd c. string_at (nulterminate c b) q = take (e - q) (drop q b)))"
proof -
  have "parses b 0 (parseline (4 * length b + 4) b) (\<lambda>c t. cmd_ok b c)" by (rule parse_parses(1) [OF assms]) simp_all
  then consider msg where "parseline (4 * length b + 4) b 0 = Panic msg"
    | c s where "parseline (4 * length b + 4) b 0 = Ok c s" "s \<le> length b" "cmd_ok b c"
    by (auto simp: parses_def split: res.splits)
  then show ?thesis using string_terminated [OF assms] by cases fastforce+
qed

text \<open>The line \<open>ls a>f\<close>.\<close>

theorem sh_parser_total_witness:
  "\<exists>c s. parseline 28 (chars ''ls a>f'') 0 = Ok c s \<and> cmd_ok (chars ''ls a>f'') c \<and>
     map_cmd (\<lambda>(q, e). string_at (nulterminate c (chars ''ls a>f'')) q) c = REDIR (EXEC [chars ''ls'', chars ''a'']) (chars ''f'') 0x201 1"
proof -
  have r: "parseline 28 (chars ''ls a>f'') 0 = Ok (REDIR (EXEC [(0, 2), (3, 4)]) (5, 6) 0x201 1) 6" by code_simp
  show ?thesis using sh_parser_total [of "chars ''ls a>f''"] r [simplified] by (simp add: string_at_def)
qed

section \<open>The language of the shell\<close>

text \<open>
  The grammar, apart from the parser: a line is pipelines with any number of ampersands, separated
  by semicolons; a pipeline is commands separated by bars; a command is words and redirections, or a
  line in parentheses with redirections behind it.
\<close>

type_synonym token = "uchar list"

datatype redirection = From token | Into token | Append token

datatype sline = Last pipeline nat | Seq pipeline nat sline
  and pipeline = One scmd | Piped scmd pipeline
  and scmd = Simple "redirection list" "(token \<times> redirection list) list" | Block sline "redirection list"

fun redir_toks :: "redirection \<Rightarrow> token list" where
  "redir_toks (From w) = [chars ''<'', w]"
| "redir_toks (Into w) = [chars ''>'', w]"
| "redir_toks (Append w) = [chars ''>>'', w]"

definition redirs_toks :: "redirection list \<Rightarrow> token list" where
  "redirs_toks rs = concat (map redir_toks rs)"

definition args_toks :: "(token \<times> redirection list) list \<Rightarrow> token list" where
  "args_toks as = concat (map (\<lambda>(w, rs). w # redirs_toks rs) as)"

primrec line_toks :: "sline \<Rightarrow> token list" and pipe_toks :: "pipeline \<Rightarrow> token list" and cmd_toks :: "scmd \<Rightarrow> token list" where
  "line_toks (Last p n) = pipe_toks p @ replicate n (chars ''&'')"
| "line_toks (Seq p n l) = pipe_toks p @ replicate n (chars ''&'') @ [chars '';''] @ line_toks l"
| "pipe_toks (One c) = cmd_toks c"
| "pipe_toks (Piped c p) = cmd_toks c @ [chars ''|''] @ pipe_toks p"
| "cmd_toks (Simple rs as) = redirs_toks rs @ args_toks as"
| "cmd_toks (Block l rs) = [chars ''(''] @ line_toks l @ [chars '')''] @ redirs_toks rs"

text \<open>The command a piece of the grammar stands for.\<close>

fun redirect :: "redirection \<Rightarrow> token cmd \<Rightarrow> token cmd" where
  "redirect (From w) c = REDIR c w 0 0"
| "redirect (Into w) c = REDIR c w 0x201 1"
| "redirect (Append w) c = REDIR c w 0x201 1"

definition add_args :: "(token \<times> redirection list) list \<Rightarrow> token cmd \<Rightarrow> token cmd" where
  "add_args as = fold (\<lambda>(w, rs) c. fold redirect rs (add_arg w c)) as"

primrec line_cmd :: "sline \<Rightarrow> token cmd" and pipe_cmd :: "pipeline \<Rightarrow> token cmd" and simple_cmd :: "scmd \<Rightarrow> token cmd" where
  "line_cmd (Last p n) = (BACK ^^ n) (pipe_cmd p)"
| "line_cmd (Seq p n l) = LIST ((BACK ^^ n) (pipe_cmd p)) (line_cmd l)"
| "pipe_cmd (One c) = simple_cmd c"
| "pipe_cmd (Piped c p) = PIPE (simple_cmd c) (pipe_cmd p)"
| "simple_cmd (Simple rs as) = add_args as (fold redirect rs (EXEC []))"
| "simple_cmd (Block l rs) = fold redirect rs (line_cmd l)"

definition word :: "token \<Rightarrow> bool" where
  "word w \<longleftrightarrow> w \<noteq> [] \<and> (\<forall>c\<in>set w. word_char c \<and> c \<noteq> 0)"

fun redir_word :: "redirection \<Rightarrow> token" where
  "redir_word (From w) = w" | "redir_word (Into w) = w" | "redir_word (Append w) = w"

definition redirs_ok :: "redirection list \<Rightarrow> bool" where
  "redirs_ok rs \<longleftrightarrow> (\<forall>r\<in>set rs. word (redir_word r))"

primrec line_ok :: "sline \<Rightarrow> bool" and pipe_ok :: "pipeline \<Rightarrow> bool" and scmd_ok :: "scmd \<Rightarrow> bool" where
  "line_ok (Last p n) \<longleftrightarrow> pipe_ok p"
| "line_ok (Seq p n l) \<longleftrightarrow> pipe_ok p \<and> line_ok l"
| "pipe_ok (One c) \<longleftrightarrow> scmd_ok c"
| "pipe_ok (Piped c p) \<longleftrightarrow> scmd_ok c \<and> pipe_ok p"
| "scmd_ok (Simple rs as) \<longleftrightarrow> redirs_ok rs \<and> (\<forall>(w, rs)\<in>set as. word w \<and> redirs_ok rs) \<and> length as < MAXARGS"
| "scmd_ok (Block l rs) \<longleftrightarrow> line_ok l \<and> redirs_ok rs"

text \<open>
  A line that shows some tokens, each with the blanks behind it. Two tokens may stand together
  unless they would be read as one.
\<close>

fun lay :: "(token \<times> uchar list) list \<Rightarrow> uchar list" where
  "lay [] = []"
| "lay ((t, g) # ps) = t @ g @ lay ps"

definition token_text :: "token \<Rightarrow> bool" where
  "token_text t \<longleftrightarrow> word t \<or> t \<in> set (map chars [''|'', ''('', '')'', '';'', ''&'', ''<'', ''>'', ''>>''])"

definition glues :: "token \<Rightarrow> token \<Rightarrow> bool" where
  "glues t u \<longleftrightarrow> word t \<and> word u \<or> t = chars ''>'' \<and> hd u = of_char CHR ''>''"

fun spaced :: "(token \<times> uchar list) list \<Rightarrow> bool" where
  "spaced [] \<longleftrightarrow> True"
| "spaced ((t, g) # ps) \<longleftrightarrow> token_text t \<and> (\<forall>c\<in>set g. whitespace c) \<and> (g = [] \<and> ps \<noteq> [] \<longrightarrow> \<not> glues t (fst (hd ps))) \<and> spaced ps"

text \<open>The parser stands before the tokens \<open>ps\<close>, or before blanks in front of them.\<close>

definition before :: "uchar list \<Rightarrow> nat \<Rightarrow> (token \<times> uchar list) list \<Rightarrow> bool" where
  "before b s ps \<longleftrightarrow> s \<le> length b \<and> drop (skip whitespace b s) b = lay ps \<and> spaced ps"

lemma skip_eq:
  "s \<le> length b \<Longrightarrow> drop s b = x @ y \<Longrightarrow> \<forall>c\<in>set x. P c \<Longrightarrow> y = [] \<or> \<not> P (hd y) \<Longrightarrow> skip P b s = s + length x"
proof (induction x arbitrary: s)
  case Nil
  then have "\<not> (s < length b \<and> P (b ! s))" by (cases "s < length b") (auto simp: hd_drop_conv_nth [symmetric])
  then show ?case by (subst skip.simps) auto
next
  case (Cons c x)
  then have s: "s < length b" "b ! s = c" "drop (Suc s) b = x @ y"
    by (cases "s < length b"; simp add: Cons_nth_drop_Suc [symmetric])+
  then have "skip P b (Suc s) = Suc s + length x" using Cons.prems by (intro Cons.IH) auto
  then show ?case using s Cons.prems by (subst skip.simps) simp
qed

lemma char_at_drop: "char_at b s = (case drop s b of [] \<Rightarrow> 0 | c # _ \<Rightarrow> c)"
  by (cases "s < length b") (simp_all add: char_at_def Cons_nth_drop_Suc [symmetric])

lemma token_head:
  assumes "token_text t"
  shows "t \<noteq> []" "\<not> whitespace (hd t)" "hd t \<noteq> 0" "\<not> word t \<Longrightarrow> symbols (hd t)" "word t \<Longrightarrow> \<not> symbols (hd t)"
  using assms by (cases t; force simp: token_text_def word_def word_char_def whitespace_def symbols_def)+

lemma lay_head: "spaced ps \<Longrightarrow> lay ps = [] \<or> \<not> whitespace (hd (lay ps))"
  by (cases ps rule: lay.cases) (auto simp: token_head hd_append)

lemma lay_Nil: "spaced ps \<Longrightarrow> lay ps = [] \<longleftrightarrow> ps = []"
  by (cases ps rule: lay.cases) (auto simp: token_head)

text \<open>What follows a token ends it.\<close>

lemma gap_stops:
  assumes "spaced ((t, g) # ps)"
  shows "word t \<Longrightarrow> g @ lay ps = [] \<or> whitespace (hd (g @ lay ps)) \<or> symbols (hd (g @ lay ps))"
    and "t = chars ''>'' \<Longrightarrow> g @ lay ps = [] \<or> hd (g @ lay ps) \<noteq> of_char CHR ''>''"
proof -
  show "g @ lay ps = [] \<or> whitespace (hd (g @ lay ps)) \<or> symbols (hd (g @ lay ps))" if "word t"
  proof (cases g)
    case Nil
    then show ?thesis using assms that by (cases ps rule: lay.cases) (auto simp: glues_def token_head)
  qed (use assms in simp)
  show "g @ lay ps = [] \<or> hd (g @ lay ps) \<noteq> of_char CHR ''>''" if "t = chars ''>''"
  proof (cases g)
    case Nil
    then show ?thesis using assms that by (cases ps rule: lay.cases) (auto simp: glues_def token_head)
  next
    case (Cons c g')
    then show ?thesis using assms by (auto simp: whitespace_def)
  qed
qed

definition token_code :: "token \<Rightarrow> uchar" where
  "token_code t = (if word t then of_char CHR ''a'' else if t = chars ''>>'' then of_char CHR ''+'' else hd t)"

lemma before_step:
  assumes "drop q b = t @ g @ lay ps" "q \<le> length b" "\<forall>c\<in>set g. whitespace c" "spaced ps"
  shows "before b (skip whitespace b (q + length t)) ps"
proof -
  have d: "drop (q + length t) b = g @ lay ps" using arg_cong [OF assms(1), of "drop (length t)"] by (simp add: add.commute)
  have l: "q + length t + length g \<le> length b" using arg_cong [OF assms(1), of length] assms(2) by simp
  have "skip whitespace b (q + length t) = q + length t + length g"
    by (rule skip_eq [OF _ d]) (use l assms lay_head in auto)
  moreover have "drop (q + length t + length g) b = lay ps"
    using arg_cong [OF d, of "drop (length g)"] by (simp add: add.commute add.left_commute)
  ultimately show ?thesis using l assms(4) by (metis before_def skip_skip)
qed

lemma gettoken_lay:
  assumes "before b s ((t, g) # ps)"
  defines "q \<equiv> skip whitespace b s"
  shows "gettoken b s = Ok (token_code t, q, q + length t) (skip whitespace b (q + length t)) \<and>
    before b (skip whitespace b (q + length t)) ps \<and> take (length t) (drop q b) = t"
proof -
  have d: "drop q b = t @ g @ lay ps" and sp: "spaced ((t, g) # ps)" and s: "s \<le> length b"
    using assms by (auto simp: before_def)
  then have t: "token_text t" and q: "q \<le> length b" by (simp_all add: q_def skip_le)
  have c: "char_at b q = hd t" using token_head(1) [OF t] by (cases t) (simp_all add: char_at_drop d)
  have n: "char_at b (Suc q) = (case tl (t @ g @ lay ps) of [] \<Rightarrow> 0 | c # _ \<Rightarrow> c)"
    by (simp add: char_at_drop drop_Suc tl_drop [symmetric] d)
  have bf: "before b (skip whitespace b (q + length t)) ps" using before_step [OF d q] sp by simp
  have g: "gettoken b s = Ok (token_code t, q, q + length t) (skip whitespace b (q + length t))"
  proof (cases "word t")
    case True
    have "skip (\<lambda>c. \<not> whitespace c \<and> \<not> symbols c) b q = q + length t"
      by (rule skip_eq [OF q d]) (use True gap_stops(1) [OF sp] in \<open>auto simp: word_def word_char_def\<close>)
    moreover have "hd t \<notin> set (chars ''|();&<'')" "hd t \<noteq> of_char CHR ''>''"
      using token_head(5) [OF t True] by (auto simp: symbols_def)
    ultimately show ?thesis using token_head(3) [OF t] True
      by (simp add: gettoken_def Let_def q_def [symmetric] c token_code_def)
  next
    case False
    then have "t \<in> set (map chars [''|'', ''('', '')'', '';'', ''&'', ''<'', ''>'', ''>>''])" using t by (simp add: token_text_def)
    then show ?thesis using False gap_stops(2) [OF sp]
      by (auto simp: gettoken_def Let_def q_def [symmetric] c n token_code_def split: list.split)
  qed
  show ?thesis using g bf by (simp add: d)
qed

lemma peek_lay:
  assumes "before b s ps"
  shows "peek b toks s = Ok (ps \<noteq> [] \<and> hd (fst (hd ps)) \<in> set (chars toks)) (skip whitespace b s) \<and> before b (skip whitespace b s) ps"
proof -
  have s: "spaced ps" "s \<le> length b" "drop (skip whitespace b s) b = lay ps" using assms by (simp_all add: before_def)
  have "char_at b (skip whitespace b s) = (if ps = [] then 0 else hd (fst (hd ps)))"
  proof (cases ps rule: lay.cases)
    case (2 t g ps')
    then show ?thesis using s(1) token_head(1) [of t] by (cases t) (simp_all add: char_at_drop s(3))
  qed (simp add: char_at_drop s(3))
  moreover have "hd (fst (hd ps)) \<noteq> 0" if "ps \<noteq> []" using s(1) that by (cases ps rule: lay.cases) (auto simp: token_head)
  ultimately show ?thesis using s by (auto simp: peek_def Let_def before_def skip_le)
qed

section \<open>Parsing what the grammar describes\<close>

definition view :: "uchar list \<Rightarrow> span cmd \<Rightarrow> token cmd" where
  "view b = map_cmd (\<lambda>(q, e). take (e - q) (drop q b))"

definition next_in :: "(token \<times> uchar list) list \<Rightarrow> string \<Rightarrow> bool" where
  "next_in ps toks \<longleftrightarrow> ps \<noteq> [] \<and> hd (fst (hd ps)) \<in> set (chars toks)"

definition yields :: "uchar list \<Rightarrow> (nat, span cmd) op \<Rightarrow> nat \<Rightarrow> token cmd \<Rightarrow> (token \<times> uchar list) list \<Rightarrow> bool" where
  "yields b m s d r \<longleftrightarrow> (\<exists>c t. m s = Ok c t \<and> before b t r \<and> view b c = d)"

lemma yields_return: "before b s r \<Longrightarrow> view b c = d \<Longrightarrow> yields b (return c) s d r"
  by (simp add: yields_def)

lemma yields_bind:
  "yields b m s d r \<Longrightarrow> (\<And>c u. before b u r \<Longrightarrow> view b c = d \<Longrightarrow> yields b (f c) u d' r') \<Longrightarrow> yields b (bind m f) s d' r'"
  by (force simp: yields_def)

lemma yields_peek:
  assumes "before b s ps" and "\<And>u. before b u ps \<Longrightarrow> yields b (f (next_in ps toks)) u d r"
  shows "yields b (bind (peek b toks) f) s d r"
  using peek_lay [OF assms(1), of toks] assms(2) by (auto simp: yields_def next_in_def)

lemma yields_token:
  assumes "before b s ((t, g) # ps)"
    and "\<And>u q. before b u ps \<Longrightarrow> take (length t) (drop q b) = t \<Longrightarrow> yields b (f (token_code t, q, q + length t)) u d r"
  shows "yields b (bind (gettoken b) f) s d r"
  using gettoken_lay [OF assms(1)] assms(2) by (auto simp: yields_def)

lemma gettoken_end:
  assumes "before b s []"
  shows "\<exists>a u. gettoken b s = Ok (0, a) u \<and> before b u []"
proof -
  have "skip whitespace b s = length b" using assms skip_le [of s b whitespace] by (simp add: before_def)
  then show ?thesis using assms by (simp add: gettoken_def Let_def char_at_def before_def) (metis skip_skip order_refl)
qed

lemma view_add_arg: "view b (add_arg (q, e) c) = add_arg (take (e - q) (drop q b)) (view b c)"
  by (induction "(q, e)" c rule: add_arg.induct) (simp_all add: view_def)

lemma word_next: "word w \<Longrightarrow> next_in ((w, g) # ps) toks \<Longrightarrow> \<exists>c\<in>set toks. word_char (of_char c)"
  by (cases w) (auto simp: next_in_def word_def)

lemma word_char_symbol [simp]: "c \<in> set ''<|>&;()'' \<Longrightarrow> \<not> word_char (of_char c)"
  by (auto simp: word_char_def symbols_def)

lemma word_not_next:
  assumes "word w" "set toks \<subseteq> set ''<|>&;()''"
  shows "\<not> next_in ((w, g) # ps) toks"
  using word_next [OF assms(1)] word_char_symbol assms(2) by blast

lemma word_code [simp]: "word w \<Longrightarrow> token_code w = of_char CHR ''a''"
  by (simp add: token_code_def)

lemma symbol_code [simp]:
  "token_code [60] = 60" "token_code [62] = 62" "token_code [62, 62] = 43" "token_code [124] = 124"
  "token_code [38] = 38" "token_code [59] = 59" "token_code [40] = 40" "token_code [41] = 41"
  by (simp_all add: token_code_def word_def word_char_def symbols_def)

lemma redirs_simps [simp]: "redirs_toks [] = []" "redirs_toks (x # rs) = redir_toks x @ redirs_toks rs"
  "redirs_ok (x # rs) \<longleftrightarrow> word (redir_word x) \<and> redirs_ok rs"
  by (auto simp: redirs_toks_def redirs_ok_def)

lemma args_simps [simp]: "args_toks [] = []" "args_toks ((w, rs) # as) = w # redirs_toks rs @ args_toks as"
  "add_args [] d = d" "add_args ((w, rs) # as) d = add_args as (fold redirect rs (add_arg w d))"
  by (simp_all add: args_toks_def add_args_def)

lemma redir_step:
  assumes "before b s ((t, g) # (w, h) # ps)" "t = hd (redir_toks x)" "word w" "w = redir_word x" "view b c = d"
    and "\<And>u c. before b u ps \<Longrightarrow> view b c = redirect x d \<Longrightarrow> yields b (parseredirs k b c) u d' r"
  shows "yields b (parseredirs (Suc k) b c) s d' r"
  unfolding parseredirs.simps
proof (rule yields_peek [OF assms(1)])
  fix u assume u: "before b u ((t, g) # (w, h) # ps)"
  have n: "next_in ((t, g) # (w, h) # ps) ''<>''" using assms(2) by (cases x) (auto simp: next_in_def)
  have v: "view b (REDIR c (q, q + length w) m fd) = REDIR d (take (length w) (drop q b)) m fd" for q m fd
    using assms(5) by (simp add: view_def)
  show "yields b (if \<not> next_in ((t, g) # (w, h) # ps) ''<>'' then return c else bind (gettoken b) (\<lambda>(tok, _). bind (gettoken b) (\<lambda>(t, file).
      if t \<noteq> of_char CHR ''a'' then panic ''missing file for redirection''
      else parseredirs k b (if tok = of_char CHR ''<'' then REDIR c file 0 0 else if tok = of_char CHR ''>'' then REDIR c file O_WRONLY_CREATE 1
            else if tok = of_char CHR ''+'' then REDIR c file O_WRONLY_CREATE 1 else c)))) u d' r"
    using n assms(2-4)
    by (cases x) (auto intro!: yields_token [OF u] assms(6) elim!: yields_token simp: v)
qed

lemma redir_shape: "\<exists>t. redir_toks x = [t, redir_word x] \<and> t = hd (redir_toks x)"
  by (cases x) simp_all

lemma parseredirs_lay:
  "before b s (ps @ r) \<Longrightarrow> map fst ps = redirs_toks rs \<Longrightarrow> redirs_ok rs \<Longrightarrow> \<not> next_in r ''<>'' \<Longrightarrow> length ps < k \<Longrightarrow>
    view b c = d \<Longrightarrow> yields b (parseredirs k b c) s (fold redirect rs d) r"
proof (induction rs arbitrary: ps s c d k)
  case Nil
  then obtain k' where "k = Suc k'" by (cases k) auto
  then show ?case using Nil by (simp add: yields_peek yields_return)
next
  case (Cons x rs)
  obtain t where t: "redir_toks x = [t, redir_word x]" "t = hd (redir_toks x)" using redir_shape by blast
  have "map fst ps = t # redir_word x # redirs_toks rs" using Cons.prems(2) t(1) by simp
  then obtain g h ps' where ps: "ps = (t, g) # (redir_word x, h) # ps'" "map fst ps' = redirs_toks rs"
    unfolding map_eq_Cons_conv by auto
  obtain k' where k: "k = Suc k'" "length ps' < k'" using Cons.prems(5) ps by (cases k) auto
  have b: "before b s ((t, g) # (redir_word x, h) # ps' @ r)" using Cons.prems(1) ps(1) by simp
  have rs: "word (redir_word x)" "redirs_ok rs" using Cons.prems(3) by simp_all
  show ?case unfolding k(1) fold_Cons comp_apply
    by (rule redir_step [OF b t(2) rs(1) refl Cons.prems(6)]) (rule Cons.IH [OF _ ps(2) rs(2) Cons.prems(4) k(2)])
qed

lemma args_next:
  assumes "map fst ps = args_toks as" "\<forall>(w, rs)\<in>set as. word w \<and> redirs_ok rs" "\<not> next_in r ''<>''"
  shows "\<not> next_in (ps @ r) ''<>''"
proof (cases as)
  case (Cons a as')
  then obtain w rs g ps' where "ps = (w, g) # ps'" "word w" using assms(1,2) by (cases a) (auto simp: map_eq_Cons_conv)
  then show ?thesis using word_not_next [of w "''<>''"] by simp
qed (use assms in simp)

lemma parseargs_lay:
  "before b s (ps @ r) \<Longrightarrow> map fst ps = args_toks as \<Longrightarrow> \<forall>(w, rs)\<in>set as. word w \<and> redirs_ok rs \<Longrightarrow>
    r = [] \<or> next_in r ''|)&;'' \<Longrightarrow> n + length as < MAXARGS \<Longrightarrow> length ps < k \<Longrightarrow>
    view b c = d \<Longrightarrow> yields b (parseargs k b n c) s (add_args as d) r"
proof (induction as arbitrary: ps s c d k n)
  case Nil
  then obtain k' where k: "k = Suc k'" by (cases k) auto
  have b: "before b s r" using Nil by simp
  show ?case
    unfolding k parseargs.simps
  proof (rule yields_peek [OF b])
    fix u assume u: "before b u r"
    show "yields b (if next_in r ''|)&;'' then return c else bind (gettoken b) (\<lambda>(tok, a). if tok = 0 then return c
        else if tok \<noteq> of_char CHR ''a'' then panic ''syntax'' else if MAXARGS \<le> Suc n then panic ''too many args''
        else bind (parseredirs k' b (add_arg a c)) (parseargs k' b (Suc n)))) u (add_args [] d) r"
    proof (cases "next_in r ''|)&;''")
      case False
      then have "r = []" using Nil by simp
      then show ?thesis using gettoken_end [of b u] u False Nil.prems(7) by (auto simp: yields_def)
    qed (use u Nil.prems(7) in \<open>simp add: yields_return\<close>)
  qed
next
  case (Cons a as)
  obtain w rs where a: "a = (w, rs)" by (cases a)
  then obtain g ps1 ps2 where ps: "ps = (w, g) # ps1 @ ps2" "map fst ps1 = redirs_toks rs" "map fst ps2 = args_toks as"
    using Cons.prems(2) by (auto simp: map_eq_Cons_conv map_eq_append_conv)
  obtain k' where k: "k = Suc k'" "length ps1 < k'" "length ps2 < k'" using Cons.prems(6) ps by (cases k) auto
  have w: "word w" "redirs_ok rs" "\<not> next_in ((w, g) # x) ''|)&;''" for x
    using Cons.prems(3) a word_not_next [of w "''|)&;''" g x] by auto
  have r: "\<not> next_in r ''<>''" using Cons.prems(4) by (auto simp: next_in_def)
  have b: "before b s ((w, g) # ps1 @ ps2 @ r)" using Cons.prems(1) ps by simp
  have step: "yields b (bind (parseredirs k' b (add_arg (q, q + length w) c)) (parseargs k' b (Suc n))) v (add_args (a # as) d) r"
    if "before b v (ps1 @ ps2 @ r)" "take (length w) (drop q b) = w" for v q
  proof (rule yields_bind)
    have as: "\<forall>(w, rs)\<in>set as. word w \<and> redirs_ok rs" using Cons.prems(3) by simp
    show "yields b (parseredirs k' b (add_arg (q, q + length w) c)) v (fold redirect rs (add_arg w d)) (ps2 @ r)"
      by (rule parseredirs_lay [OF that(1) ps(2) w(2) args_next [OF ps(3) as r] k(2)]) (simp add: view_add_arg that(2) Cons.prems(7))
    have n: "Suc n + length as < MAXARGS" using Cons.prems(5) by simp
    fix c' u assume "before b u (ps2 @ r)" "view b c' = fold redirect rs (add_arg w d)"
    then show "yields b (parseargs k' b (Suc n) c') u (add_args (a # as) d) r"
      unfolding a args_simps by (rule Cons.IH [OF _ ps(3) as Cons.prems(4) n k(3)])
  qed
  show ?case
    unfolding k(1) parseargs.simps
  proof (rule yields_peek [OF b], unfold if_not_P [OF w(3)], rule yields_token, assumption)
    fix u q assume "before b u (ps1 @ ps2 @ r)" "take (length w) (drop q b) = w"
    from step [OF this] show "yields b (case (token_code w, q, q + length w) of (tok, a) \<Rightarrow> if tok = 0 then return c
        else if tok \<noteq> of_char CHR ''a'' then panic ''syntax'' else if MAXARGS \<le> Suc n then panic ''too many args''
        else bind (parseredirs k' b (add_arg a c)) (parseargs k' b (Suc n))) u (add_args (a # as) d) r"
      using w(1) Cons.prems(5) by simp
  qed
qed

lemma parsebacks_lay:
  "before b s (ps @ r) \<Longrightarrow> map fst ps = replicate n (chars ''&'') \<Longrightarrow> \<not> next_in r ''&'' \<Longrightarrow> length ps < k \<Longrightarrow>
    view b c = d \<Longrightarrow> yields b (parsebacks k b c) s ((BACK ^^ n) d) r"
proof (induction n arbitrary: ps s c d k)
  case 0
  then obtain k' where "k = Suc k'" by (cases k) auto
  with 0 show ?case by (auto intro!: yields_peek [OF 0(1)] yields_return)
next
  case (Suc n)
  then obtain g ps' where ps: "ps = (chars ''&'', g) # ps'" "map fst ps' = replicate n (chars ''&'')" by (auto simp: map_eq_Cons_conv)
  obtain k' where k: "k = Suc k'" "length ps' < k'" using Suc.prems(4) ps by (cases k) auto
  have b: "before b s ((chars ''&'', g) # ps' @ r)" using Suc.prems(1) ps by simp
  have step: "yields b (parsebacks k' b (BACK c)) u (BACK ((BACK ^^ n) d)) r" if "before b u (ps' @ r)" for u
    using Suc.IH [OF that ps(2) Suc.prems(3) k(2), of "BACK c" "BACK d"] Suc.prems(5) by (simp add: view_def funpow_swap1)
  show ?case
    unfolding k(1) parsebacks.simps
    by (rule yields_peek [OF b]) (auto simp: next_in_def elim!: yields_token intro!: step)
qed

text \<open>The tokens behind a line, a pipeline and a command.\<close>

definition ends :: "(token \<times> uchar list) list \<Rightarrow> string \<Rightarrow> bool" where
  "ends r toks \<longleftrightarrow> r = [] \<or> next_in r toks"

lemma ends_not:
  "ends r '')'' \<Longrightarrow> \<not> next_in r '';''" "ends r '')&;'' \<Longrightarrow> \<not> next_in r ''|''"
  "ends r '')'' \<Longrightarrow> \<not> next_in r ''&''" "ends r ''|)&;'' \<Longrightarrow> \<not> next_in r ''<>''" "ends r ''|)&;'' \<Longrightarrow> \<not> next_in r ''(''"
  "ends r '')'' \<Longrightarrow> ends r '')&;''" "ends r '')&;'' \<Longrightarrow> ends r ''|)&;''"
  "ends ((chars ''&'', g) # r) '')&;''" "ends ((chars '';'', g) # r) '')&;''" "ends ((chars ''|'', g) # r) ''|)&;''"
  "ends ((chars '')'', g) # r) '')''" "\<not> next_in ((chars '';'', g) # r) ''&''"
  by (auto simp: ends_def next_in_def)

lemma ends_backs: "map fst ps = replicate n (chars ''&'') \<Longrightarrow> ends r '')&;'' \<Longrightarrow> ends (ps @ r) '')&;''"
  by (cases n) (auto simp: map_eq_Cons_conv ends_def next_in_def)

lemma simple_next:
  assumes "map fst ps = cmd_toks (Simple rs as)" "scmd_ok (Simple rs as)" "ends r ''|)&;''"
  shows "\<not> next_in (ps @ r) ''(''"
proof (cases "cmd_toks (Simple rs as)")
  case Nil
  then show ?thesis using assms ends_not(5) by simp
next
  case (Cons t ts)
  then obtain g ps' where ps: "ps = (t, g) # ps'" using assms(1) unfolding map_eq_Cons_conv by auto
  consider x rs' where "rs = x # rs'" "t = hd (redir_toks x)" | "word t"
  proof (cases rs)
    case Nil
    then have "word t" using Cons assms(2) by (cases as) auto
    then show thesis by (rule that(2))
  next
    case rs: (Cons x rs')
    then have "t = hd (redir_toks x)" using Cons by (cases x) auto
    then show thesis by (rule that(1) [OF rs])
  qed
  then show ?thesis
  proof cases
    case 1
    then show ?thesis by (cases x) (auto simp: ps next_in_def)
  next
    case 2
    then show ?thesis using word_not_next [of t "''(''"] by (simp add: ps)
  qed
qed

lemma exec_lay:
  assumes "before b s (ps @ r)" "map fst ps = cmd_toks (Simple rs as)" "scmd_ok (Simple rs as)" "ends r ''|)&;''" "length ps < k"
  shows "yields b (parseexec (Suc k) b) s (simple_cmd (Simple rs as)) r"
proof -
  obtain ps1 ps2 where ps: "ps = ps1 @ ps2" "map fst ps1 = redirs_toks rs" "map fst ps2 = args_toks as"
    using assms(2) by (auto simp: map_eq_append_conv)
  have ok: "redirs_ok rs" "\<forall>(w, rs)\<in>set as. word w \<and> redirs_ok rs" "0 + length as < MAXARGS" using assms(3) by simp_all
  have n: "\<not> next_in (ps2 @ r) ''<>''" by (rule args_next [OF ps(3) ok(2) ends_not(4) [OF assms(4)]])
  have k: "length ps1 < k" "length ps2 < k" using assms(5) ps(1) by simp_all
  have r: "r = [] \<or> next_in r ''|)&;''" using assms(4) by (simp add: ends_def)
  show ?thesis
    unfolding parseexec.simps
  proof (rule yields_peek [OF assms(1)], unfold if_not_P [OF simple_next [OF assms(2-4)]])
    fix u assume u: "before b u (ps @ r)"
    then have u: "before b u (ps1 @ ps2 @ r)" by (simp add: ps(1))
    show "yields b (bind (parseredirs k b (EXEC [])) (parseargs k b 0)) u (simple_cmd (Simple rs as)) r"
      unfolding simple_cmd.simps
      by (rule yields_bind, rule parseredirs_lay [OF u ps(2) ok(1) n k(1)], simp add: view_def)
        (rule parseargs_lay [OF _ ps(3) ok(2) r ok(3) k(2)])
  qed
qed

lemma block_lay:
  assumes "before b s ((chars ''('', g) # ps @ (chars '')'', h) # qs @ r)" "map fst qs = redirs_toks rs" "redirs_ok rs"
    and "ends r ''|)&;''" "length qs < k"
    and inner: "\<And>u. before b u (ps @ (chars '')'', h) # qs @ r) \<Longrightarrow> yields b (parseline k b) u d ((chars '')'', h) # qs @ r)"
  shows "yields b (parseexec (Suc (Suc k)) b) s (fold redirect rs d) r"
proof -
  have n: "next_in ((chars ''('', g) # x) ''(''" "next_in ((chars '')'', h) # x) '')''" for x by (simp_all add: next_in_def)
  have close: "yields b (bind (peek b '')'') (\<lambda>close. if \<not> close then panic ''syntax - missing )''
      else bind (gettoken b) (\<lambda>_. parseredirs k b c))) u (fold redirect rs d) r"
    if u: "before b u ((chars '')'', h) # qs @ r)" "view b c = d" for u c
  proof (rule yields_peek [OF u(1)], simp only: n not_True_eq_False if_False, rule yields_token, assumption)
    fix v assume "before b v (qs @ r)"
    then show "yields b (parseredirs k b c) v (fold redirect rs d) r"
      by (rule parseredirs_lay [OF _ assms(2,3) ends_not(4) [OF assms(4)] assms(5) u(2)])
  qed
  show ?thesis
    unfolding parseexec.simps parseblock.simps
  proof (rule yields_peek [OF assms(1)], simp only: n if_True, rule yields_peek, assumption,
      simp only: n not_True_eq_False if_False, rule yields_token, assumption)
    fix u assume u: "before b u (ps @ (chars '')'', h) # qs @ r)"
    show "yields b (bind (parseline k b) (\<lambda>cmd. bind (peek b '')'') (\<lambda>close. if \<not> close then panic ''syntax - missing )''
        else bind (gettoken b) (\<lambda>_. parseredirs k b cmd)))) u (fold redirect rs d) r"
      by (rule yields_bind [OF inner [OF u]]) (rule close)
  qed
qed

lemma map_fst_append: "map fst ps = A @ B \<Longrightarrow> \<exists>ps1 ps2. ps = ps1 @ ps2 \<and> map fst ps1 = A \<and> map fst ps2 = B"
  unfolding map_eq_append_conv by blast

lemma map_fst_sep: "map fst ps = A @ t # B \<Longrightarrow> \<exists>ps1 g ps2. ps = ps1 @ (t, g) # ps2 \<and> map fst ps1 = A \<and> map fst ps2 = B"
  using map_fst_append [of ps A "t # B"] unfolding map_eq_Cons_conv by fastforce

lemma parse_lay:
  "before b s (ps @ r) \<Longrightarrow> map fst ps = line_toks l \<Longrightarrow> line_ok l \<Longrightarrow> ends r '')'' \<Longrightarrow> 4 * length ps + 4 \<le> k \<Longrightarrow>
    yields b (parseline k b) s (line_cmd l) r"
  "before b s (ps @ r) \<Longrightarrow> map fst ps = pipe_toks p \<Longrightarrow> pipe_ok p \<Longrightarrow> ends r '')&;'' \<Longrightarrow> 4 * length ps + 3 \<le> k \<Longrightarrow>
    yields b (parsepipe k b) s (pipe_cmd p) r"
  "before b s (ps @ r) \<Longrightarrow> map fst ps = cmd_toks c \<Longrightarrow> scmd_ok c \<Longrightarrow> ends r ''|)&;'' \<Longrightarrow> 4 * length ps + 2 \<le> k \<Longrightarrow>
    yields b (parseexec k b) s (simple_cmd c) r"
proof (induction l and p and c arbitrary: s ps r k and s ps r k and s ps r k)
  case (Last p n)
  obtain k' where k: "k = Suc k'" using Last.prems(5) by (cases k) auto
  obtain ps1 ps2 where ps: "ps = ps1 @ ps2" "map fst ps1 = pipe_toks p" "map fst ps2 = replicate n (chars ''&'')"
    using Last.prems(2) by (auto simp: map_eq_append_conv)
  have b: "before b s (ps1 @ ps2 @ r)" using Last.prems(1) ps(1) by simp
  have p: "yields b (parsepipe k' b) s (pipe_cmd p) (ps2 @ r)"
    by (rule Last.IH [OF b ps(2)]) (use Last.prems ps k ends_backs [OF ps(3) ends_not(6)] in auto)
  have e: "\<not> next_in r ''&''" "\<not> next_in r '';''" "length ps2 < k'" using Last.prems ends_not(1,3) ps(1) k by auto
  show ?case unfolding k parseline.simps line_cmd.simps
    by (rule yields_bind [OF p], rule yields_bind, rule parsebacks_lay [OF _ ps(3) e(1,3)], assumption, assumption,
        rule yields_peek, assumption) (simp add: e(2) yields_return)
next
  case (Seq p n l)
  obtain k' where k: "k = Suc k'" using Seq.prems(5) by (cases k) auto
  obtain ps1 qs where qs: "ps = ps1 @ qs" "map fst ps1 = pipe_toks p" "map fst qs = replicate n (chars ''&'') @ [chars '';''] @ line_toks l"
    using map_fst_append [OF Seq.prems(2) [unfolded line_toks.simps]] by blast
  then obtain ps2 g ps3 where "qs = ps2 @ (chars '';'', g) # ps3" "map fst ps2 = replicate n (chars ''&'')" "map fst ps3 = line_toks l"
    using map_fst_sep [OF qs(3) [unfolded append_Cons append_Nil]] by blast
  note ps = qs(1) [unfolded this(1)] qs(2) this(2,3)
  let ?r = "(chars '';'', g) # ps3 @ r"
  have b: "before b s (ps1 @ ps2 @ ?r)" using Seq.prems(1) ps(1) by simp
  have p: "yields b (parsepipe k' b) s (pipe_cmd p) (ps2 @ ?r)"
    by (rule Seq.IH(1) [OF b ps(2)]) (use Seq.prems ps k ends_backs [OF ps(3) ends_not(9)] in auto)
  have e: "\<not> next_in ?r ''&''" "length ps2 < k'" "next_in ?r '';''" using Seq.prems ends_not(12) ps(1) k by (auto simp: next_in_def)
  have l: "yields b (bind (parseline k' b) (\<lambda>right. return (LIST c right))) u (LIST d (line_cmd l)) r"
    if "before b u (ps3 @ r)" "view b c = d" for u c d
    by (rule yields_bind [OF Seq.IH(2) [OF that(1) ps(4)]]) (use Seq.prems ps(1) k that(2) in \<open>auto simp: view_def intro!: yields_return\<close>)
  show ?case unfolding k parseline.simps line_cmd.simps
    by (rule yields_bind [OF p], rule yields_bind, rule parsebacks_lay [OF _ ps(3) e(1,2)], assumption, assumption,
        rule yields_peek, assumption, unfold if_P [OF e(3)], rule yields_token, assumption, rule l)
next
  case (One c)
  obtain k' where k: "k = Suc k'" using One.prems(5) by (cases k) auto
  have c: "yields b (parseexec k' b) s (simple_cmd c) r"
    by (rule One.IH [OF One.prems(1)]) (use One.prems k ends_not(7) in auto)
  show ?case unfolding k parsepipe.simps pipe_cmd.simps
    by (rule yields_bind [OF c], rule yields_peek, assumption) (simp add: ends_not(2) [OF One.prems(4)] yields_return)
next
  case (Piped c p)
  obtain k' where k: "k = Suc k'" using Piped.prems(5) by (cases k) auto
  obtain ps1 g ps2 where ps: "ps = ps1 @ (chars ''|'', g) # ps2" "map fst ps1 = cmd_toks c" "map fst ps2 = pipe_toks p"
    using map_fst_sep [OF Piped.prems(2) [unfolded pipe_toks.simps append_Cons append_Nil]] by blast
  let ?r = "(chars ''|'', g) # ps2 @ r"
  have b: "before b s (ps1 @ ?r)" using Piped.prems(1) ps(1) by simp
  have c: "yields b (parseexec k' b) s (simple_cmd c) ?r"
    by (rule Piped.IH(1) [OF b ps(2)]) (use Piped.prems ps(1) k ends_not(10) in auto)
  have e: "next_in ?r ''|''" by (simp add: next_in_def)
  have p: "yields b (bind (parsepipe k' b) (\<lambda>right. return (PIPE c right))) u (PIPE d (pipe_cmd p)) r"
    if "before b u (ps2 @ r)" "view b c = d" for u c d
    by (rule yields_bind [OF Piped.IH(2) [OF that(1) ps(3)]]) (use Piped.prems ps(1) k that(2) in \<open>auto simp: view_def intro!: yields_return\<close>)
  show ?case unfolding k parsepipe.simps pipe_cmd.simps
    by (rule yields_bind [OF c], rule yields_peek, assumption, unfold if_P [OF e], rule yields_token, assumption, rule p)
next
  case (Simple rs as)
  then obtain k' where k: "k = Suc k'" "length ps < k'" by (cases k) auto
  show ?case unfolding k(1) by (rule exec_lay [OF Simple.prems(1-4) k(2)])
next
  case (Block l rs)
  then obtain k' where k: "k = Suc (Suc k')" by (cases k; cases "k - 1") auto
  obtain g qs where qs: "ps = (chars ''('', g) # qs" "map fst qs = line_toks l @ chars '')'' # redirs_toks rs"
    using Block.prems(2) unfolding cmd_toks.simps append_Cons append_Nil map_eq_Cons_conv by force
  then obtain ps1 h ps2 where "qs = ps1 @ (chars '')'', h) # ps2" "map fst ps1 = line_toks l" "map fst ps2 = redirs_toks rs"
    using map_fst_sep [OF qs(2)] by blast
  note ps = qs(1) [unfolded this(1)] this(2,3)
  have b: "before b s ((chars ''('', g) # ps1 @ (chars '')'', h) # ps2 @ r)" using Block.prems(1) ps(1) by simp
  have ok: "line_ok l" "redirs_ok rs" "length ps2 < k'" "4 * length ps1 + 4 \<le> k'" using Block.prems(3,5) ps(1) k by simp_all
  show ?case unfolding k simple_cmd.simps
    by (rule block_lay [OF b ps(3) ok(2) Block.prems(4) ok(3)]) (rule Block.IH [OF _ ps(2) ok(1) ends_not(11) ok(4)])
qed

lemma lay_length: "spaced ps \<Longrightarrow> length ps \<le> length (lay ps)"
proof (induction ps rule: lay.induct)
  case (2 t g ps)
  then have "0 < length t" using token_head(1) [of t] by simp
  moreover have "length ps \<le> length (lay ps)" using 2 by simp
  ultimately show ?case unfolding lay.simps length_append list.size by linarith
qed simp

lemma lay_no_zero: "spaced ps \<Longrightarrow> 0 \<notin> set (lay ps)"
  by (induction ps rule: lay.induct) (auto simp: token_text_def word_def whitespace_def)

text \<open>
  C7: The shell reads every line of its grammar as the command the grammar says: for a line of
  pipelines, blocks, words and redirections, laid out with any blanks and with no blanks where two
  tokens cannot be mistaken for one, \<open>parsecmd\<close> returns the tree of commands with exactly the words
  of the line as its strings. A command has at most nine words.
\<close>

theorem sh_parse_roundtrip:
  assumes "line_ok l" and "map fst ps = line_toks l" and "spaced ps" and "\<forall>c\<in>set lead. whitespace c"
  shows "parsecmd os (4 * length (lead @ lay ps) + 4) (lead @ lay ps) w = Ok (line_cmd l) w"
proof -
  let ?b = "lead @ lay ps"
  have "skip whitespace ?b 0 = 0 + length lead" by (rule skip_eq) (use assms(4) lay_head [OF assms(3)] in auto)
  then have b: "before ?b 0 (ps @ [])" using assms(3) by (simp add: before_def)
  have z: "0 \<notin> set ?b" using assms(4) lay_no_zero [OF assms(3)] by (auto simp: whitespace_def)
  have "yields ?b (parseline (4 * length ?b + 4) ?b) 0 (line_cmd l) []"
    by (rule parse_lay(1) [OF b assms(2,1)]) (use lay_length [OF assms(3)] in \<open>auto simp: ends_def\<close>)
  then obtain c t where c: "parseline (4 * length ?b + 4) ?b 0 = Ok c t" "before ?b t []" "view ?b c = line_cmd l"
    unfolding yields_def by blast
  have "parses ?b 0 (parseline (4 * length ?b + 4) ?b) (\<lambda>c t. cmd_ok ?b c)" by (rule parse_parses(1) [OF z]) simp_all
  then have ok: "cmd_ok ?b c" unfolding parses_def c(1) by simp
  have "map_cmd (\<lambda>(q, e). string_at (nulterminate c ?b) q) c = view ?b c"
    unfolding view_def by (rule cmd.map_cong0) (use string_terminated [OF z ok] in auto)
  moreover have "skip whitespace ?b t = length ?b" using c(2) skip_le [of t ?b whitespace] unfolding before_def by (auto intro: antisym)
  ultimately show ?thesis unfolding parsecmd_def c(1) by (simp add: c(3) Let_def)
qed

text \<open>The line \<open>(cat <in|wc)&;ls a\<close> with a newline.\<close>

theorem sh_parse_roundtrip_witness:
  "parsecmd filter_os 80 (chars ''(cat <in|wc)&;ls a'' @ [10]) ([], []) =
     Ok (LIST (BACK (PIPE (REDIR (EXEC [chars ''cat'']) (chars ''in'') 0 0) (EXEC [chars ''wc'']))) (EXEC [chars ''ls'', chars ''a''])) ([], [])"
proof -
  let ?l = "Seq (One (Block (Last (Piped (Simple [] [(chars ''cat'', [From (chars ''in'')])]) (One (Simple [] [(chars ''wc'', [])]))) 0) [])) 1
    (Last (One (Simple [] [(chars ''ls'', []), (chars ''a'', [])])) 0)"
  let ?ps = "[(chars ''('', []), (chars ''cat'', chars '' ''), (chars ''<'', []), (chars ''in'', []), (chars ''|'', []), (chars ''wc'', []),
    (chars '')'', []), (chars ''&'', []), (chars '';'', []), (chars ''ls'', chars '' ''), (chars ''a'', [10])]"
  have h: "line_ok ?l" "map fst ?ps = line_toks ?l" "spaced ?ps"
    by (simp_all add: redirs_ok_def word_def word_char_def whitespace_def symbols_def token_text_def glues_def)
  show ?thesis using sh_parse_roundtrip [OF h, of "[]" filter_os "([], [])"] by simp
qed

end
