(* ===== verification/Mkfs.thy ===== *)
theory Mkfs
  imports Dirs
begin

text \<open>
  The program that builds the initial file system, \<open>mkfs.c\<close>. The image is the list of its blocks;
  what the files of the host contain is a parameter. A failed assertion or a call of \<open>exit(1)\<close>
  ends the program with a message, \<open>exit(0)\<close> with the image. The host has the byte order of the
  target.
\<close>

section \<open>State\<close>

record mkfs_state =
  fsimg :: "block list"
  freeinode :: uint
  freeblock :: uint
  mkfs_super :: superblock

definition NINODES :: nat where [simp]: "NINODES = 200"
definition nbitmap :: nat where [simp]: "nbitmap = FSSIZE div (BSIZE * 8) + 1"
definition ninodeblocks :: nat where [simp]: "ninodeblocks = NINODES div IPB + 1"
definition mkfs_nlog :: nat where [simp]: "mkfs_nlog = 30"
definition nmeta :: nat where [simp]: "nmeta = 2 + mkfs_nlog + ninodeblocks + nbitmap"

definition xshort :: "ushort \<Rightarrow> ushort" where
  "xshort x = get_u16 0 [ucast x, ucast (drop_bit 8 x)]"

definition xint :: "uint \<Rightarrow> uint" where
  "xint x = get_u32 0 [ucast x, ucast (drop_bit 8 x), ucast (drop_bit 16 x), ucast (drop_bit 24 x)]"

section \<open>Sectors and inodes\<close>

text \<open>Writing behind the end of the image fills the gap with zeros; reading there fails.\<close>

definition wsect :: "uint \<Rightarrow> block \<Rightarrow> (mkfs_state, unit) op" where
  "wsect sec buf =
     modify (\<lambda>s. s\<lparr>fsimg :=
       (if unat sec < length (fsimg s) then (fsimg s)[unat sec := buf]
        else fsimg s @ replicate (unat sec - length (fsimg s)) zero_block @ [buf])\<rparr>)"

definition rsect :: "uint \<Rightarrow> (mkfs_state, block) op" where
  "rsect sec s = (if unat sec < length (fsimg s) then Ok (fsimg s ! unat sec) s else Panic ''read'')"

definition winode :: "uint \<Rightarrow> dinode \<Rightarrow> (mkfs_state, unit) op" where
  "winode inum din =
     bind (gets (\<lambda>s. IBLOCK inum (mkfs_super s))) (\<lambda>bn.
     bind (rsect bn) (\<lambda>buf.
     wsect bn (splice (64 * (unat inum mod IPB)) (dinode_bytes din) buf)))"

definition rinode :: "uint \<Rightarrow> (mkfs_state, dinode) op" where
  "rinode inum =
     bind (gets (\<lambda>s. IBLOCK inum (mkfs_super s))) (\<lambda>bn.
     bind (rsect bn) (\<lambda>buf.
     return (dinode_of (slice (64 * (unat inum mod IPB)) 64 buf))))"

definition mkfs_ialloc :: "ushort \<Rightarrow> (mkfs_state, uint) op" where
  "mkfs_ialloc type =
     bind (gets freeinode) (\<lambda>inum.
     bind (modify (\<lambda>s. s\<lparr>freeinode := inum + 1\<rparr>)) (\<lambda>_.
     bind (winode inum \<lparr>d_type = xshort type, d_major = 0, d_minor = 0, d_nlink = xshort 1, d_size = xint 0,
       d_addrs = replicate 13 0\<rparr>) (\<lambda>_.
     return inum)))"

text \<open>\<open>freeblock++\<close>.\<close>

definition new_block :: "(mkfs_state, uint) op" where
  "new_block = bind (gets freeblock) (\<lambda>b. bind (modify (\<lambda>s. s\<lparr>freeblock := b + 1\<rparr>)) (\<lambda>_. return b))"

section \<open>Appending to a file\<close>

text \<open>The block for \<open>fbn\<close> of the file, with the inode in memory as it is changed.\<close>

definition iappend_block :: "dinode \<Rightarrow> nat \<Rightarrow> (mkfs_state, dinode \<times> uint) op" where
  "iappend_block din fbn =
     (if fbn < NDIRECT then
        bind (if xint (d_addrs din ! fbn) = 0 then
                bind new_block (\<lambda>b. return (din\<lparr>d_addrs := (d_addrs din)[fbn := xint b]\<rparr>))
              else return din) (\<lambda>din.
        return (din, xint (d_addrs din ! fbn)))
      else
        bind (if xint (d_addrs din ! NDIRECT) = 0 then
                bind new_block (\<lambda>b. return (din\<lparr>d_addrs := (d_addrs din)[NDIRECT := xint b]\<rparr>))
              else return din) (\<lambda>din.
        bind (rsect (xint (d_addrs din ! NDIRECT))) (\<lambda>indirect.
        bind (if get_u32 (4 * (fbn - NDIRECT)) indirect = 0 then
                bind new_block (\<lambda>b.
                let indirect = put_u32 (4 * (fbn - NDIRECT)) (xint b) indirect in
                bind (wsect (xint (d_addrs din ! NDIRECT)) indirect) (\<lambda>_. return indirect))
              else return indirect) (\<lambda>indirect.
        return (din, xint (get_u32 (4 * (fbn - NDIRECT)) indirect))))))"

primrec iappend_loop :: "nat \<Rightarrow> dinode \<Rightarrow> nat \<Rightarrow> uchar list \<Rightarrow> (mkfs_state, dinode \<times> nat) op" where
  "iappend_loop 0 din off p = (\<lambda>s. Diverge)"
| "iappend_loop (Suc k) din off p =
     (if p = [] then return (din, off)
      else
        let fbn = off div BSIZE in
        bind (panic_if (\<not> fbn < MAXFILE) ''assert'') (\<lambda>_.
        bind (iappend_block din fbn) (\<lambda>(din, x).
        let n1 = min (length p) ((fbn + 1) * BSIZE - off) in
        bind (rsect x) (\<lambda>buf.
        bind (wsect x (splice (off - fbn * BSIZE) (take n1 p) buf)) (\<lambda>_.
        iappend_loop k din (off + n1) (drop n1 p))))))"

definition iappend :: "uint \<Rightarrow> uchar list \<Rightarrow> (mkfs_state, unit) op" where
  "iappend inum p =
     bind (rinode inum) (\<lambda>din.
     bind (iappend_loop (Suc (length p)) din (unat (xint (d_size din))) p) (\<lambda>(din, off).
     winode inum (din\<lparr>d_size := xint (of_nat off)\<rparr>)))"

section \<open>Bitmap and main program\<close>

definition mkfs_balloc :: "nat \<Rightarrow> (mkfs_state, unit) op" where
  "mkfs_balloc used =
     bind (panic_if (\<not> used < BSIZE * 8) ''assert'') (\<lambda>_.
     bind (gets (\<lambda>s. sb_bmapstart (mkfs_super s))) (\<lambda>bn.
     wsect bn (fold bitmap_set [0..<used] (replicate BSIZE 0))))"

definition mkfs_dirent :: "uint \<Rightarrow> uchar list \<Rightarrow> uchar list" where
  "mkfs_dirent inum name = dirent_bytes \<lparr>de_inum = xshort (ucast inum), de_name = strncpy (cstr_of name) DIRSIZ\<rparr>"

text \<open>A file of the command line: its name, and what successive reads of it give if it can be opened.\<close>

type_synonym host_file = "uchar list \<times> uchar list list option"

definition strip_underscore :: "uchar list \<Rightarrow> uchar list" where
  "strip_underscore name = (case name of [] \<Rightarrow> [] | c # cs \<Rightarrow> if c = 95 then cs else name)"

definition mkfs_add :: "uint \<Rightarrow> host_file \<Rightarrow> (mkfs_state, unit) op" where
  "mkfs_add rootino = (\<lambda>(name, pieces).
     bind (panic_if (47 \<in> set name) ''assert'') (\<lambda>_.
     case pieces of
       None \<Rightarrow> panic ''open''
     | Some pieces \<Rightarrow>
         bind (mkfs_ialloc T_FILE) (\<lambda>inum.
         bind (iappend rootino (mkfs_dirent inum (strip_underscore name))) (\<lambda>_.
         for_each (takeWhile (\<lambda>p. p \<noteq> []) pieces) (iappend inum)))))"

definition mkfs_start :: mkfs_state where
  "mkfs_start = \<lparr>fsimg = [], freeinode = 1, freeblock = of_nat nmeta,
     mkfs_super = \<lparr>sb_size = xint (of_nat FSSIZE), sb_nblocks = xint (of_nat (FSSIZE - nmeta)), sb_ninodes = xint (of_nat NINODES),
       sb_nlog = xint (of_nat mkfs_nlog), sb_logstart = xint 2, sb_inodestart = xint (of_nat (2 + mkfs_nlog)),
       sb_bmapstart = xint (of_nat (2 + mkfs_nlog + ninodeblocks))\<rparr>\<rparr>"

definition mkfs_main :: "host_file list \<Rightarrow> (mkfs_state, unit) op" where
  "mkfs_main files =
     bind (for_each [0..<FSSIZE] (\<lambda>i. wsect (of_nat i) zero_block)) (\<lambda>_.
     bind (gets mkfs_super) (\<lambda>sb.
     bind (wsect 1 (splice 0 (superblock_bytes sb) zero_block)) (\<lambda>_.
     bind (mkfs_ialloc T_DIR) (\<lambda>rootino.
     bind (panic_if (rootino \<noteq> ROOTINO) ''assert'') (\<lambda>_.
     bind (iappend rootino (mkfs_dirent rootino [46])) (\<lambda>_.
     bind (iappend rootino (mkfs_dirent rootino [46, 46])) (\<lambda>_.
     bind (for_each files (mkfs_add rootino)) (\<lambda>_.
     bind (rinode rootino) (\<lambda>din.
     bind (winode rootino (din\<lparr>d_size := xint ((xint (d_size din) div of_nat BSIZE + 1) * of_nat BSIZE)\<rparr>)) (\<lambda>_.
     bind (gets freeblock) (\<lambda>used.
     bind (mkfs_balloc (unat used)) (\<lambda>_.
     (\<lambda>s. Exited s)))))))))))))"

section \<open>The image while it is built\<close>

lemma xint_id [simp]: "xint x = x"
proof -
  have "[ucast x, ucast (drop_bit 8 x), ucast (drop_bit 16 x), ucast (drop_bit 24 x)] = to_le 4 x"
    by (simp add: eval_nat_numeral drop_bit_drop_bit)
  then show ?thesis by (simp add: xint_def get_u32_def slice_def)
qed

lemma xshort_id [simp]: "xshort x = x"
proof -
  have "[ucast x, ucast (drop_bit 8 x)] = to_le 2 x" by (simp add: eval_nat_numeral)
  then show ?thesis by (simp add: xshort_def get_u16_def slice_def)
qed

text \<open>
  The number of the indirect block of an inode, and of the block that holds part \<open>f\<close> of its file.
  Each block that was taken has one owner: part \<open>f\<close> of the file of inode \<open>i\<close> is the owner
  \<open>(i, Suc f)\<close>, the indirect block of \<open>i\<close> has the owner \<open>(i, 0)\<close>.
\<close>

definition iaddr :: "dinode \<Rightarrow> nat" where
  "iaddr d = unat (d_addrs d ! 12)"

definition faddr :: "block list \<Rightarrow> dinode \<Rightarrow> nat \<Rightarrow> nat" where
  "faddr img d f = unat (if f < 12 then d_addrs d ! f else get_u32 (4 * (f - 12)) (img ! iaddr d))"

type_synonym owner = "nat \<times> nat"

definition taken :: "nat \<Rightarrow> (nat \<Rightarrow> owner) \<Rightarrow> nat \<Rightarrow> owner \<Rightarrow> bool" where
  "taken fb own b r \<longleftrightarrow> 59 \<le> b \<and> b < fb \<and> own b = r"

definition fmap_ok :: "block list \<Rightarrow> nat \<Rightarrow> (nat \<Rightarrow> owner) \<Rightarrow> nat \<Rightarrow> dinode \<Rightarrow> nat \<Rightarrow> bool" where
  "fmap_ok img fb own i d m \<longleftrightarrow> length (d_addrs d) = 13 \<and> m \<le> 140 \<and>
     (\<forall>f<m. taken fb own (faddr img d f) (i, Suc f)) \<and>
     (\<forall>f<140. m \<le> f \<and> (f < 12 \<or> iaddr d \<noteq> 0) \<longrightarrow> faddr img d f = 0) \<and>
     (if iaddr d = 0 then m \<le> 12 else 12 \<le> m \<and> taken fb own (iaddr d) (i, 0))"

definition data_ok :: "block list \<Rightarrow> dinode \<Rightarrow> nat \<Rightarrow> uchar list \<Rightarrow> bool" where
  "data_ok img d m c \<longleftrightarrow> length c \<le> 512 * m \<and> (\<forall>k<length c. img ! faddr img d (k div 512) ! (k mod 512) = c ! k)"

definition owned :: "block list \<Rightarrow> nat \<Rightarrow> (nat \<Rightarrow> dinode) \<Rightarrow> (nat \<Rightarrow> nat) \<Rightarrow> nat \<Rightarrow> owner \<Rightarrow> bool" where
  "owned img n D M b = (\<lambda>(i, r). 0 < i \<and> i < n \<and>
     (case r of 0 \<Rightarrow> iaddr (D i) = b | Suc f \<Rightarrow> f < M i \<and> faddr img (D i) f = b))"

definition geometry :: "block list \<Rightarrow> nat \<Rightarrow> bool" where
  "geometry img fb \<longleftrightarrow> length img = 1000 \<and> (\<forall>b<1000. length (img ! b) = 512) \<and> 59 \<le> fb \<and> fb \<le> 1000 \<and>
     (\<forall>b<1000. fb \<le> b \<longrightarrow> img ! b = zero_block)"

definition fs_ok :: "block list \<Rightarrow> nat \<Rightarrow> (nat \<Rightarrow> owner) \<Rightarrow> nat \<Rightarrow> (nat \<Rightarrow> dinode) \<Rightarrow> (nat \<Rightarrow> nat) \<Rightarrow> (nat \<Rightarrow> uchar list) \<Rightarrow> bool" where
  "fs_ok img fb own n D M C \<longleftrightarrow> geometry img fb \<and>
     (\<forall>i. 0 < i \<and> i < n \<longrightarrow> fmap_ok img fb own i (D i) (M i) \<and> data_ok img (D i) (M i) (C i)) \<and>
     (\<forall>b. 59 \<le> b \<and> b < fb \<longrightarrow> owned img n D M b (own b))"

lemma fs_okD:
  assumes "fs_ok img fb own n D M C"
  shows "geometry img fb" "0 < i \<Longrightarrow> i < n \<Longrightarrow> fmap_ok img fb own i (D i) (M i)" "0 < i \<Longrightarrow> i < n \<Longrightarrow> data_ok img (D i) (M i) (C i)"
    "59 \<le> b \<Longrightarrow> b < fb \<Longrightarrow> owned img n D M b (own b)"
  using assms by (simp_all add: fs_ok_def)

text \<open>The image decides where the parts of a file are only by its indirect block.\<close>

lemma faddr_cong: "(12 \<le> f \<Longrightarrow> img' ! iaddr d = img ! iaddr d) \<Longrightarrow> faddr img' d f = faddr img d f"
  by (simp add: faddr_def)

lemma fmap_ok_cong:
  assumes "fmap_ok img fb own i d m" "iaddr d \<noteq> 0 \<Longrightarrow> img' ! iaddr d = img ! iaddr d"
  shows "fmap_ok img' fb own i d m"
proof -
  have "faddr img' d f = faddr img d f" if "f < 12 \<or> iaddr d \<noteq> 0" for f using that assms(2) by (auto intro: faddr_cong)
  moreover have "f < 12 \<or> iaddr d \<noteq> 0" if "f < m" for f using assms(1) that by (auto simp: fmap_ok_def split: if_splits)
  ultimately show ?thesis using assms(1) by (auto simp: fmap_ok_def)
qed

lemma fmap_ind: "fmap_ok img fb own i d m \<Longrightarrow> f < m \<Longrightarrow> 12 \<le> f \<Longrightarrow> iaddr d \<noteq> 0"
  by (auto simp: fmap_ok_def split: if_splits)

lemma part_less: "data_ok img d m c \<Longrightarrow> k < length c \<Longrightarrow> k div 512 < m"
  by (auto simp: data_ok_def less_mult_imp_div_less)

lemma faddr_same:
  assumes "fmap_ok img fb own i d m" "f < m" "iaddr d \<noteq> 0 \<Longrightarrow> img' ! iaddr d = img ! iaddr d"
  shows "faddr img' d f = faddr img d f"
  using fmap_ind [OF assms(1,2)] assms(3) by (intro faddr_cong) auto

lemma fs_ok_image:
  assumes fs: "fs_ok img fb own n D M C" and "geometry img' fb"
    and same: "\<And>i. 0 < i \<Longrightarrow> i < n \<Longrightarrow> iaddr (D i) \<noteq> 0 \<Longrightarrow> img' ! iaddr (D i) = img ! iaddr (D i)"
    and "\<And>i. 0 < i \<Longrightarrow> i < n \<Longrightarrow> data_ok img' (D i) (M i) (C' i)"
  shows "fs_ok img' fb own n D M C'"
  unfolding fs_ok_def
proof (intro conjI allI impI)
  show "fmap_ok img' fb own i (D i) (M i)" if "0 < i \<and> i < n" for i
    using that by (intro fmap_ok_cong [OF fs_okD(2) [OF fs]] same) auto
  fix b assume b: "59 \<le> b \<and> b < fb"
  show "owned img' n D M b (own b)"
    using fs_okD(4) [OF fs, of b] b faddr_same [OF fs_okD(2) [OF fs] _ same]
    by (auto simp: owned_def split: prod.splits nat.splits)
qed (use assms in auto)

lemma fs_ok_meta:
  assumes fs: "fs_ok img fb own n D M C" and b: "b < 59" "length v = 512"
  shows "fs_ok (img[b := v]) fb own n D M C"
proof (rule fs_ok_image [OF fs])
  have g: "geometry img fb" by (rule fs_okD(1) [OF fs])
  have "length (img[b := v] ! c) = 512" if "c < 1000" for c using g b that by (cases "c = b") (auto simp: geometry_def)
  then show "geometry (img[b := v]) fb" using g b by (auto simp: geometry_def)
  fix i assume i: "0 < i" "i < n"
  have m: "fmap_ok img fb own i (D i) (M i)" by (rule fs_okD(2) [OF fs i])
  show same: "img[b := v] ! iaddr (D i) = img ! iaddr (D i)" if "iaddr (D i) \<noteq> 0"
    using m that b(1) by (auto simp: fmap_ok_def taken_def)
  have "b \<noteq> faddr img (D i) f" if "f < M i" for f using m that b(1) by (force simp: fmap_ok_def taken_def)
  then show "data_ok (img[b := v]) (D i) (M i) (C i)"
    using fs_okD(3) [OF fs i] faddr_same [OF m _ same] by (auto simp: data_ok_def less_mult_imp_div_less)
qed

text \<open>Writing the block of part \<open>f\<close> changes the file of \<open>i\<close> and no other.\<close>

lemma fs_ok_write:
  assumes fs: "fs_ok img fb own n D M C" and i: "0 < i" "i < n" and f: "f < M i" and v: "length v = 512"
    and len: "length c \<le> 512 * M i"
    and new: "\<And>k. k < length c \<Longrightarrow> k div 512 = f \<Longrightarrow> v ! (k mod 512) = c ! k"
    and old: "\<And>k. k < length c \<Longrightarrow> k div 512 \<noteq> f \<Longrightarrow> k < length (C i) \<and> C i ! k = c ! k"
  shows "fs_ok (img[faddr img (D i) f := v]) fb own n D M (C(i := c))"
proof (rule fs_ok_image [OF fs])
  let ?x = "faddr img (D i) f"
  have g: "geometry img fb" by (rule fs_okD(1) [OF fs])
  have x: "taken fb own ?x (i, Suc f)" using fs_okD(2) [OF fs i] f by (auto simp: fmap_ok_def)
  then have xr: "59 \<le> ?x" "?x < fb" "?x < 1000" using g by (auto simp: taken_def geometry_def)
  have "length (img[?x := v] ! c) = 512" if "c < 1000" for c using g v that by (cases "c = ?x") (auto simp: geometry_def)
  then show "geometry (img[?x := v]) fb" using g xr by (auto simp: geometry_def)
  fix j assume j: "0 < j" "j < n"
  have m: "fmap_ok img fb own j (D j) (M j)" by (rule fs_okD(2) [OF fs j])
  show same: "img[?x := v] ! iaddr (D j) = img ! iaddr (D j)" if "iaddr (D j) \<noteq> 0"
  proof -
    have "own (iaddr (D j)) = (j, 0)" using m that by (auto simp: fmap_ok_def taken_def)
    then have "iaddr (D j) \<noteq> ?x" using x by (auto simp: taken_def)
    then show ?thesis by simp
  qed
  note fa = faddr_same [OF m _ same]
  have d: "data_ok img (D j) (M j) (C j)" by (rule fs_okD(3) [OF fs j])
  have other: "?x \<noteq> faddr img (D j) h" if "h < M j" "(j, h) \<noteq> (i, f)" for h
    using m that x unfolding fmap_ok_def taken_def by (metis Pair_inject nat.inject)
  show "data_ok (img[?x := v]) (D j) (M j) ((C(i := c)) j)"
  proof (cases "j = i")
    case False
    then show ?thesis using d fa other part_less [OF d] unfolding data_ok_def by simp
  next
    case True
    have "img[?x := v] ! faddr (img[?x := v]) (D i) (k div 512) ! (k mod 512) = c ! k" if k: "k < length c" for k
    proof (cases "k div 512 = f")
      case kf: True
      then show ?thesis using new [OF k kf] fa [of f] f g xr True by (simp add: geometry_def)
    next
      case kf: False
      have h: "k div 512 < M i" using k len by (auto simp: less_mult_imp_div_less)
      then show ?thesis using old [OF k kf] d fa [of "k div 512"] other [of "k div 512"] kf True by (auto simp: data_ok_def)
    qed
    then show ?thesis using True len by (simp add: data_ok_def)
  qed
qed

text \<open>Taking the next free block for inode \<open>i\<close>, which has \<open>d\<close> and \<open>m\<close> parts then.\<close>

lemma taken_old: "taken fb own b q \<Longrightarrow> taken (Suc fb) (own(fb := r)) b q"
  by (auto simp: taken_def)

lemma taken_new: "59 \<le> fb \<Longrightarrow> taken (Suc fb) (own(fb := r)) fb r"
  by (simp add: taken_def)

lemma fs_ok_take:
  assumes fs: "fs_ok img fb own n D M C" and i: "0 < i" "i < n" and fb: "fb < 1000"
    and g: "geometry img' (Suc fb)"
    and other: "\<And>j b. 0 < j \<Longrightarrow> j < n \<Longrightarrow> j \<noteq> i \<Longrightarrow> fst (own b) = j \<Longrightarrow> b < fb \<Longrightarrow> img' ! b = img ! b"
    and new: "fmap_ok img' (Suc fb) (own(fb := r)) i d m" "data_ok img' d m (C i)" "owned img' n (D(i := d)) (M(i := m)) fb r"
    and old: "\<And>f. f < M i \<Longrightarrow> f < m \<and> faddr img' d f = faddr img (D i) f" "iaddr (D i) \<noteq> 0 \<Longrightarrow> iaddr d = iaddr (D i)"
  shows "fs_ok img' (Suc fb) (own(fb := r)) n (D(i := d)) (M(i := m)) C"
proof -
  have j: "fmap_ok img' (Suc fb) (own(fb := r)) j (D j) (M j) \<and> data_ok img' (D j) (M j) (C j) \<and> (\<forall>f<M j. faddr img' (D j) f = faddr img (D j) f)"
    if "0 < j" "j < n" "j \<noteq> i" for j
  proof -
    have m: "fmap_ok img fb own j (D j) (M j)" by (rule fs_okD(2) [OF fs that(1,2)])
    have same: "img' ! iaddr (D j) = img ! iaddr (D j)" if "iaddr (D j) \<noteq> 0"
      using m that other [OF \<open>0 < j\<close> \<open>j < n\<close> \<open>j \<noteq> i\<close>] by (auto simp: fmap_ok_def taken_def)
    note fa = faddr_same [OF m _ same]
    have "img' ! faddr img (D j) f = img ! faddr img (D j) f" if "f < M j" for f
      using m that other [OF \<open>0 < j\<close> \<open>j < n\<close> \<open>j \<noteq> i\<close>] unfolding fmap_ok_def taken_def by (metis fst_conv)
    then have "data_ok img' (D j) (M j) (C j)"
      using fs_okD(3) [OF fs that(1,2)] part_less [OF fs_okD(3) [OF fs that(1,2)]] fa unfolding data_ok_def by simp
    moreover have "fmap_ok img' fb own j (D j) (M j)" by (rule fmap_ok_cong [OF m same])
    then have "fmap_ok img' (Suc fb) (own(fb := r)) j (D j) (M j)" by (auto simp: fmap_ok_def taken_old)
    ultimately show ?thesis using fa by blast
  qed
  have "owned img' n (D(i := d)) (M(i := m)) b ((own(fb := r)) b)" if b: "59 \<le> b" "b < Suc fb" for b
  proof (cases "b = fb")
    case False
    then have o: "owned img n D M b (own b)" using fs_okD(4) [OF fs] b by simp
    obtain k q where q: "own b = (k, q)" by fastforce
    then show ?thesis using o False j [of k] old b(1) by (cases "k = i") (auto simp: owned_def split: nat.splits)
  qed (use new in simp)
  then show ?thesis using g new(1,2) j by (auto simp: fs_ok_def)
qed

lemma geometry_take: "geometry img fb \<Longrightarrow> fb < 1000 \<Longrightarrow> geometry img (Suc fb)"
  by (simp add: geometry_def)

abbreviation with_addr :: "nat \<Rightarrow> nat \<Rightarrow> dinode \<Rightarrow> dinode" where
  "with_addr k b d \<equiv> d\<lparr>d_addrs := (d_addrs d)[k := of_nat b]\<rparr>"

lemma unat_block_no [simp]: "b \<le> 1000 \<Longrightarrow> unat (of_nat b :: uint) = b"
  by (simp add: unat_of_nat take_bit_nat_eq_self)

lemma fs_ok_direct:
  assumes fs: "fs_ok img fb own n D M C" and i: "0 < i" "i < n" and m: "M i < 12" and fb: "fb < 1000"
  shows "fs_ok img (Suc fb) (own(fb := (i, Suc (M i)))) n (D(i := with_addr (M i) fb (D i))) (M(i := Suc (M i))) C"
proof (rule fs_ok_take [OF fs i fb])
  let ?d = "with_addr (M i) fb (D i)"
  have ok: "fmap_ok img fb own i (D i) (M i)" by (rule fs_okD(2) [OF fs i])
  then have l: "length (d_addrs (D i)) = 13" by (simp add: fmap_ok_def)
  have g: "geometry img fb" by (rule fs_okD(1) [OF fs])
  have ia: "iaddr ?d = iaddr (D i)" "iaddr (D i) = 0" using ok m by (auto simp: iaddr_def fmap_ok_def split: if_splits)
  have fa: "faddr img ?d f = (if f = M i then fb else faddr img (D i) f)" for f
    using m l fb ia(1) by (auto simp: faddr_def nth_list_update)
  show "fmap_ok img (Suc fb) (own(fb := (i, Suc (M i)))) i ?d (Suc (M i))"
    using ok m l g unfolding fmap_ok_def fa ia by (auto simp: less_Suc_eq geometry_def intro: taken_old taken_new)
  show "data_ok img ?d (Suc (M i)) (C i)"
    using fs_okD(3) [OF fs i] part_less [OF fs_okD(3) [OF fs i]] unfolding data_ok_def fa by fastforce
  show "owned img n (D(i := ?d)) (M(i := Suc (M i))) fb (i, Suc (M i))" using i fa by (simp add: owned_def)
  show "f < Suc (M i) \<and> faddr img ?d f = faddr img (D i) f" if "f < M i" for f using that fa by simp
qed (use fs_okD(1) [OF fs] fb geometry_take in \<open>auto simp: iaddr_def m less_imp_neq\<close>)

lemma get_zero_block [simp]: "get_u32 k zero_block = 0"
  by (simp add: get_u32_def slice_def zero_block_def)

lemma fs_ok_indirect:
  assumes fs: "fs_ok img fb own n D M C" and i: "0 < i" "i < n" and m: "M i = 12" "iaddr (D i) = 0" and fb: "fb < 1000"
  shows "fs_ok img (Suc fb) (own(fb := (i, 0))) n (D(i := with_addr 12 fb (D i))) (M(i := M i)) C"
proof (rule fs_ok_take [OF fs i fb])
  let ?d = "with_addr 12 fb (D i)"
  have ok: "fmap_ok img fb own i (D i) (M i)" by (rule fs_okD(2) [OF fs i])
  then have l: "length (d_addrs (D i)) = 13" by (simp add: fmap_ok_def)
  have g: "geometry img fb" "img ! fb = zero_block" "59 \<le> fb" using fs_okD(1) [OF fs] fb by (auto simp: geometry_def)
  have ia: "iaddr ?d = fb" using l fb by (simp add: iaddr_def)
  have fa: "faddr img ?d f = (if f < 12 then faddr img (D i) f else 0)" for f
    by (auto simp: faddr_def ia g(2))
  show "fmap_ok img (Suc fb) (own(fb := (i, 0))) i ?d (M i)"
    using ok m l g(3) unfolding fmap_ok_def fa ia by (auto intro: taken_old taken_new)
  show "data_ok img ?d (M i) (C i)"
    using fs_okD(3) [OF fs i] part_less [OF fs_okD(3) [OF fs i]] m(1) unfolding data_ok_def fa by simp
  show "owned img n (D(i := ?d)) (M(i := M i)) fb (i, 0)" using i ia by (simp add: owned_def)
  show "f < M i \<and> faddr img ?d f = faddr img (D i) f" if "f < M i" for f using that m fa by simp
qed (use fs_okD(1) [OF fs] fb geometry_take m in auto)

lemma fs_ok_entry:
  fixes D :: "nat \<Rightarrow> dinode"
  assumes fs: "fs_ok img fb own n D M C" and i: "0 < i" "i < n" and m: "12 \<le> M i" "M i < 140" "iaddr (D i) \<noteq> 0" and fb: "fb < 1000"
  defines "e \<equiv> put_u32 (4 * (M i - 12)) (of_nat fb) (img ! iaddr (D i))"
  shows "fs_ok (img[iaddr (D i) := e]) (Suc fb) (own(fb := (i, Suc (M i)))) n (D(i := D i)) (M(i := Suc (M i))) C"
proof (rule fs_ok_take [OF fs i fb])
  let ?a = "iaddr (D i)" and ?img = "img[iaddr (D i) := e]"
  have ok: "fmap_ok img fb own i (D i) (M i)" by (rule fs_okD(2) [OF fs i])
  then have a: "taken fb own ?a (i, 0)" using m by (simp add: fmap_ok_def)
  have g: "geometry img fb" by (rule fs_okD(1) [OF fs])
  then have ai: "?a < fb" "?a < length img" "length (img ! ?a) = 512" "59 \<le> fb" using a fb by (auto simp: taken_def geometry_def)
  have le: "length e = 512" using m ai unfolding e_def by simp
  have "length (?img ! b) = 512" if "b < 1000" for b using g le that by (cases "b = ?a") (auto simp: geometry_def)
  then show "geometry ?img (Suc fb)" using g fb ai(1) by (auto simp: geometry_def)
  have fa: "faddr ?img (D i) f = (if f = M i then fb else faddr img (D i) f)" if "f < 140" for f
  proof -
    have "get_u32 (4 * (f - 12)) e = get_u32 (4 * (f - 12)) (img ! ?a)" if "12 \<le> f" "f \<noteq> M i"
    proof -
      have "f - 12 < M i - 12 \<or> M i - 12 < f - 12" "f - 12 < 128" "M i - 12 < 128" using that \<open>f < 140\<close> m by auto
      then show ?thesis unfolding e_def by (intro get_put_u32_other) (auto simp: ai(3))
    qed
    moreover have "get_u32 (4 * (M i - 12)) e = of_nat fb" unfolding e_def using m ai(3) by (intro get_put_u32_same) simp
    ultimately show ?thesis using m(1) ai(2) fb by (simp add: faddr_def)
  qed
  show "fmap_ok ?img (Suc fb) (own(fb := (i, Suc (M i)))) i (D i) (Suc (M i))"
    unfolding fmap_ok_def
  proof (intro conjI allI impI)
    show "taken (Suc fb) (own(fb := (i, Suc (M i)))) (faddr ?img (D i) f) (i, Suc f)" if "f < Suc (M i)" for f
      using ok that m fa [of f] ai(4) by (cases "f = M i") (auto simp: fmap_ok_def intro: taken_old taken_new)
    show "faddr ?img (D i) f = 0" if "f < 140" "Suc (M i) \<le> f \<and> (f < 12 \<or> ?a \<noteq> 0)" for f
      using ok that m fa [of f] by (auto simp: fmap_ok_def)
  qed (use ok m a in \<open>auto simp: fmap_ok_def intro: taken_old\<close>)
  have "?a \<noteq> faddr img (D i) f" if "f < M i" for f
    using ok a that unfolding fmap_ok_def taken_def by (metis Pair_inject nat.distinct(1))
  then show "data_ok ?img (D i) (Suc (M i)) (C i)"
  proof -
    assume ne: "?a \<noteq> faddr img (D i) f" if "f < M i" for f
    have d: "data_ok img (D i) (M i) (C i)" by (rule fs_okD(3) [OF fs i])
    have "?img ! faddr ?img (D i) (k div 512) ! (k mod 512) = C i ! k" if "k < length (C i)" for k
    proof -
      have f: "k div 512 < M i" by (rule part_less [OF d that])
      then have "faddr ?img (D i) (k div 512) = faddr img (D i) (k div 512)" using fa [of "k div 512"] m(2) by simp
      then show ?thesis using ne [OF f] d that by (simp add: data_ok_def)
    qed
    then show ?thesis using d by (simp add: data_ok_def)
  qed
  show "owned ?img n (D(i := D i)) (M(i := Suc (M i))) fb (i, Suc (M i))" using i fa [of "M i"] m by (simp add: owned_def)
  show "f < Suc (M i) \<and> faddr ?img (D i) f = faddr img (D i) f" if "f < M i" for f using that fa m by simp
  show "?img ! b = img ! b" if "0 < j" "j < n" "j \<noteq> i" "fst (own b) = j" "b < fb" for j b
    using a that by (cases "b = ?a") (auto simp: taken_def)
qed simp

section \<open>Appending keeps the image well formed\<close>

definition cost :: "nat \<Rightarrow> nat" where
  "cost m = m + (if 12 < m then 1 else 0)"

definition state_ok :: "mkfs_state \<Rightarrow> (nat \<Rightarrow> owner) \<Rightarrow> nat \<Rightarrow> (nat \<Rightarrow> dinode) \<Rightarrow> (nat \<Rightarrow> nat) \<Rightarrow> (nat \<Rightarrow> uchar list) \<Rightarrow> bool" where
  "state_ok s own n D M C \<longleftrightarrow> fs_ok (fsimg s) (unat (freeblock s)) own n D M C \<and>
     (\<forall>i. 0 < i \<and> i < n \<longrightarrow> (iaddr (D i) = 0 \<longleftrightarrow> M i \<le> 12))"

text \<open>What the data blocks' writers leave alone: the first 59 blocks, and the rest of the state.\<close>

definition same_meta :: "mkfs_state \<Rightarrow> mkfs_state \<Rightarrow> bool" where
  "same_meta s t \<longleftrightarrow> take 59 (fsimg t) = take 59 (fsimg s) \<and> mkfs_super t = mkfs_super s \<and> freeinode t = freeinode s"

lemma same_meta_refl [simp]: "same_meta s s" and same_meta_trans: "same_meta s t \<Longrightarrow> same_meta t u \<Longrightarrow> same_meta s u"
  by (simp_all add: same_meta_def)

lemma new_block_run:
  assumes "unat (freeblock s) < 1000"
  shows "\<exists>t. new_block s = Ok (of_nat (unat (freeblock s))) t \<and> unat (freeblock t) = Suc (unat (freeblock s)) \<and>
    fsimg t = fsimg s \<and> same_meta s t"
proof -
  have "unat (freeblock s + 1) = Suc (unat (freeblock s))" using assms by (simp add: unat_plus_if')
  then show ?thesis by (simp add: new_block_def same_meta_def)
qed

lemma wsect_run:
  assumes "x < length (fsimg s)" "x < 1000"
  shows "wsect (of_nat x) v s = Ok () (s\<lparr>fsimg := (fsimg s)[x := v]\<rparr>)" "rsect (of_nat x) s = Ok (fsimg s ! x) s"
    "59 \<le> x \<Longrightarrow> same_meta s (s\<lparr>fsimg := (fsimg s)[x := v]\<rparr>)"
  using assms by (simp_all add: wsect_def rsect_def same_meta_def)

lemma fmap_free: "fmap_ok img fb own i d m \<Longrightarrow> m < 140 \<Longrightarrow> m < 12 \<or> iaddr d \<noteq> 0 \<Longrightarrow> faddr img d m = 0"
  by (auto simp: fmap_ok_def)

lemma state_okI:
  assumes "fs_ok (fsimg t) (unat (freeblock t)) own n (D(i := d)) (M(i := m)) C" "state_ok s own' n D M C'" "iaddr d = 0 \<longleftrightarrow> m \<le> 12"
  shows "state_ok t own n (D(i := d)) (M(i := m)) C"
  using assms by (simp add: state_ok_def)

definition block_post :: "nat \<Rightarrow> nat \<Rightarrow> nat \<Rightarrow> (nat \<Rightarrow> dinode) \<Rightarrow> (nat \<Rightarrow> nat) \<Rightarrow> (nat \<Rightarrow> uchar list) \<Rightarrow> nat \<Rightarrow>
    mkfs_state \<Rightarrow> dinode \<Rightarrow> uint \<Rightarrow> mkfs_state \<Rightarrow> bool" where
  "block_post n i f D M C m s d x t \<longleftrightarrow> (\<exists>own. state_ok t own n (D(i := d)) (M(i := m)) C) \<and> x = of_nat (faddr (fsimg t) d f) \<and>
     unat (freeblock t) + cost (M i) = unat (freeblock s) + cost m \<and> same_meta s t \<and> d = (D i)\<lparr>d_addrs := d_addrs d\<rparr>"

lemma block_present:
  assumes s: "state_ok s own n D M C" and i: "0 < i" "i < n" and f: "f < M i"
  shows "\<exists>d x t. iappend_block (D i) f s = Ok (d, x) t \<and> block_post n i f D M C (M i) s d x t"
proof -
  let ?a = "iaddr (D i)"
  have fs: "fs_ok (fsimg s) (unat (freeblock s)) own n D M C" using s by (simp add: state_ok_def)
  note ok = fs_okD(2) [OF fs i]
  have g: "geometry (fsimg s) (unat (freeblock s))" by (rule fs_okD(1) [OF fs])
  have t: "faddr (fsimg s) (D i) f \<noteq> 0" using ok f by (force simp: fmap_ok_def taken_def)
  have post: "block_post n i f D M C (M i) s (D i) (of_nat (faddr (fsimg s) (D i) f)) s"
    using s by (auto simp: block_post_def)
  show ?thesis
  proof (cases "f < 12")
    case True
    then show ?thesis using t post by (auto simp: iappend_block_def faddr_def)
  next
    case False
    then have a: "?a \<noteq> 0" using fmap_ind [OF ok f] by simp
    then have "?a < 1000" "?a < length (fsimg s)" using ok g by (auto simp: fmap_ok_def taken_def geometry_def)
    then have "rsect (d_addrs (D i) ! 12) s = Ok (fsimg s ! ?a) s" by (simp add: rsect_def iaddr_def)
    moreover have "d_addrs (D i) ! 12 \<noteq> 0" "get_u32 (4 * (f - 12)) (fsimg s ! ?a) \<noteq> 0"
      using a t False by (auto simp: iaddr_def faddr_def)
    ultimately show ?thesis using False post by (simp add: iappend_block_def faddr_def)
  qed
qed

lemma block_direct:
  assumes s: "state_ok s own n D M C" and i: "0 < i" "i < n" and m: "M i < 12" and room: "unat (freeblock s) < 1000"
  shows "\<exists>d x t. iappend_block (D i) (M i) s = Ok (d, x) t \<and> block_post n i (M i) D M C (Suc (M i)) s d x t"
proof -
  let ?fb = "unat (freeblock s)" let ?d = "with_addr (M i) ?fb (D i)"
  have fs: "fs_ok (fsimg s) ?fb own n D M C" using s by (simp add: state_ok_def)
  have f: "fmap_ok (fsimg s) ?fb own i (D i) (M i)" by (rule fs_okD(2) [OF fs i])
  have ok: "length (d_addrs (D i)) = 13" using f by (simp add: fmap_ok_def)
  have z: "d_addrs (D i) ! M i = 0" using fmap_free [OF f] m by (simp add: faddr_def unat_eq_zero)
  have a: "iaddr (D i) = 0" using s i m by (simp add: state_ok_def)
  obtain t where t: "new_block s = Ok (of_nat ?fb) t" "unat (freeblock t) = Suc ?fb" "fsimg t = fsimg s" "same_meta s t"
    using new_block_run [OF room] by blast
  have ia: "iaddr ?d = 0" using a m by (simp add: iaddr_def)
  have fs': "fs_ok (fsimg t) (unat (freeblock t)) (own(?fb := (i, Suc (M i)))) n (D(i := ?d)) (M(i := Suc (M i))) C"
    unfolding t(2,3) by (rule fs_ok_direct [OF fs i m room])
  have "state_ok t (own(?fb := (i, Suc (M i)))) n (D(i := ?d)) (M(i := Suc (M i))) C"
    by (rule state_okI [OF fs' s]) (use m ia in simp)
  moreover have "faddr (fsimg t) ?d (M i) = ?fb" using m ok room by (simp add: faddr_def)
  moreover have "Suc ?fb + cost (M i) = ?fb + cost (Suc (M i))" using m by (simp add: cost_def)
  ultimately have "block_post n i (M i) D M C (Suc (M i)) s ?d (of_nat ?fb) t"
    unfolding block_post_def t(2) using t(4) by (intro conjI) (blast, simp_all)
  moreover have "iappend_block (D i) (M i) s = Ok (?d, of_nat ?fb) t"
    using m ok z by (simp add: iappend_block_def bind_assoc bind_Ok [where m = new_block, OF t(1)])
  ultimately show ?thesis by blast
qed

text \<open>The part of a file behind the direct blocks, once it has an indirect block.\<close>

definition far_block :: "dinode \<Rightarrow> nat \<Rightarrow> (mkfs_state, dinode \<times> uint) op" where
  "far_block d f =
     bind (rsect (d_addrs d ! 12)) (\<lambda>indirect.
     bind (if get_u32 (4 * (f - 12)) indirect = 0 then
             bind new_block (\<lambda>b. let indirect = put_u32 (4 * (f - 12)) b indirect in
               bind (wsect (d_addrs d ! 12) indirect) (\<lambda>_. return indirect))
           else return indirect) (\<lambda>indirect.
     return (d, get_u32 (4 * (f - 12)) indirect)))"

lemma iappend_block_far:
  assumes "12 \<le> f"
  shows "iappend_block d f = bind (if d_addrs d ! 12 = 0 then bind new_block (\<lambda>b. return (d\<lparr>d_addrs := (d_addrs d)[12 := b]\<rparr>))
    else return d) (\<lambda>d. far_block d f)"
proof -
  have "\<not> f < NDIRECT" using assms by simp
  show ?thesis unfolding iappend_block_def far_block_def xint_id if_not_P [OF \<open>\<not> f < NDIRECT\<close>] unfolding NDIRECT_def by (rule refl)
qed

lemma entry_run:
  assumes s: "fs_ok (fsimg s) (unat (freeblock s)) own n D M C" and i: "0 < i" "i < n"
    and m: "12 \<le> M i" "M i < 140" "iaddr (D i) \<noteq> 0" and room: "unat (freeblock s) < 1000"
  defines "e \<equiv> put_u32 (4 * (M i - 12)) (of_nat (unat (freeblock s))) (fsimg s ! iaddr (D i))"
  shows "\<exists>t. far_block (D i) (M i) s =
        Ok (D i, of_nat (unat (freeblock s))) t \<and>
      fs_ok (fsimg t) (unat (freeblock t)) (own(unat (freeblock s) := (i, Suc (M i)))) n D (M(i := Suc (M i))) C \<and>
      faddr (fsimg t) (D i) (M i) = unat (freeblock s) \<and> unat (freeblock t) = Suc (unat (freeblock s)) \<and> same_meta s t"
proof -
  let ?a = "iaddr (D i)" and ?fb = "unat (freeblock s)"
  have f: "fmap_ok (fsimg s) ?fb own i (D i) (M i)" by (rule fs_okD(2) [OF s i])
  have g: "geometry (fsimg s) ?fb" by (rule fs_okD(1) [OF s])
  have a: "59 \<le> ?a" "?a < 1000" "?a < length (fsimg s)" "length (fsimg s ! ?a) = 512"
    using f m(3) g by (auto simp: fmap_ok_def taken_def geometry_def)
  have w: "d_addrs (D i) ! 12 = of_nat ?a" by (simp add: iaddr_def)
  have z: "get_u32 (4 * (M i - 12)) (fsimg s ! ?a) = 0" using fmap_free [OF f m(2)] m by (simp add: faddr_def unat_eq_zero)
  obtain u where u: "new_block s = Ok (of_nat ?fb) u" "unat (freeblock u) = Suc ?fb" "fsimg u = fsimg s" "same_meta s u"
    using new_block_run [OF room] by blast
  let ?t = "u\<lparr>fsimg := (fsimg s)[?a := e]\<rparr>"
  have wr: "wsect (of_nat ?a) e u = Ok () ?t" using wsect_run(1) [of ?a u e] a u(3) by simp
  have sm: "same_meta s ?t" using same_meta_trans [OF u(4) wsect_run(3) [of ?a u e]] a u(3) by simp
  have fs: "fs_ok ((fsimg s)[?a := e]) (Suc ?fb) (own(?fb := (i, Suc (M i)))) n D (M(i := Suc (M i))) C"
    using fs_ok_entry [OF s i m room] unfolding e_def by simp
  have le: "4 * (M i - 12) + 4 \<le> length (fsimg s ! ?a)" using m a(4) by simp
  have ge: "get_u32 (4 * (M i - 12)) e = of_nat ?fb" unfolding e_def by (rule get_put_u32_same [OF le])
  have "faddr (fsimg ?t) (D i) (M i) = ?fb" using m(1) ge a(3) room by (simp add: faddr_def)
  moreover have "rsect (of_nat ?a) s = Ok (fsimg s ! ?a) s" by (rule wsect_run(2) [OF a(3,2)])
  moreover have "put_u32 (4 * (M i - 12)) (freeblock s) (fsimg s ! ?a) = e" by (simp add: e_def)
  ultimately show ?thesis using fs sm u(2) wr ge z
    by (intro exI [of _ ?t]) (simp add: far_block_def w Let_def bind_assoc bind_Ok [where m = new_block, OF u(1)])
qed

lemma block_far:
  assumes s: "state_ok s own n D M C" and i: "0 < i" "i < n" and m: "12 \<le> M i" "M i < 140"
    and room: "unat (freeblock s) + cost (Suc (M i)) \<le> 1000 + cost (M i)"
  shows "\<exists>d x t. iappend_block (D i) (M i) s = Ok (d, x) t \<and> block_post n i (M i) D M C (Suc (M i)) s d x t"
proof (cases "iaddr (D i) = 0")
  case False
  have fs: "fs_ok (fsimg s) (unat (freeblock s)) own n D M C" and m12: "12 < M i"
    using s i False by (auto simp: state_ok_def)
  have "unat (freeblock s) < 1000" using room m12 by (simp add: cost_def)
  from entry_run [OF fs i m False this] obtain t own' where t:
    "iappend_block (D i) (M i) s = Ok (D i, of_nat (unat (freeblock s))) t"
    "fs_ok (fsimg t) (unat (freeblock t)) own' n D (M(i := Suc (M i))) C"
    "faddr (fsimg t) (D i) (M i) = unat (freeblock s)" "unat (freeblock t) = Suc (unat (freeblock s))" "same_meta s t"
    using False m(1) by (auto simp: iappend_block_far iaddr_def unat_eq_zero)
  have "state_ok t own' n (D(i := D i)) (M(i := Suc (M i))) C"
    by (rule state_okI [OF _ s]) (use t(2) False m in simp_all)
  then have "block_post n i (M i) D M C (Suc (M i)) s (D i) (of_nat (unat (freeblock s))) t"
    unfolding block_post_def using t m12 by (auto simp: cost_def)
  with t(1) show ?thesis by blast
next
  case True
  let ?fb = "unat (freeblock s)" let ?d = "with_addr 12 ?fb (D i)"
  have fs: "fs_ok (fsimg s) ?fb own n D M C" and m12: "M i = 12" using s i m True by (auto simp: state_ok_def)
  have r: "?fb < 1000" "Suc ?fb < 1000" using room m12 by (simp_all add: cost_def)
  obtain u where u: "new_block s = Ok (of_nat ?fb) u" "unat (freeblock u) = Suc ?fb" "fsimg u = fsimg s" "same_meta s u"
    using new_block_run [OF r(1)] by blast
  have l: "length (d_addrs (D i)) = 13" and g: "59 \<le> ?fb" using fs_okD(1,2) [OF fs] i by (auto simp: fmap_ok_def geometry_def)
  have ia: "iaddr ?d = ?fb" using l r(1) by (simp add: iaddr_def)
  have fsu: "fs_ok (fsimg u) (unat (freeblock u)) (own(?fb := (i, 0))) n (D(i := ?d)) M C"
    using fs_ok_indirect [OF fs i m12 True r(1)] by (simp add: u)
  have "unat (freeblock u) < 1000" "iaddr ((D(i := ?d)) i) \<noteq> 0" using r u(2) ia g by simp_all
  from entry_run [OF fsu i m this(2,1), unfolded fun_upd_same] obtain t own' where t:
    "far_block ?d (M i) u = Ok (?d, of_nat (unat (freeblock u))) t"
    "fs_ok (fsimg t) (unat (freeblock t)) own' n (D(i := ?d)) (M(i := Suc (M i))) C"
    "faddr (fsimg t) ?d (M i) = unat (freeblock u)" "unat (freeblock t) = Suc (unat (freeblock u))" "same_meta u t"
    by blast
  have run: "iappend_block (D i) (M i) s = Ok (?d, of_nat (unat (freeblock u))) t"
    using True t(1) by (simp add: iappend_block_far [OF m(1)] iaddr_def unat_eq_zero bind_assoc bind_Ok [where m = new_block, OF u(1)])
  have "state_ok t own' n (D(i := ?d)) (M(i := Suc (M i))) C"
    by (rule state_okI [OF t(2) s]) (use ia g m in simp)
  then have "block_post n i (M i) D M C (Suc (M i)) s ?d (of_nat (unat (freeblock u))) t"
    unfolding block_post_def using t u m12 same_meta_trans [OF u(4) t(5)] by (auto simp: cost_def)
  with run show ?thesis by blast
qed

lemma block_run:
  assumes s: "state_ok s own n D M C" and i: "0 < i" "i < n" and f: "f \<le> M i" "f < 140"
    and room: "unat (freeblock s) + cost (max (M i) (Suc f)) \<le> 1000 + cost (M i)"
  shows "\<exists>d x t. iappend_block (D i) f s = Ok (d, x) t \<and> block_post n i f D M C (max (M i) (Suc f)) s d x t"
proof (cases "f < M i")
  case True
  then show ?thesis using block_present [OF s i] by (simp add: max_absorb1)
next
  case False
  then have f: "f = M i" using f by simp
  show ?thesis
  proof (cases "M i < 12")
    case True
    then show ?thesis using block_direct [OF s i True] room f by (simp add: cost_def max_absorb2)
  next
    case False
    then show ?thesis using block_far [OF s i] room f \<open>f < 140\<close> by (simp add: max_absorb2)
  qed
qed

text \<open>The number of blocks a file of \<open>k\<close> bytes needs.\<close>

definition parts :: "nat \<Rightarrow> nat" where
  "parts k = (k + 511) div 512"

lemma parts_in: "512 * f < k \<Longrightarrow> k \<le> 512 * Suc f \<Longrightarrow> parts k = Suc f"
  unfolding parts_def by (intro div_nat_eqI) auto

lemma parts_mono: "j \<le> k \<Longrightarrow> parts j \<le> parts k"
  unfolding parts_def by (intro div_le_mono) simp

lemma parts_bounds: "k div 512 \<le> parts k" "parts k \<le> Suc (k div 512)" "k \<le> 512 * parts k"
  unfolding parts_def by auto

lemma cost_mono: "j \<le> k \<Longrightarrow> cost j \<le> cost k"
  by (simp add: cost_def)

lemma write_part:
  assumes fs: "fs_ok img fb own n D M C" and i: "0 < i" "i < n" and m: "M i = Suc f"
    and c: "512 * f \<le> length (C i)" "length (C i) + length q \<le> 512 * Suc f"
  defines "x \<equiv> faddr img (D i) f"
  shows "fs_ok (img[x := splice (length (C i) - f * 512) q (img ! x)]) fb own n D M (C(i := C i @ q))"
  unfolding x_def
proof (rule fs_ok_write [OF fs i])
  have d: "data_ok img (D i) (M i) (C i)" by (rule fs_okD(3) [OF fs i])
  have "taken fb own x (i, Suc f)" using fs_okD(2) [OF fs i] m by (simp add: fmap_ok_def x_def)
  then have lx: "length (img ! faddr img (D i) f) = 512" using fs_okD(1) [OF fs] by (auto simp: taken_def geometry_def x_def)
  let ?o = "length (C i) - f * 512"
  have o: "?o + length q \<le> 512" using c by simp
  then show "length (splice ?o q (img ! faddr img (D i) f)) = 512" using lx by simp
  fix k assume k: "k < length (C i @ q)"
  show "splice ?o q (img ! faddr img (D i) f) ! (k mod 512) = (C i @ q) ! k" if f: "k div 512 = f"
  proof -
    have km: "k = 512 * f + k mod 512" using f by (metis mult_div_mod_eq)
    show ?thesis
    proof (cases "k < length (C i)")
      case True
      then have "k mod 512 < ?o" using km c(1) by linarith
      moreover have "img ! faddr img (D i) f ! (k mod 512) = C i ! k" using d True f by (auto simp: data_ok_def)
      ultimately show ?thesis using True o lx by (simp add: nth_splice nth_append)
    next
      case False
      then have "?o \<le> k mod 512" "k mod 512 < ?o + length q" "k mod 512 - ?o = k - length (C i)" using km c(1) k by auto
      then show ?thesis using False o lx by (simp add: nth_splice nth_append)
    qed
  qed
  show "k < length (C i) \<and> C i ! k = (C i @ q) ! k" if f: "k div 512 \<noteq> f"
  proof -
    have "k < 512 * Suc f" using k c(2) by simp
    then have "k div 512 < Suc f" by (simp add: less_mult_imp_div_less mult.commute)
    then have "k div 512 < f" using f by simp
    then have "k < 512 * f" by (metis div_less_iff_less_mult mult.commute zero_less_numeral)
    then have "k < length (C i)" using c(1) by simp
    then show ?thesis by (simp add: nth_append)
  qed
qed (use m c in auto)

text \<open>After bytes \<open>q\<close> were appended to the file of \<open>i\<close>.\<close>

definition grown :: "nat \<Rightarrow> nat \<Rightarrow> (nat \<Rightarrow> dinode) \<Rightarrow> (nat \<Rightarrow> nat) \<Rightarrow> (nat \<Rightarrow> uchar list) \<Rightarrow> uchar list \<Rightarrow> mkfs_state \<Rightarrow> dinode \<Rightarrow> mkfs_state \<Rightarrow> bool" where
  "grown n i D M C q s d t \<longleftrightarrow> (let m = parts (length (C i @ q)) in
     (\<exists>own. state_ok t own n (D(i := d)) (M(i := m)) (C(i := C i @ q))) \<and>
     unat (freeblock t) + cost (M i) = unat (freeblock s) + cost m \<and> same_meta s t \<and> d = (D i)\<lparr>d_addrs := d_addrs d\<rparr>)"

text \<open>One round of the loop: the part that holds the end of the file gets some more bytes.\<close>

lemma append_round:
  assumes s: "state_ok s own n D M C" and i: "0 < i" "i < n" and M: "M i = parts (length (C i))"
    and f: "f = length (C i) div 512" "f < 140" and q: "q \<noteq> []" "length (C i) + length q \<le> 512 * Suc f"
    and room: "unat (freeblock s) + cost (Suc f) \<le> 1000 + cost (M i)"
  shows "\<exists>d x u t. iappend_block (D i) f s = Ok (d, x) u \<and> rsect x u = Ok (fsimg u ! unat x) u \<and>
    wsect x (splice (length (C i) - f * 512) q (fsimg u ! unat x)) u = Ok () t \<and> grown n i D M C q s d t"
proof -
  have fl: "512 * f \<le> length (C i)" using f(1) by simp
  have m: "f \<le> M i" "max (M i) (Suc f) = Suc f" using parts_bounds(1,2) [of "length (C i)"] M f(1) by auto
  have "0 < length q" using q(1) by simp
  then have p: "parts (length (C i @ q)) = Suc f" using q(2) fl unfolding length_append by (intro parts_in) linarith+
  obtain d x u where u: "iappend_block (D i) f s = Ok (d, x) u" "block_post n i f D M C (Suc f) s d x u"
    using block_run [OF s i m(1) f(2)] room m(2) by auto
  then obtain own' where st: "state_ok u own' n (D(i := d)) (M(i := Suc f)) C" and x: "x = of_nat (faddr (fsimg u) d f)"
    and fb: "unat (freeblock u) + cost (M i) = unat (freeblock s) + cost (Suc f)" "same_meta s u" "d = (D i)\<lparr>d_addrs := d_addrs d\<rparr>"
    unfolding block_post_def by blast
  have fs: "fs_ok (fsimg u) (unat (freeblock u)) own' n (D(i := d)) (M(i := Suc f)) C" using st by (simp add: state_ok_def)
  let ?x = "faddr (fsimg u) d f"
  have "taken (unat (freeblock u)) own' ?x (i, Suc f)" using fs_okD(2) [OF fs i] by (simp add: fmap_ok_def)
  then have xr: "59 \<le> ?x" "?x < 1000" "?x < length (fsimg u)" using fs_okD(1) [OF fs] by (auto simp: taken_def geometry_def)
  then have ux: "unat x = ?x" using x by simp
  let ?v = "splice (length (C i) - f * 512) q (fsimg u ! ?x)"
  let ?t = "u\<lparr>fsimg := (fsimg u)[?x := ?v]\<rparr>"
  have io: "wsect x ?v u = Ok () ?t" "rsect x u = Ok (fsimg u ! ?x) u" "same_meta u ?t"
    using wsect_run [OF xr(3,2)] xr(1) x by simp_all
  have "fs_ok ((fsimg u)[?x := ?v]) (unat (freeblock u)) own' n (D(i := d)) (M(i := Suc f)) (C(i := C i @ q))"
    using write_part [OF fs i _ fl q(2)] by simp
  then have "state_ok ?t own' n (D(i := d)) (M(i := Suc f)) (C(i := C i @ q))" using st by (simp add: state_ok_def)
  then have "grown n i D M C q s d ?t"
    unfolding grown_def p Let_def using fb same_meta_trans [OF fb(2) io(3)] by auto
  then show ?thesis using u(1) io(1,2)
    by (intro exI [of _ d] exI [of _ x] exI [of _ u] exI [of _ ?t]) (simp add: ux)
qed

lemma only_addrs: "d = a\<lparr>d_addrs := x\<rparr> \<Longrightarrow> e = d\<lparr>d_addrs := y\<rparr> \<Longrightarrow> e = a\<lparr>d_addrs := y\<rparr>"
  by simp

lemma iappend_loop_run:
  "state_ok s own n D M C \<Longrightarrow> 0 < i \<Longrightarrow> i < n \<Longrightarrow> M i = parts (length (C i)) \<Longrightarrow> length (C i) + length p \<le> 512 * 140 \<Longrightarrow>
    unat (freeblock s) + cost (parts (length (C i) + length p)) \<le> 1000 + cost (M i) \<Longrightarrow> length p < k \<Longrightarrow>
    \<exists>d t. iappend_loop k (D i) (length (C i)) p s = Ok (d, length (C i) + length p) t \<and> grown n i D M C p s d t"
proof (induction k arbitrary: s own D M C p)
  case (Suc k)
  show ?case
  proof (cases "p = []")
    case True
    have "M(i := parts (length (C i))) = M" using Suc.prems(4) by (intro fun_upd_idem) simp
    then show ?thesis using True Suc.prems(1,4) by (auto simp: grown_def)
  next
    case False
    define f where "f = length (C i) div 512"
    define n1 where "n1 = min (length p) ((f + 1) * BSIZE - length (C i))"
    have len: "512 * f \<le> length (C i)" "length (C i) < 512 * Suc f" unfolding f_def by auto
    have n1: "0 < n1" "n1 \<le> length p" "length (C i) + n1 \<le> 512 * Suc f" using False len by (auto simp: n1_def)
    have f140: "f < 140" using Suc.prems(5) False len by (cases p) (auto simp: f_def less_mult_imp_div_less)
    have q: "take n1 p \<noteq> []" "length (take n1 p) = n1" using n1 False by auto
    have pm: "parts (length (C i) + n1) = Suc f" using n1 len by (intro parts_in) auto
    have c: "cost (Suc f) \<le> cost (parts (length (C i) + length p))" using n1(2) unfolding pm [symmetric] by (intro cost_mono parts_mono) simp
    have room: "unat (freeblock s) + cost (Suc f) \<le> 1000 + cost (M i)" using c Suc.prems(6) by simp
    have q2: "length (C i) + length (take n1 p) \<le> 512 * Suc f" using n1(3) q(2) by simp
    obtain d x u t where r: "iappend_block (D i) f s = Ok (d, x) u" "rsect x u = Ok (fsimg u ! unat x) u"
      "wsect x (splice (length (C i) - f * 512) (take n1 p) (fsimg u ! unat x)) u = Ok () t" "grown n i D M C (take n1 p) s d t"
      using append_round [OF Suc.prems(1-4) f_def f140 q(1) q2 room] by blast
    have pt: "parts (length (C i @ take n1 p)) = Suc f" unfolding length_append q(2) by (rule pm)
    from r(4) obtain own' where t: "state_ok t own' n (D(i := d)) (M(i := Suc f)) (C(i := C i @ take n1 p))"
      "unat (freeblock t) + cost (M i) = unat (freeblock s) + cost (Suc f)" "same_meta s t" "d = (D i)\<lparr>d_addrs := d_addrs d\<rparr>"
      unfolding grown_def Let_def pt by blast
    have l: "length (C i @ take n1 p) + length (drop n1 p) = length (C i) + length p" using n1(2) by simp
    have h: "(M(i := Suc f)) i = parts (length ((C(i := C i @ take n1 p)) i))"
      "length ((C(i := C i @ take n1 p)) i) + length (drop n1 p) \<le> 512 * 140"
      "unat (freeblock t) + cost (parts (length ((C(i := C i @ take n1 p)) i) + length (drop n1 p))) \<le> 1000 + cost ((M(i := Suc f)) i)"
      "length (drop n1 p) < k"
      unfolding fun_upd_same l pt using Suc.prems(5-7) t(2) n1(1,2) by auto
    obtain e v where v: "iappend_loop k d (length (C i @ take n1 p)) (drop n1 p) t = Ok (e, length (C i) + length p) v"
      "grown n i (D(i := d)) (M(i := Suc f)) (C(i := C i @ take n1 p)) (drop n1 p) t e v"
      using Suc.IH [OF t(1) Suc.prems(2,3) h, unfolded fun_upd_same l] by blast
    have "iappend_loop (Suc k) (D i) (length (C i)) p s = Ok (e, length (C i) + length p) v"
      using False f140 v(1) r q(2) by (simp add: Let_def f_def [symmetric] n1_def [symmetric, simplified] add.commute del: take_all_iff)
    moreover have "grown n i D M C p s e v"
      using v(2) t(2,3) same_meta_trans [OF t(3)] only_addrs [OF t(4)] unfolding grown_def Let_def by (auto simp: l)
    ultimately show ?thesis by blast
  qed
qed simp

section \<open>The inode table\<close>

definition dnode :: "block list \<Rightarrow> nat \<Rightarrow> dinode" where
  "dnode img i = dinode_at (of_nat i) (img ! (32 + i div 8))"

text \<open>
  Between two calls of the program the inodes are on the disk: inode \<open>i\<close> has type \<open>T i\<close> and the
  file \<open>C i\<close>, and the parts of the file are those its size needs.
\<close>

abbreviation sizes :: "(nat \<Rightarrow> uchar list) \<Rightarrow> nat \<Rightarrow> nat" where
  "sizes C \<equiv> \<lambda>i. parts (length (C i))"

definition built :: "mkfs_state \<Rightarrow> nat \<Rightarrow> (nat \<Rightarrow> ushort) \<Rightarrow> (nat \<Rightarrow> uchar list) \<Rightarrow> bool" where
  "built s n T C \<longleftrightarrow> (\<exists>own. state_ok s own n (dnode (fsimg s)) (sizes C) C) \<and> freeinode s = of_nat n \<and> 0 < n \<and> n \<le> 200 \<and>
     mkfs_super s = mkfs_sb \<and> superblock_of (fsimg s ! 1) = mkfs_sb \<and>
     (\<forall>i. 0 < i \<and> i < n \<longrightarrow> d_type (dnode (fsimg s) i) = T i \<and> d_nlink (dnode (fsimg s) i) = 1 \<and>
        d_size (dnode (fsimg s) i) = of_nat (length (C i)))"

lemma addrs_cong:
  assumes "d_addrs d' = d_addrs d"
  shows "iaddr d' = iaddr d" "faddr img d' = faddr img d" "fmap_ok img fb own i d' m = fmap_ok img fb own i d m" "data_ok img d' m c = data_ok img d m c"
proof -
  show i: "iaddr d' = iaddr d" using assms by (simp add: iaddr_def)
  show f: "faddr img d' = faddr img d" using assms i by (simp add: faddr_def fun_eq_iff)
  show "fmap_ok img fb own i d' m = fmap_ok img fb own i d m" "data_ok img d' m c = data_ok img d m c"
    using assms by (simp_all add: fmap_ok_def data_ok_def i f)
qed

lemma state_ok_cong:
  assumes s: "state_ok s own n D M C" "fsimg t = fsimg s" "freeblock t = freeblock s"
    and D: "\<And>i. 0 < i \<Longrightarrow> i < n \<Longrightarrow> d_addrs (D' i) = d_addrs (D i)"
    and e: "\<And>i. 0 < i \<Longrightarrow> i < n \<Longrightarrow> M' i = M i" "\<And>i. 0 < i \<Longrightarrow> i < n \<Longrightarrow> C' i = C i"
  shows "state_ok t own n D' M' C'"
proof -
  note a = addrs_cong [OF D]
  have "owned (fsimg s) n D' M' b r = owned (fsimg s) n D M b r" for b r
    using a(1,2) e(1) by (auto simp: owned_def split: prod.splits nat.splits)
  then show ?thesis using s a e by (simp add: state_ok_def fs_ok_def)
qed

lemma inode_no: "i < 208 \<Longrightarrow> 32 + i div 8 < 58" "i < 208 \<Longrightarrow> unat (of_nat i :: uint) = i"
  by (auto simp: less_mult_imp_div_less unat_of_nat take_bit_nat_eq_self)

lemma inode_block_no:
  assumes "i < 208"
  shows "IBLOCK (of_nat i) mkfs_sb = of_nat (32 + i div 8)"
proof -
  have "unat (of_nat i div 8 :: uint) = i div 8" using inode_no(2) [OF assms] by (simp add: unat_div)
  then have "(of_nat i div 8 :: uint) = of_nat (i div 8)" using inode_no(1) [OF assms] by (simp add: unat_eq_iff_word [symmetric] unat_of_nat take_bit_nat_eq_self)
  then show ?thesis by (simp add: IBLOCK_def mkfs_sb_def add.commute)
qed

lemma dnode_put:
  assumes "geometry img fb" "i < 208" "length (d_addrs d) = 13"
  defines "img' \<equiv> img[32 + i div 8 := put_dinode (of_nat i) d (img ! (32 + i div 8))]"
  shows "dnode img' i = d" "j < 208 \<Longrightarrow> j \<noteq> i \<Longrightarrow> dnode img' j = dnode img j" "img' ! 1 = img ! 1"
proof -
  have b: "32 + i div 8 < length img" "length (img ! (32 + i div 8)) = 512" using inode_no(1) [OF assms(2)] assms(1) by (auto simp: geometry_def)
  show "dnode img' i = d" using b assms(3) by (simp add: dnode_def img'_def dinode_at_put)
  show "img' ! 1 = img ! 1" by (simp add: img'_def)
  show "dnode img' j = dnode img j" if j: "j < 208" "j \<noteq> i"
  proof (cases "j div 8 = i div 8")
    case True
    then have "j mod 8 \<noteq> i mod 8" using j(2) by (metis mult_div_mod_eq)
    then show ?thesis using True b assms(3) inode_no(2) [OF j(1)] inode_no(2) [OF assms(2)]
      by (simp add: dnode_def img'_def dinode_at_put_other)
  qed (simp add: dnode_def img'_def)
qed

lemma inode_io:
  assumes "geometry (fsimg s) fb" "i < 208" "mkfs_super s = mkfs_sb"
  shows "rinode (of_nat i) s = Ok (dnode (fsimg s) i) s"
    "winode (of_nat i) d s = Ok () (s\<lparr>fsimg := (fsimg s)[32 + i div 8 := put_dinode (of_nat i) d (fsimg s ! (32 + i div 8))]\<rparr>)"
proof -
  have b: "32 + i div 8 < length (fsimg s)" "32 + i div 8 < 1000" using inode_no(1) [OF assms(2)] assms(1) by (auto simp: geometry_def)
  note io = wsect_run(1,2) [OF b]
  have bn: "IBLOCK (of_nat i) (mkfs_super s) = of_nat (32 + i div 8)" unfolding assms(3) by (rule inode_block_no [OF assms(2)])
  have r: "bind (gets (\<lambda>s. IBLOCK (of_nat i) (mkfs_super s))) (\<lambda>bn. bind (rsect bn) (f bn)) s = f (of_nat (32 + i div 8)) (fsimg s ! (32 + i div 8)) s"
    for f :: "uint \<Rightarrow> block \<Rightarrow> (mkfs_state, 'x) op"
    using bind_Ok [where m = "rsect (of_nat (32 + i div 8))", OF io(2)] bn by (simp del: of_nat_add)
  show "rinode (of_nat i) s = Ok (dnode (fsimg s) i) s"
    unfolding rinode_def r by (simp add: dnode_def dinode_at_def)
  show "winode (of_nat i) d s = Ok () (s\<lparr>fsimg := (fsimg s)[32 + i div 8 := put_dinode (of_nat i) d (fsimg s ! (32 + i div 8))]\<rparr>)"
    unfolding winode_def r put_dinode_def by (rule io(1))
qed

lemma dnode_meta: "same_meta s t \<Longrightarrow> i < 208 \<Longrightarrow> dnode (fsimg t) i = dnode (fsimg s) i" "same_meta s t \<Longrightarrow> fsimg t ! 1 = fsimg s ! 1"
proof -
  have n: "fsimg t ! b = fsimg s ! b" if "same_meta s t" "b < 59" for b
    using that unfolding same_meta_def by (metis nth_take)
  show "dnode (fsimg t) i = dnode (fsimg s) i" if "same_meta s t" "i < 208"
    using n [OF that(1), of "32 + i div 8"] inode_no(1) [OF that(2)] by (simp add: dnode_def)
  show "fsimg t ! 1 = fsimg s ! 1" if "same_meta s t" by (rule n [OF that]) simp
qed

lemma builtD:
  assumes "built s n T C"
  shows "\<exists>own. state_ok s own n (dnode (fsimg s)) (sizes C) C" "geometry (fsimg s) (unat (freeblock s))" "freeinode s = of_nat n"
    "0 < n" "n \<le> 200" "mkfs_super s = mkfs_sb" "superblock_of (fsimg s ! 1) = mkfs_sb"
    "0 < i \<Longrightarrow> i < n \<Longrightarrow> length (d_addrs (dnode (fsimg s) i)) = 13"
    "0 < i \<Longrightarrow> i < n \<Longrightarrow> d_type (dnode (fsimg s) i) = T i \<and> d_nlink (dnode (fsimg s) i) = 1 \<and> d_size (dnode (fsimg s) i) = of_nat (length (C i))"
  using assms by (auto simp: built_def state_ok_def fs_ok_def fmap_ok_def)

lemma iappend_run:
  assumes b: "built s n T C" and i: "0 < i" "i < n" and len: "length (C i) + length p \<le> 512 * 140"
    and room: "unat (freeblock s) + cost (parts (length (C i) + length p)) \<le> 1000 + cost (parts (length (C i)))"
  shows "\<exists>t. iappend (of_nat i) p s = Ok () t \<and> built t n T (C(i := C i @ p)) \<and>
    unat (freeblock t) + cost (parts (length (C i))) = unat (freeblock s) + cost (parts (length (C i) + length p))"
proof -
  let ?D = "dnode (fsimg s)" and ?C = "C(i := C i @ p)"
  obtain own where st: "state_ok s own n ?D (sizes C) C" using builtD(1) [OF b] by blast
  have i208: "i < 208" using i builtD(5) [OF b] by simp
  note rd = inode_io(1) [OF builtD(2) [OF b] i208 builtD(6) [OF b]]
  have sz: "unat (d_size (?D i)) = length (C i)" using builtD(9) [OF b i] len by (simp add: unat_of_nat take_bit_nat_eq_self)
  obtain d u where u: "iappend_loop (Suc (length p)) (?D i) (length (C i)) p s = Ok (d, length (C i) + length p) u"
    "grown n i ?D (sizes C) C p s d u"
    using iappend_loop_run [OF st i refl len room] by blast
  then obtain own' where g: "state_ok u own' n (?D(i := d)) ((sizes C)(i := parts (length (C i @ p)))) ?C"
    "unat (freeblock u) + cost (parts (length (C i))) = unat (freeblock s) + cost (parts (length (C i) + length p))"
    "same_meta s u" "d = (?D i)\<lparr>d_addrs := d_addrs d\<rparr>"
    unfolding grown_def Let_def by auto
  have fsu: "fs_ok (fsimg u) (unat (freeblock u)) own' n (?D(i := d)) ((sizes C)(i := parts (length (C i @ p)))) ?C"
    using g(1) by (simp add: state_ok_def)
  have sup: "mkfs_super u = mkfs_sb" "freeinode u = of_nat n" using g(3) builtD(3,6) [OF b] by (simp_all add: same_meta_def)
  let ?d = "d\<lparr>d_size := of_nat (length (C i) + length p)\<rparr>"
  have l: "length (d_addrs d) = 13" using fs_okD(2) [OF fsu i] by (simp add: fmap_ok_def)
  define img where "img = (fsimg u)[32 + i div 8 := put_dinode (of_nat i) ?d (fsimg u ! (32 + i div 8))]"
  let ?t = "u\<lparr>fsimg := img\<rparr>"
  note gu = fs_okD(1) [OF fsu]
  have wr: "winode (of_nat i) ?d u = Ok () ?t" unfolding img_def by (rule inode_io(2) [OF gu i208 sup(1)])
  have dn: "dnode img i = ?d" "img ! 1 = fsimg u ! 1" "\<And>j. j < 208 \<Longrightarrow> j \<noteq> i \<Longrightarrow> dnode img j = ?D j"
    using dnode_put [OF gu i208, of ?d] l dnode_meta(1) [OF g(3)] unfolding img_def by simp_all
  have n: "j < n \<Longrightarrow> j < 208" for j using builtD(5) [OF b] by simp
  have blen: "length (fsimg u ! (32 + i div 8)) = 512" using gu inode_no(1) [OF i208] by (simp add: geometry_def)
  have "fs_ok img (unat (freeblock u)) own' n (?D(i := d)) ((sizes C)(i := parts (length (C i @ p)))) ?C"
    unfolding img_def by (rule fs_ok_meta [OF fsu]) (use inode_no(1) [OF i208] blen l in auto)
  then have "state_ok ?t own' n (?D(i := d)) ((sizes C)(i := parts (length (C i @ p)))) ?C" using g(1) by (simp add: state_ok_def)
  then have "state_ok ?t own' n (dnode img) (sizes ?C) ?C"
    by (rule state_ok_cong) (use dn n in auto)
  moreover have "iappend (of_nat i) p s = Ok () ?t"
    using u(1) wr by (simp add: iappend_def bind_Ok [where m = "rinode _", OF rd] sz del: iappend_loop.simps)
  moreover have "d_type d = d_type (?D i)" "d_nlink d = d_nlink (?D i)" using g(4) by (metis dinode.select_convs dinode.surjective dinode.update_convs(6))+
  ultimately show ?thesis
    using b g(2) sup dn n dnode_meta(2) [OF g(3)] by (intro exI [of _ ?t]) (auto simp: built_def)
qed

definition empty_dinode :: "ushort \<Rightarrow> dinode" where
  "empty_dinode type = \<lparr>d_type = type, d_major = 0, d_minor = 0, d_nlink = 1, d_size = 0, d_addrs = replicate 13 0\<rparr>"

lemma empty_dinode_simps [simp]: "d_type (empty_dinode ty) = ty" "d_nlink (empty_dinode ty) = 1" "d_size (empty_dinode ty) = 0"
  "d_addrs (empty_dinode ty) = replicate 13 0"
  by (simp_all add: empty_dinode_def)

lemma state_ok_more:
  assumes s: "state_ok s own n D M C" and d: "d_addrs d = replicate 13 0"
  shows "state_ok s own (Suc n) (D(n := d)) (M(n := 0)) (C(n := []))"
proof -
  have ia: "iaddr d = 0" and fa: "f < 12 \<Longrightarrow> faddr img d f = 0" for img f using d by (simp_all add: iaddr_def faddr_def)
  have new: "fmap_ok (fsimg s) (unat (freeblock s)) own n d 0" "data_ok (fsimg s) d 0 []" using d ia fa by (simp_all add: fmap_ok_def data_ok_def)
  have "owned (fsimg s) (Suc n) (D(n := d)) (M(n := 0)) b r" if "owned (fsimg s) n D M b r" for b r
    using that by (auto simp: owned_def split: prod.splits nat.splits)
  then show ?thesis using s new ia by (auto simp: state_ok_def fs_ok_def less_Suc_eq)
qed

lemma ialloc_run:
  assumes b: "built s n T C" and n: "n < 200"
  shows "\<exists>t. mkfs_ialloc ty s = Ok (of_nat n) t \<and> built t (Suc n) (T(n := ty)) (C(n := [])) \<and> freeblock t = freeblock s"
proof -
  let ?d = "empty_dinode ty" and ?s = "s\<lparr>freeinode := of_nat n + 1\<rparr>"
  obtain own where st: "state_ok s own n (dnode (fsimg s)) (sizes C) C" using builtD(1) [OF b] by blast
  define img where "img = (fsimg s)[32 + n div 8 := put_dinode (of_nat n) ?d (fsimg s ! (32 + n div 8))]"
  let ?t = "?s\<lparr>fsimg := img\<rparr>"
  have n8: "n < 208" using n by simp
  note g = builtD(2) [OF b]
  have g': "geometry (fsimg ?s) (unat (freeblock s))" "mkfs_super ?s = mkfs_sb" using g builtD(6) [OF b] by simp_all
  have wr: "winode (of_nat n) ?d ?s = Ok () ?t" using inode_io(2) [OF g'(1) n8 g'(2), of ?d] by (simp add: img_def)
  have dn: "dnode img n = ?d" "img ! 1 = fsimg s ! 1" "\<And>j. j < 208 \<Longrightarrow> j \<noteq> n \<Longrightarrow> dnode img j = dnode (fsimg s) j"
    unfolding img_def using dnode_put [OF g n8, of ?d] by simp_all
  have bl: "length (fsimg s ! (32 + n div 8)) = 512" using g inode_no(1) [OF n8] by (simp add: geometry_def)
  have "fs_ok img (unat (freeblock s)) own n (dnode (fsimg s)) (sizes C) C"
    unfolding img_def by (rule fs_ok_meta) (use st inode_no(1) [OF n8] bl in \<open>auto simp: state_ok_def\<close>)
  then have "state_ok ?t own n (dnode (fsimg s)) (sizes C) C" using st by (simp add: state_ok_def)
  from state_ok_more [OF this, of ?d] have "state_ok ?t own (Suc n) (dnode img) (sizes (C(n := []))) (C(n := []))"
    by (rule state_ok_cong) (use dn n in \<open>auto simp: parts_def\<close>)
  then have "built ?t (Suc n) (T(n := ty)) (C(n := []))"
    using b n dn by (auto simp: built_def less_Suc_eq)
  moreover have "mkfs_ialloc ty s = Ok (of_nat n) ?t"
    using wr builtD(3) [OF b] by (simp add: mkfs_ialloc_def empty_dinode_def)
  ultimately show ?thesis by auto
qed

text \<open>Copying a file of the host piece by piece.\<close>

lemma appends_run:
  "built s n T C \<Longrightarrow> 0 < i \<Longrightarrow> i < n \<Longrightarrow> length (C i) + length (concat ps) \<le> 512 * 140 \<Longrightarrow>
    unat (freeblock s) + cost (parts (length (C i) + length (concat ps))) \<le> 1000 + cost (parts (length (C i))) \<Longrightarrow>
    \<exists>t. for_each ps (iappend (of_nat i)) s = Ok () t \<and> built t n T (C(i := C i @ concat ps)) \<and>
      unat (freeblock t) + cost (parts (length (C i))) = unat (freeblock s) + cost (parts (length (C i) + length (concat ps)))"
proof (induction ps arbitrary: s C)
  case (Cons p ps)
  let ?C = "C(i := C i @ p)"
  have "cost (parts (length (C i) + length p)) \<le> cost (parts (length (C i) + length (concat (p # ps))))"
    by (intro cost_mono parts_mono) simp
  then have room: "unat (freeblock s) + cost (parts (length (C i) + length p)) \<le> 1000 + cost (parts (length (C i)))"
    using Cons.prems(5) by linarith
  have "length (C i) + length p \<le> 512 * 140" using Cons.prems(4) by simp
  then obtain u where u: "iappend (of_nat i) p s = Ok () u" "built u n T ?C"
    "unat (freeblock u) + cost (parts (length (C i))) = unat (freeblock s) + cost (parts (length (C i) + length p))"
    using iappend_run [OF Cons.prems(1-3) _ room] by blast
  have l: "length (?C i) + length (concat ps) = length (C i) + length (concat (p # ps))" by simp
  have "length (?C i) + length (concat ps) \<le> 512 * 140"
    "unat (freeblock u) + cost (parts (length (?C i) + length (concat ps))) \<le> 1000 + cost (parts (length (?C i)))"
    unfolding l using Cons.prems(4,5) u(3) by simp_all
  from Cons.IH [OF u(2) Cons.prems(2,3) this] obtain t where t: "for_each ps (iappend (of_nat i)) u = Ok () t"
    "built t n T (?C(i := ?C i @ concat ps))"
    "unat (freeblock t) + cost (parts (length (?C i))) = unat (freeblock u) + cost (parts (length (?C i) + length (concat ps)))" by blast
  have C: "?C(i := ?C i @ concat ps) = C(i := C i @ concat (p # ps))" by (simp add: fun_eq_iff)
  have "for_each (p # ps) (iappend (of_nat i)) s = Ok () t" using u(1) t(1) by simp
  moreover have "unat (freeblock t) + cost (parts (length (C i))) = unat (freeblock s) + cost (parts (length (C i) + length (concat (p # ps))))"
    using t(3) u(3) unfolding l by simp
  ultimately show ?case using t(2) unfolding C by blast
qed simp

section \<open>The files of the command line\<close>

fun content :: "host_file \<Rightarrow> uchar list" where
  "content (name, None) = []"
| "content (name, Some ps) = concat (takeWhile (\<lambda>p. p \<noteq> []) ps)"

fun listing :: "nat \<Rightarrow> host_file list \<Rightarrow> uchar list" where
  "listing n [] = []"
| "listing n (f # fs) = mkfs_dirent (of_nat n) (strip_underscore (fst f)) @ listing (Suc n) fs"

definition host_ok :: "host_file \<Rightarrow> bool" where
  "host_ok f \<longleftrightarrow> 47 \<notin> set (fst f) \<and> snd f \<noteq> None \<and> length (content f) \<le> 512 * 140"

definition file_cost :: "nat \<Rightarrow> nat" where
  "file_cost k = cost (parts k)"

lemma file_cost_0 [simp]: "file_cost 0 = 0" and file_cost_mono: "j \<le> k \<Longrightarrow> file_cost j \<le> file_cost k"
  by (simp add: file_cost_def cost_def parts_def) (simp add: file_cost_def cost_mono parts_mono)

lemma length_mkfs_dirent [simp]: "length (mkfs_dirent n name) = 16"
  by (simp add: mkfs_dirent_def length_dirent_bytes)

lemma length_listing [simp]: "length (listing n fs) = 16 * length fs"
  by (induction n fs rule: listing.induct) simp_all

lemma add_run:
  assumes b: "built s n T C" and n: "1 < n" "n < 200" and f: "host_ok f" and len: "length (C 1) + 16 \<le> 512 * 140"
    and room: "unat (freeblock s) + file_cost (length (C 1) + 16) + file_cost (length (content f)) \<le> 1000 + file_cost (length (C 1))"
  shows "\<exists>t. mkfs_add 1 f s = Ok () t \<and>
    built t (Suc n) (T(n := T_FILE)) (C(1 := C 1 @ mkfs_dirent (of_nat n) (strip_underscore (fst f)), n := content f)) \<and>
    unat (freeblock t) + file_cost (length (C 1)) = unat (freeblock s) + file_cost (length (C 1) + 16) + file_cost (length (content f))"
proof -
  obtain name ps where fp: "f = (name, Some ps)" "47 \<notin> set name" using f by (cases f rule: content.cases) (auto simp: host_ok_def)
  let ?e = "mkfs_dirent (of_nat n) (strip_underscore name)" and ?qs = "takeWhile (\<lambda>p. p \<noteq> []) ps"
  obtain u where u: "mkfs_ialloc T_FILE s = Ok (of_nat n) u" "built u (Suc n) (T(n := T_FILE)) (C(n := []))" "freeblock u = freeblock s"
    using ialloc_run [OF b n(2)] by blast
  have n1: "n \<noteq> 1" "1 < Suc n" "0 < n" using n by auto
  have "unat (freeblock u) + cost (parts (length ((C(n := [])) 1) + length ?e)) \<le> 1000 + cost (parts (length ((C(n := [])) 1)))"
    "length ((C(n := [])) 1) + length ?e \<le> 512 * 140"
    using room len u(3) n1(1) by (simp_all add: file_cost_def)
  from iappend_run [OF u(2) zero_less_one n1(2) this(2,1)] obtain v where w: "iappend (of_nat 1) ?e u = Ok () v"
    "built v (Suc n) (T(n := T_FILE)) (C(n := [], 1 := (C(n := [])) 1 @ ?e))"
    "unat (freeblock v) + cost (parts (length ((C(n := [])) 1))) = unat (freeblock u) + cost (parts (length ((C(n := [])) 1) + length ?e))" by blast
  have "(C(n := [])) 1 = C 1" using n1(1) by simp
  note v = w [unfolded this of_nat_1 u(3) length_mkfs_dirent, folded file_cost_def]
  let ?C = "C(n := [], 1 := C 1 @ ?e)"
  have c: "?C n = []" "content f = concat ?qs" using n1(1) fp by simp_all
  have "length (?C n) + length (concat ?qs) \<le> 512 * 140"
    "unat (freeblock v) + cost (parts (length (?C n) + length (concat ?qs))) \<le> 1000 + cost (parts (length (?C n)))"
    using f room v(3) unfolding c(1) c(2) [symmetric] by (simp_all add: host_ok_def file_cost_def)
  from appends_run [OF v(2) n1(3) lessI this] obtain t where t: "for_each ?qs (iappend (of_nat n)) v = Ok () t"
    "built t (Suc n) (T(n := T_FILE)) (?C(n := ?C n @ concat ?qs))" "unat (freeblock t) + cost (parts (length (?C n))) = unat (freeblock v) + cost (parts (length (?C n) + length (concat ?qs)))" by blast
  have C: "?C(n := ?C n @ concat ?qs) = C(1 := C 1 @ ?e, n := content f)" using n1(1) by (simp add: fun_eq_iff fp(1))
  have "mkfs_add 1 f s = Ok () t" using u(1) v(1) t(1) fp(2) by (simp add: mkfs_add_def fp(1))
  moreover have "unat (freeblock t) + file_cost (length (C 1)) = unat (freeblock s) + file_cost (length (C 1) + 16) + file_cost (length (content f))"
    using t(3) v(3) unfolding c(1) c(2) [symmetric] file_cost_def by (simp add: parts_def cost_def)
  ultimately show ?thesis using t(2) unfolding C fp(1) fst_conv by blast
qed

lemma files_run:
  "built s n T C \<Longrightarrow> 1 < n \<Longrightarrow> n + length fs \<le> 200 \<Longrightarrow> \<forall>f\<in>set fs. host_ok f \<Longrightarrow> length (C 1) + 16 * length fs \<le> 512 * 140 \<Longrightarrow>
    unat (freeblock s) + file_cost (length (C 1) + 16 * length fs) + sum_list (map (\<lambda>f. file_cost (length (content f))) fs) \<le> 1000 + file_cost (length (C 1)) \<Longrightarrow>
    \<exists>t T' C'. for_each fs (mkfs_add 1) s = Ok () t \<and> built t (n + length fs) T' C' \<and> C' 1 = C 1 @ listing n fs \<and> T' 1 = T 1 \<and>
      (\<forall>k<length fs. C' (n + k) = content (fs ! k) \<and> T' (n + k) = T_FILE) \<and> (\<forall>i. 1 < i \<and> i < n \<longrightarrow> C' i = C i \<and> T' i = T i)"
proof (induction fs arbitrary: s n T C)
  case (Cons f fs)
  let ?C = "C(1 := C 1 @ mkfs_dirent (of_nat n) (strip_underscore (fst f)), n := content f)"
  have n1: "n < 200" "n \<noteq> 1" "1 < Suc n" and hf: "host_ok f" using Cons.prems(2-4) by auto
  have "file_cost (length (C 1) + 16) \<le> file_cost (length (C 1) + 16 * length (f # fs))" by (rule file_cost_mono) simp
  then have "unat (freeblock s) + file_cost (length (C 1) + 16) + file_cost (length (content f)) \<le> 1000 + file_cost (length (C 1))"
    using Cons.prems(6) by simp
  moreover have "length (C 1) + 16 \<le> 512 * 140" using Cons.prems(5) by simp
  ultimately obtain u where u: "mkfs_add 1 f s = Ok () u" "built u (Suc n) (T(n := T_FILE)) ?C"
    "unat (freeblock u) + file_cost (length (C 1)) = unat (freeblock s) + file_cost (length (C 1) + 16) + file_cost (length (content f))"
    using add_run [OF Cons.prems(1,2) n1(1) hf] by blast
  have l: "length (?C 1) = length (C 1) + 16" "length (?C 1) + 16 * length fs = length (C 1) + 16 * length (f # fs)" using n1(2) by simp_all
  have "Suc n + length fs \<le> 200" "\<forall>f\<in>set fs. host_ok f" "length (?C 1) + 16 * length fs \<le> 512 * 140"
    "unat (freeblock u) + file_cost (length (?C 1) + 16 * length fs) + sum_list (map (\<lambda>f. file_cost (length (content f))) fs) \<le> 1000 + file_cost (length (?C 1))"
    unfolding l using Cons.prems(3-6) u(3) by (simp_all add: add.assoc)
  from Cons.IH [OF u(2) n1(3) this] obtain t T' C' where t: "for_each fs (mkfs_add 1) u = Ok () t" "built t (Suc n + length fs) T' C'"
    "C' 1 = ?C 1 @ listing (Suc n) fs" "T' 1 = (T(n := T_FILE)) 1"
    "\<forall>k<length fs. C' (Suc n + k) = content (fs ! k) \<and> T' (Suc n + k) = T_FILE" "\<forall>i. 1 < i \<and> i < Suc n \<longrightarrow> C' i = ?C i \<and> T' i = (T(n := T_FILE)) i"
    by blast
  have "C' n = content f \<and> T' n = T_FILE" using t(6) [rule_format, of n] Cons.prems(2) by simp
  then have "\<forall>k<length (f # fs). C' (n + k) = content ((f # fs) ! k) \<and> T' (n + k) = T_FILE"
    using t(5) by (auto simp: less_Suc_eq_0_disj)
  moreover have "\<forall>i. 1 < i \<and> i < n \<longrightarrow> C' i = C i \<and> T' i = T i" using t(6) by auto
  moreover have "for_each (f # fs) (mkfs_add 1) s = Ok () t" using u(1) t(1) by simp
  ultimately show ?case using t(2,3,4) n1(2) by (intro exI [of _ t] exI [of _ T'] exI [of _ C']) simp
qed (rule exI, auto)

section \<open>What the image holds\<close>

text \<open>The bytes of a file, and the blocks that belong to the files of the first inodes.\<close>

definition file_at :: "block list \<Rightarrow> dinode \<Rightarrow> nat \<Rightarrow> uchar list" where
  "file_at img d len = map (\<lambda>k. img ! faddr img d (k div 512) ! (k mod 512)) [0..<len]"

definition blocks_of :: "block list \<Rightarrow> dinode \<Rightarrow> nat \<Rightarrow> nat list" where
  "blocks_of img d m = map (faddr img d) [0..<m] @ (if m \<le> 12 then [] else [iaddr d])"

definition used :: "block list \<Rightarrow> (nat \<Rightarrow> nat) \<Rightarrow> nat \<Rightarrow> nat list" where
  "used img M n = concat (map (\<lambda>i. blocks_of img (dnode img i) (M i)) [1..<n])"

lemma state_file: "state_ok s own n D M C \<Longrightarrow> 0 < i \<Longrightarrow> i < n \<Longrightarrow> file_at (fsimg s) (D i) (length (C i)) = C i"
  by (rule nth_equalityI) (auto simp: file_at_def state_ok_def fs_ok_def data_ok_def)

lemma blocks_owner:
  assumes s: "state_ok s own n D M C" and i: "0 < i" "i < n"
  shows "map own (blocks_of (fsimg s) (D i) (M i)) = map (\<lambda>f. (i, Suc f)) [0..<M i] @ (if M i \<le> 12 then [] else [(i, 0)])"
    "b \<in> set (blocks_of (fsimg s) (D i) (M i)) \<Longrightarrow> 59 \<le> b \<and> b < unat (freeblock s) \<and> fst (own b) = i"
    "distinct (blocks_of (fsimg s) (D i) (M i))"
proof -
  have m: "fmap_ok (fsimg s) (unat (freeblock s)) own i (D i) (M i)" and a: "iaddr (D i) = 0 \<longleftrightarrow> M i \<le> 12"
    using s i by (simp_all add: state_ok_def fs_ok_def)
  show o: "map own (blocks_of (fsimg s) (D i) (M i)) = map (\<lambda>f. (i, Suc f)) [0..<M i] @ (if M i \<le> 12 then [] else [(i, 0)])"
    using m a by (auto simp: blocks_of_def fmap_ok_def taken_def)
  show "59 \<le> b \<and> b < unat (freeblock s) \<and> fst (own b) = i" if "b \<in> set (blocks_of (fsimg s) (D i) (M i))"
    using that m a by (auto simp: blocks_of_def fmap_ok_def taken_def split: if_splits)
  have "distinct (map (\<lambda>f. (i, Suc f)) [0..<M i] @ (if M i \<le> 12 then [] else [(i, 0)]))" by (auto simp: distinct_map inj_on_def)
  then show "distinct (blocks_of (fsimg s) (D i) (M i))" unfolding o [symmetric] distinct_map by (rule conjunct1)
qed

lemma used_blocks:
  assumes s: "state_ok s own n (dnode (fsimg s)) M C" and n: "0 < n"
  shows "distinct (used (fsimg s) M n)" "set (used (fsimg s) M n) = {59..<unat (freeblock s)}"
proof -
  note own = blocks_owner [OF s]
  have d: "distinct (used (fsimg s) M j) \<and> (\<forall>b\<in>set (used (fsimg s) M j). 59 \<le> b \<and> b < unat (freeblock s) \<and> fst (own b) < j)"
    if "0 < j" "j \<le> n" for j
    using that
  proof (induction j)
    case (Suc j)
    show ?case
    proof (cases "j = 0")
      case False
      then have j: "0 < j" "j < n" and [simp]: "[1..<Suc j] = [1..<j] @ [j]" using Suc.prems by auto
      have ih: "distinct (used (fsimg s) M j)" "\<And>b. b \<in> set (used (fsimg s) M j) \<Longrightarrow> 59 \<le> b \<and> b < unat (freeblock s) \<and> fst (own b) < j"
        using Suc.IH j by auto
      have u: "used (fsimg s) M (Suc j) = used (fsimg s) M j @ blocks_of (fsimg s) (dnode (fsimg s) j) (M j)" unfolding used_def using j(1) by simp
      show ?thesis unfolding u using ih own(2,3) [OF j] by (fastforce simp: less_Suc_eq)
    qed (simp add: used_def)
  qed simp
  show "distinct (used (fsimg s) M n)" using d [OF n] by simp
  have "b \<in> set (used (fsimg s) M n)" if b: "59 \<le> b" "b < unat (freeblock s)" for b
  proof -
    obtain i r where o: "own b = (i, r)" by fastforce
    have "owned (fsimg s) n (dnode (fsimg s)) M b (i, r)" using s b o fs_okD(4) by (metis state_ok_def)
    then have i: "0 < i" "i < n" and r: "case r of 0 \<Rightarrow> iaddr (dnode (fsimg s) i) = b | Suc f \<Rightarrow> f < M i \<and> faddr (fsimg s) (dnode (fsimg s) i) f = b"
      by (simp_all add: owned_def)
    have "iaddr (dnode (fsimg s) i) = 0 \<longleftrightarrow> M i \<le> 12" using s i by (simp add: state_ok_def)
    then have "b \<in> set (blocks_of (fsimg s) (dnode (fsimg s) i) (M i))" using r b(1) by (cases r) (auto simp: blocks_of_def)
    then show ?thesis using i unfolding used_def by force
  qed
  then show "set (used (fsimg s) M n) = {59..<unat (freeblock s)}" using d [OF n] by auto
qed

lemma zeroed: "k \<le> 1000 \<Longrightarrow> for_each [0..<k] (\<lambda>i. wsect (of_nat i) zero_block) mkfs_start = Ok () (mkfs_start\<lparr>fsimg := replicate k zero_block\<rparr>)"
proof (induction k)
  case 0
  show ?case by (simp add: mkfs_start_def)
next
  case (Suc k)
  then have r: "for_each [0..<k] (\<lambda>i. wsect (of_nat i) zero_block) mkfs_start = Ok () (mkfs_start\<lparr>fsimg := replicate k zero_block\<rparr>)" by simp
  have w: "wsect (of_nat k) zero_block (mkfs_start\<lparr>fsimg := replicate k zero_block\<rparr>) = Ok () (mkfs_start\<lparr>fsimg := replicate (Suc k) zero_block\<rparr>)"
    using Suc.prems by (simp add: wsect_def replicate_append_same [symmetric])
  show ?case using w by (simp add: for_each_append bind_Ok [where m = "for_each _ _", OF r])
qed

lemma mkfs_start_super: "mkfs_super mkfs_start = mkfs_sb" "freeblock mkfs_start = 59" "freeinode mkfs_start = 1"
  by (simp_all add: mkfs_start_def mkfs_sb_def)

lemma start_built:
  defines "s \<equiv> mkfs_start\<lparr>fsimg := (replicate 1000 zero_block)[1 := splice 0 (superblock_bytes mkfs_sb) zero_block]\<rparr>"
  shows "built s 1 T C"
proof -
  let ?v = "splice 0 (superblock_bytes mkfs_sb) zero_block"
  have v: "length ?v = 512" "superblock_of ?v = mkfs_sb" by (simp_all add: splice_def superblock_of_bytes)
  have "length (fsimg s ! b) = 512" if "b < 1000" for b using that v(1) by (cases "b = 1") (simp_all add: s_def)
  moreover have "fsimg s ! b = zero_block" if "59 \<le> b" "b < 1000" for b using that by (simp add: s_def)
  moreover have "unat (freeblock s) = 59" "length (fsimg s) = 1000" by (simp_all add: s_def mkfs_start_super)
  ultimately have "state_ok s own 1 (dnode (fsimg s)) (sizes C) C" for own by (auto simp: state_ok_def fs_ok_def geometry_def)
  moreover have "superblock_of (fsimg s ! 1) = mkfs_sb" "mkfs_super s = mkfs_sb" "freeinode s = 1"
    using v(2) by (simp_all add: s_def mkfs_start_super)
  ultimately show ?thesis by (auto simp: built_def)
qed

lemma bitmap_first:
  "u \<le> 4096 \<Longrightarrow> length (fold bitmap_set [0..<u] (replicate 512 0)) = 512 \<and>
    (\<forall>b<4096. bitmap_bit (fold bitmap_set [0..<u] (replicate 512 0)) b \<longleftrightarrow> b < u)"
proof (induction u)
  case 0
  have "\<not> bitmap_bit (replicate 512 0) b" if "b < 4096" for b
    using that by (simp add: bitmap_bit_def less_mult_imp_div_less)
  then show ?case by simp
qed (auto simp: bitmap_bit_set less_Suc_eq)

text \<open>Storing the bitmap and the size of the root directory changes blocks in front of the data only.\<close>

lemma finish_run:
  assumes b: "built s n T C" and n: "1 < n"
  shows "\<exists>t own. bind (rinode 1) (\<lambda>din. bind (winode 1 (din\<lparr>d_size := z din\<rparr>)) (\<lambda>_. bind (gets freeblock) (\<lambda>used. mkfs_balloc (unat used)))) s = Ok () t \<and>
    state_ok t own n (dnode (fsimg t)) (sizes C) C \<and> freeblock t = freeblock s \<and> superblock_of (fsimg t ! 1) = mkfs_sb \<and>
    (\<forall>k<1000. bitmap_bit (fsimg t ! 58) k \<longleftrightarrow> k < unat (freeblock s)) \<and>
    (\<forall>i. 0 < i \<and> i < n \<longrightarrow> d_type (dnode (fsimg t) i) = T i \<and> d_nlink (dnode (fsimg t) i) = 1 \<and>
      (i \<noteq> 1 \<longrightarrow> d_size (dnode (fsimg t) i) = of_nat (length (C i))))"
proof -
  note g = builtD(2) [OF b] and sup = builtD(6) [OF b]
  obtain own where st: "state_ok s own n (dnode (fsimg s)) (sizes C) C" using builtD(1) [OF b] by blast
  let ?d = "(dnode (fsimg s) 1)\<lparr>d_size := z (dnode (fsimg s) 1)\<rparr>" and ?fb = "unat (freeblock s)"
  define img where "img = (fsimg s)[32 := put_dinode 1 ?d (fsimg s ! 32)]"
  define bm where "bm = fold bitmap_set [0..<?fb] (replicate 512 0)"
  let ?u = "s\<lparr>fsimg := img\<rparr>" and ?t = "s\<lparr>fsimg := img[58 := bm]\<rparr>"
  have l: "length (d_addrs ?d) = 13" using builtD(8) [OF b, of 1] n by simp
  have io: "rinode 1 s = Ok (dnode (fsimg s) 1) s" "winode 1 ?d s = Ok () ?u"
    using inode_io(1) [OF g, of 1] inode_io(2) [OF g, of 1 ?d] sup by (simp_all add: img_def)
  have dn: "dnode img 1 = ?d" "\<And>j. j < 208 \<Longrightarrow> j \<noteq> 1 \<Longrightarrow> dnode img j = dnode (fsimg s) j" "img ! 1 = fsimg s ! 1"
    using dnode_put [OF g, of 1 ?d] l by (simp_all add: img_def)
  have fb: "?fb \<le> 1000" "length (fsimg s) = 1000" "length (fsimg s ! 32) = 512" using g by (auto simp: geometry_def)
  have bm: "length bm = 512" "\<And>k. k < 4096 \<Longrightarrow> bitmap_bit bm k \<longleftrightarrow> k < ?fb" using bitmap_first [of ?fb] fb(1) by (simp_all add: bm_def)
  have wr: "mkfs_balloc ?fb ?u = Ok () ?t"
    using fb sup by (simp add: mkfs_balloc_def bm_def wsect_def img_def mkfs_sb_def)
  have dt: "dnode (img[58 := bm]) j = dnode img j" if "j < 208" for j using inode_no(1) [OF that] by (simp add: dnode_def)
  have "fs_ok (fsimg s) ?fb own n (dnode (fsimg s)) (sizes C) C" using st by (simp add: state_ok_def)
  then have "fs_ok img ?fb own n (dnode (fsimg s)) (sizes C) C" unfolding img_def by (rule fs_ok_meta) (use fb(3) l in simp_all)
  then have "fs_ok (img[58 := bm]) ?fb own n (dnode (fsimg s)) (sizes C) C" by (rule fs_ok_meta) (use bm(1) in simp_all)
  then have sv: "state_ok ?t own n (dnode (fsimg s)) (sizes C) C" using st by (simp add: state_ok_def)
  have ad: "d_addrs (dnode (fsimg ?t) j) = d_addrs (dnode (fsimg s) j)" if "j < n" for j
    using builtD(5) [OF b] that dn dt [of j] by (cases "j = 1") simp_all
  have sto: "state_ok ?t own n (dnode (fsimg ?t)) (sizes C) C" by (rule state_ok_cong [OF sv]) (use ad in simp_all)
  have "bitmap_bit (fsimg ?t ! 58) k \<longleftrightarrow> k < ?fb" if "k < 1000" for k using bm(2) that fb(2) by (simp add: img_def)
  moreover have "d_type (dnode (fsimg ?t) i) = T i \<and> d_nlink (dnode (fsimg ?t) i) = 1 \<and> (i \<noteq> 1 \<longrightarrow> d_size (dnode (fsimg ?t) i) = of_nat (length (C i)))"
    if "0 < i" "i < n" for i
    using builtD(9) [OF b that] builtD(5) [OF b] that dt [of i] dn by (cases "i = 1") auto
  moreover have "superblock_of (fsimg ?t ! 1) = mkfs_sb" using dn(3) builtD(7) [OF b] by simp
  moreover have "bind (rinode 1) (\<lambda>din. bind (winode 1 (din\<lparr>d_size := z din\<rparr>)) (\<lambda>_. bind (gets freeblock) (\<lambda>used. mkfs_balloc (unat used)))) s = Ok () ?t"
    using io wr by simp
  ultimately show ?thesis using sto by (intro exI [of _ ?t] exI [of _ own]) simp
qed

text \<open>The first three steps: an empty image, the root directory, and its entries for itself.\<close>

definition self_entries :: "uchar list" where
  "self_entries = mkfs_dirent 1 [46] @ mkfs_dirent 1 [46, 46]"

lemma root_run:
  "\<exists>s T C. bind (for_each [0..<FSSIZE] (\<lambda>i. wsect (of_nat i) zero_block)) (\<lambda>_. bind (gets mkfs_super) (\<lambda>sb.
      bind (wsect 1 (splice 0 (superblock_bytes sb) zero_block)) (\<lambda>_. bind (mkfs_ialloc T_DIR) (\<lambda>rootino.
      bind (panic_if (rootino \<noteq> ROOTINO) ''assert'') (\<lambda>_. bind (iappend rootino (mkfs_dirent rootino [46])) (\<lambda>_.
      bind (iappend rootino (mkfs_dirent rootino [46, 46])) (f rootino))))))) mkfs_start = f 1 () s \<and>
    built s 2 T C \<and> C 1 = self_entries \<and> T 1 = T_DIR \<and> unat (freeblock s) = 59 + file_cost 32"
proof -
  let ?v = "splice 0 (superblock_bytes mkfs_sb) zero_block" and ?C = "\<lambda>_. [] :: uchar list" and ?T = "\<lambda>_. T_DIR"
  define s0 where "s0 = mkfs_start\<lparr>fsimg := (replicate 1000 zero_block)[1 := ?v]\<rparr>"
  have z: "for_each [0..<FSSIZE] (\<lambda>i. wsect (of_nat i) zero_block) mkfs_start = Ok () (mkfs_start\<lparr>fsimg := replicate 1000 zero_block\<rparr>)"
    unfolding FSSIZE_def by (rule zeroed) simp
  have w: "wsect 1 ?v (mkfs_start\<lparr>fsimg := replicate 1000 zero_block\<rparr>) = Ok () s0" by (simp add: wsect_def s0_def)
  have b0: "built s0 1 ?T ?C" "unat (freeblock s0) = 59" unfolding s0_def by (rule start_built) (simp add: mkfs_start_super)
  obtain s1 where s1: "mkfs_ialloc T_DIR s0 = Ok (of_nat 1) s1" "built s1 (Suc 1) (?T(1 := T_DIR)) (?C(1 := []))" "freeblock s1 = freeblock s0"
    using ialloc_run [OF b0(1), of T_DIR] by auto
  have C1: "?C(1 := []) = ?C" by (simp add: fun_eq_iff)
  have i: "0 < (1::nat)" "(1::nat) < Suc 1" by simp_all
  have p: "parts 0 = 0" "parts 16 = 1" "parts 32 = 1" "cost 0 = 0" "cost (Suc 0) = 1" by (simp_all add: parts_def cost_def)
  obtain s2 where s2: "iappend (of_nat 1) (mkfs_dirent 1 [46]) s1 = Ok () s2" "built s2 (Suc 1) (?T(1 := T_DIR)) (?C(1 := mkfs_dirent 1 [46]))" "unat (freeblock s2) = 60"
    using iappend_run [OF s1(2) [unfolded C1] i, of "mkfs_dirent 1 [46]"] b0(2) s1(3) by (auto simp: p)
  obtain s3 where s3: "iappend (of_nat 1) (mkfs_dirent 1 [46, 46]) s2 = Ok () s3" "built s3 (Suc 1) (?T(1 := T_DIR)) (?C(1 := self_entries))" "unat (freeblock s3) = 60"
    using iappend_run [OF s2(2) i, of "mkfs_dirent 1 [46, 46]"] s2(3) by (auto simp: p self_entries_def)
  show ?thesis
    using s1(1) s2(1) s3 w
    by (intro exI [of _ s3] exI [of _ "?T(1 := T_DIR)"] exI [of _ "?C(1 := self_entries)"])
      (simp add: bind_Ok [where m = "for_each _ _", OF z] mkfs_start_super file_cost_def p numeral_2_eq_2 del: FSSIZE_def)
qed

lemma used_cong: "(\<And>i. 0 < i \<Longrightarrow> i < n \<Longrightarrow> M' i = M i) \<Longrightarrow> used img M' n = used img M n"
  unfolding used_def by (intro arg_cong [where f = concat] map_cong) auto

text \<open>The size of file \<open>i\<close> of the image.\<close>

definition image_size :: "host_file list \<Rightarrow> nat \<Rightarrow> nat" where
  "image_size files i = (if i = 1 then 32 + 16 * length files else length (content (files ! (i - 2))))"



end
