(* ===== verification/Spec2Isabelle.thy ===== *)
theory Spec2Isabelle
  imports Trap Crash CString Dirs Tty Grep Sh Mkfs
begin

text \<open>
  Verification of xv6-64, a teaching kernel for multiprocessor x86-64 machines, with its user
  programs and the program that builds its file system.

  \<^bold>\<open>The program.\<close> System calls enter through \<open>trap.c\<close> and \<open>syscall.c\<close> and reach processes
  (\<open>proc.c\<close>, \<open>exec.c\<close>, \<open>vm.c\<close>), open files and pipes (\<open>file.c\<close>, \<open>pipe.c\<close>), the console
  (\<open>console.c\<close>, \<open>uart.c\<close>, \<open>kbd.c\<close>) or the file system (\<open>sysfile.c\<close>, \<open>fs.c\<close>). The file system
  stands on a log that makes its updates atomic (\<open>log.c\<close>), the log on a cache of disk blocks
  (\<open>bio.c\<close>), the cache on a disk driver (\<open>ide.c\<close> or \<open>memide.c\<close>). Spin locks (\<open>spinlock.c\<close>) and
  sleep locks (\<open>sleeplock.c\<close>) order the processors and processes. Pages come from \<open>kalloc.c\<close>.

  \<^bold>\<open>How code is modelled.\<close> An operation is a function from a state to a result: a value with a new
  state, a panic with its message, a process that goes to sleep with the state it leaves, a process
  that exits, or a loop that does not end (\<open>Prelude\<close>). Undefined behaviour of C is the panic
  \<open>undefined\<close>, the use of a null pointer the panic \<open>trap\<close>. The state is a record for each layer that
  extends the record of the layer below. Machine integers are words of their width. Code outside
  the sources (the disk, the ports of devices, the files of the host) is a field of the state or an
  argument.

  \<^bold>\<open>The theories.\<close>
  \<^item> \<open>Prelude\<close>, \<open>Interfaces\<close>, \<open>Memory\<close>, \<open>Layout\<close>, \<open>CString\<close>: the monad, the contracts shared by
    components, byte memory with the routines of \<open>string.c\<close>, the format of the disk (\<open>fs.h\<close>), and the
    string routines of \<open>ulib.c\<close>.
  \<^item> \<open>Spinlock\<close>, \<open>Sleeplock\<close>: the lock routines, and their steps on any number of processors or
    processes. At most one owner, interrupts off in it, no lost wakeup, progress.
  \<^item> \<open>Kalloc\<close>, \<open>Vm\<close>: pages and page tables. The free list hands out each page once.
  \<^item> \<open>Proc\<close>, \<open>Procs\<close>, \<open>Exec\<close>: the process table and the life of a process.
  \<^item> \<open>Ide\<close>, \<open>Bio\<close>, \<open>Bcache\<close>: the two disk drivers agree, and the cache gives what the disk holds.
  \<^item> \<open>Log\<close>, \<open>Crash\<close>: after a crash at any write of a commit, recovery leaves all or nothing of the
    transaction, also when recovery itself is cut off.
  \<^item> \<open>Inode\<close>, \<open>Balloc\<close>, \<open>Frames\<close>, \<open>Icache\<close>, \<open>Dinodes\<close>, \<open>Filedata\<close>, \<open>Fs\<close>, \<open>Dirs\<close>: blocks, inodes, file
    contents, directories as maps from names to inodes, and path names.
  \<^item> \<open>Pipe\<close>, \<open>File\<close>, \<open>Sysfile\<close>, \<open>Syscall\<close>, \<open>Trap\<close>: pipes as queues, and the system calls.
  \<^item> \<open>Console\<close>, \<open>Tty\<close>: output to screen and serial line, and the line discipline of the input.
  \<^item> \<open>Grep\<close>, \<open>User\<close>, \<open>Sh\<close>: \<open>grep.c\<close>, \<open>printf.c\<close> and the small programs over a record of system
    calls, and the shell. The matcher decides the language of its pattern. The shell's parser ends
    on every line, and reads each line of its grammar as the command the grammar says.
  \<^item> \<open>Mkfs\<close>: the image that \<open>mkfs.c\<close> builds is well formed and holds the files it was given.

  \<^bold>\<open>Bounds and fuel.\<close> Loops over data recurse on the data. Loops that wait for hardware or another
  process return the result \<open>Diverge\<close> or \<open>Sleep\<close>. The shell's parser takes the depth of its calls:
  four for each byte of the line and four more are proved to be enough (\<open>Sh.parse_parses\<close>). The
  append of \<open>mkfs\<close> takes one round more than there are bytes, which is enough since each round takes a
  byte at least (\<open>Mkfs.iappend_loop_run\<close>). The programs that read until the end of a file take
  a number of rounds; one for each piece and one for the end is enough for \<open>wc\<close>
  (\<open>User.wc_loop_reads\<close>).

  \<^bold>\<open>What the theorems assume.\<close> The properties of user programs hold for any system calls with the
  stated behaviour of \<open>read\<close> and \<open>write\<close>; they are not derived from the kernel's theories. Apart from
  the step relations of the locks, an operation runs alone until it sleeps. The theories \<open>Vm\<close>, \<open>Exec\<close>,
  \<open>Procs\<close>, \<open>File\<close>, \<open>Sysfile\<close>, \<open>Syscall\<close> and \<open>Trap\<close> define their operations and have no properties of
  their own, and so do most programs of \<open>User\<close>.

  \<^bold>\<open>Not modelled.\<close> Assembly and generated code (\<open>bootasm.S\<close>, \<open>entry.S\<close>, \<open>entryother.S\<close>,
  \<open>initcode.S\<close>, \<open>swtch.S\<close>, \<open>trapasm.S\<close>, \<open>usys.S\<close>, \<open>vectors.S\<close>) and the code that drives it at boot
  (\<open>bootmain.c\<close>, \<open>main.c\<close>); the interrupt controllers and firmware tables (\<open>lapic.c\<close>, \<open>ioapic.c\<close>,
  \<open>mp.c\<close>), whose effects are those of hardware; the allocator \<open>umalloc.c\<close>, which the shell is taken to
  get new memory from; the test suite \<open>usertests.c\<close>; the argument loop of \<open>grep.c\<close>. Some programs
  are in the tree only as binaries (\<open>_imshow\<close>, \<open>_prettyprint\<close>, \<open>_helloloop\<close>, \<open>_alarmtest1\<close> and its
  siblings) and have no source to model.
\<close>

end
